(* ===== verification/VB_Prelude.thy ===== *)
theory VB_Prelude
  imports Main "HOL-Library.Word" "HOL-Library.AList" "HOL-Library.Code_Target_Nat"
begin

text \<open>
  Shared vocabulary of the Viperblock development: the machine integers of the Go sources, Go maps
  as association lists with distinct keys, fallible computations as sums, and the generic facts on
  words, lists and association lists that the component theories use.

  Integers keep their Go width: \<open>uint64\<close>, \<open>uint32\<close>, \<open>uint16\<close> and \<open>byte\<close> are the word types below,
  so that \<open>+\<close>, \<open>-\<close> and \<open>*\<close> wrap around exactly where the compiled program wraps.  Go's \<open>int\<close>
  (64 bits on the supported targets) is \<^typ>\<open>int\<close> where the code only ever holds lengths and loop
  counters in it.

  A Go map is an association list whose keys are distinct.  The list order stands for the
  unspecified iteration order of \<open>range\<close>: results are proved for every order.
\<close>

unbundle bit_operations_syntax

section \<open>Machine integers\<close>

type_synonym u8 = "8 word"
type_synonym u16 = "16 word"
type_synonym u32 = "32 word"
type_synonym u64 = "64 word"
type_synonym bytes = "8 word list"

named_theorems word_nat \<open>facts that move word comparisons and arithmetic to naturals\<close>
named_theorems gomap_simps \<open>lookup laws of Go maps\<close>

lemmas word_le_unat [word_nat] = word_le_nat_alt
lemmas word_lt_unat [word_nat] = word_less_nat_alt

lemma unat_less_2p64 [simp]: "unat (w :: u64) < 18446744073709551616"
  using unsigned_less [of w, where ?'a = nat] by simp

lemma unat_less_2p32 [simp]: "unat (w :: u32) < 4294967296"
  using unsigned_less [of w, where ?'a = nat] by simp

lemma unat_less_2p16 [simp]: "unat (w :: u16) < 65536"
  using unsigned_less [of w, where ?'a = nat] by simp

lemma unat_less_2p8 [simp]: "unat (w :: u8) < 256"
  using unsigned_less [of w, where ?'a = nat] by simp

lemma unat_ucast_16_64 [simp]: "unat (ucast (w :: u16) :: u64) = unat w"
  by (simp add: unsigned_ucast_eq take_bit_nat_eq_self less_trans [OF unat_less_2p16])

lemma unat_ucast_32_64 [simp]: "unat (ucast (w :: u32) :: u64) = unat w"
  by (simp add: unsigned_ucast_eq take_bit_nat_eq_self less_trans [OF unat_less_2p32])

lemma unat_ucast_64_16:
  "unat (w :: u64) < 65536 \<Longrightarrow> unat (ucast w :: u16) = unat w"
  by (simp add: unsigned_ucast_eq take_bit_nat_eq_self)

lemma unat_plus_nowrap:
  "unat (a :: u64) + unat b < 18446744073709551616 \<Longrightarrow> unat (a + b) = unat a + unat b"
  using unat_add_lem [of a b] by simp

lemma unat_plus_nowrap32:
  "unat (a :: u32) + unat b < 4294967296 \<Longrightarrow> unat (a + b) = unat a + unat b"
  using unat_add_lem [of a b] by simp

lemma unat_minus_le:
  "unat (b :: u64) \<le> unat a \<Longrightarrow> unat (a - b) = unat a - unat b"
  by (simp add: unat_sub word_le_nat_alt)

lemma unat_of_nat_u64: "n < 18446744073709551616 \<Longrightarrow> unat (of_nat n :: u64) = n"
  by (simp add: unat_of_nat take_bit_nat_eq_self)

lemma unat_of_nat_u32: "n < 4294967296 \<Longrightarrow> unat (of_nat n :: u32) = n"
  by (simp add: unat_of_nat take_bit_nat_eq_self)

lemma unat_of_nat_u16: "n < 65536 \<Longrightarrow> unat (of_nat n :: u16) = n"
  by (simp add: unat_of_nat take_bit_nat_eq_self)

lemma unat_eq_iff: "unat (a :: 'a::len word) = unat b \<longleftrightarrow> a = b"
  by (metis unsigned_word_eqI)

lemma unat_less_max:
  assumes "(b :: u64) \<noteq> 18446744073709551615"
  shows "unat b < 18446744073709551615"
proof -
  have "unat b \<noteq> unat (18446744073709551615 :: u64)" using assms by (simp only: unat_eq_iff not_False_eq_True)
  moreover have "unat (18446744073709551615 :: u64) = 18446744073709551615" by simp
  ultimately show ?thesis using unat_less_2p64 [of b] by linarith
qed

lemma unat_Suc_u64: "(b :: u64) \<noteq> 18446744073709551615 \<Longrightarrow> unat (b + 1) = unat b + 1"
  using unat_plus_nowrap [of b 1] unat_less_max [of b] by simp

section \<open>Fallible computations\<close>

text \<open>\<open>(x, err)\<close> returns become sums: \<^term>\<open>Inl\<close> carries the error.\<close>

fun bind_sum :: "'e + 'a \<Rightarrow> ('a \<Rightarrow> 'e + 'b) \<Rightarrow> 'e + 'b" where
  "bind_sum (Inl e) f = Inl e"
| "bind_sum (Inr x) f = f x"

lemma bind_sum_eq_Inr: "bind_sum m f = Inr y \<longleftrightarrow> (\<exists>x. m = Inr x \<and> f x = Inr y)"
  by (cases m) auto

lemma bind_sum_eq_Inl:
  "bind_sum m f = Inl e \<longleftrightarrow> m = Inl e \<or> (\<exists>x. m = Inr x \<and> f x = Inl e)"
  by (cases m) auto

section \<open>Go maps\<close>

type_synonym ('k, 'v) gomap = "('k \<times> 'v) list"

abbreviation gomap_ok :: "('k, 'v) gomap \<Rightarrow> bool" where
  "gomap_ok m \<equiv> distinct (map fst m)"

abbreviation gput :: "'k \<Rightarrow> 'v \<Rightarrow> ('k, 'v) gomap \<Rightarrow> ('k, 'v) gomap" where
  "gput \<equiv> AList.update"

abbreviation gdel :: "'k \<Rightarrow> ('k, 'v) gomap \<Rightarrow> ('k, 'v) gomap" where
  "gdel \<equiv> AList.delete"

lemma gget_gput [simp, gomap_simps]:
  "map_of (gput k v m) k' = (if k' = k then Some v else map_of m k')"
  by (simp add: update_conv')

lemma gget_gdel [simp, gomap_simps]:
  "map_of (gdel k m) k' = (if k' = k then None else map_of m k')"
  by (simp add: delete_conv')

lemma gomap_ok_gput [simp, intro]: "gomap_ok m \<Longrightarrow> gomap_ok (gput k v m)"
  by (rule distinct_update)

lemma gomap_ok_gdel [simp, intro]: "gomap_ok m \<Longrightarrow> gomap_ok (gdel k m)"
  by (rule distinct_delete)

lemma gomap_in_iff: "gomap_ok m \<Longrightarrow> (k, v) \<in> set m \<longleftrightarrow> map_of m k = Some v"
  by simp

lemma gdel_notin: "k \<notin> fst ` set m \<Longrightarrow> gdel k m = m"
  by (rule delete_id)

lemma gput_keys: "fst ` set (gput k v m) = insert k (fst ` set m)"
  by (simp add: dom_update)

lemma gdel_keys: "fst ` set (gdel k m) = fst ` set m - {k}"
  by (metis delete_keys set_map set_removeAll)

lemma length_gput_le: "length (gput k v m) \<le> Suc (length m)"
  by (induction m) auto

lemma length_gdel_less: "map_of m k = Some v \<Longrightarrow> length (gdel k m) < length m"
proof (induction m)
  case (Cons p m)
  then show ?case using length_delete_le [of k m] by (cases p) (auto simp: le_imp_less_Suc split: if_splits)
qed simp

text \<open>A missing key of a \<open>map[K]uint64\<close> reads as zero.\<close>

definition gcount :: "('k, u64) gomap \<Rightarrow> 'k \<Rightarrow> u64" where
  "gcount m k = (case map_of m k of None \<Rightarrow> 0 | Some n \<Rightarrow> n)"

lemma gcount_gput [simp, gomap_simps]: "gcount (gput k v m) k' = (if k' = k then v else gcount m k')"
  by (simp add: gcount_def)

lemma gcount_gdel [simp, gomap_simps]: "gcount (gdel k m) k' = (if k' = k then 0 else gcount m k')"
  by (simp add: gcount_def)

text \<open>Summing a measure of the values: how deletion and insertion change it.\<close>

definition gsum :: "('v \<Rightarrow> nat) \<Rightarrow> ('k, 'v) gomap \<Rightarrow> nat" where
  "gsum f m = sum_list (map (f \<circ> snd) m)"

lemma gsum_Nil [simp]: "gsum f [] = 0"
  and gsum_Cons [simp]: "gsum f (p # m) = f (snd p) + gsum f m"
  by (simp_all add: gsum_def)

lemma gsum_gdel:
  "gomap_ok m \<Longrightarrow> gsum f m = gsum f (gdel k m) + (case map_of m k of None \<Rightarrow> 0 | Some v \<Rightarrow> f v)"
proof (induction m)
  case Nil
  then show ?case by simp
next
  case (Cons p m)
  obtain k' v' where p: "p = (k', v')" by (cases p)
  show ?case
  proof (cases "k' = k")
    case True
    with Cons.prems p have "k \<notin> fst ` set m" by simp
    then show ?thesis using True p by simp
  next
    case False
    with Cons p show ?thesis by simp
  qed
qed

lemma gsum_gput_new: "map_of m k = None \<Longrightarrow> gsum f (gput k v m) = gsum f m + f v"
  by (induction m) (auto split: if_splits)

lemma gsum_ge_member: "map_of m k = Some v \<Longrightarrow> f v \<le> gsum f m"
proof (induction m)
  case Nil
  then show ?case by simp
next
  case (Cons p m)
  then show ?case by (cases "fst p = k") (auto simp: trans_le_add2)
qed

end
