(* ===== verification/Extents.thy ===== *)
theory Extents
  imports VB_Prelude
begin

text \<open>
  The interface shared by the two extent indexes of the engine.  The block store keeps a map of
  \<open>persistedExtent\<close> values and the block map a map of \<open>BlockLookup\<close> values; both are keyed by the
  first block of a run, both are probed for the run that covers a block, and both are updated by
  cutting the runs a fresher run overlaps into a surviving head and tail.  The locale states what an
  extent type has to provide for that to be sound (its first block, its length, what it says of its
  i-th block, and the two cuts), and proves once that cutting keeps the index well formed and
  changes the answer for no block outside the cut range.
\<close>

text \<open>Cutting \<open>[st, st + n)\<close> at an interior block: the word arithmetic is exact.\<close>

lemma cut_bounds:
  fixes st s :: u64 and n :: u16
  assumes "st < s" "unat s < unat st + unat n"
  shows "unat (s - st) = unat s - unat st" "unat s - unat st < 65536" "unat n \<noteq> 0"
    "unat (st + ucast n - s) = unat st + unat n - unat s" "unat st + unat n - unat s < 65536"
proof -
  show d: "unat (s - st) = unat s - unat st" using assms(1) by (simp add: unat_minus_le word_nat)
  show "unat s - unat st < 65536" "unat n \<noteq> 0" "unat st + unat n - unat s < 65536"
    using assms unat_less_2p16 [of n] unfolding word_nat by linarith+
  have "st + ucast n - s = ucast n - (s - st)" by simp
  also have "unat \<dots> = unat n - (unat s - unat st)"
    using assms d by (subst unat_minus_le) (auto simp: word_nat)
  finally show "unat (st + ucast n - s) = unat st + unat n - unat s"
    using assms by (simp add: word_nat)
qed

locale extent_ops =
  fixes start :: "'e \<Rightarrow> u64"
    and num :: "'e \<Rightarrow> u16"
    and cell :: "'e \<Rightarrow> nat \<Rightarrow> 'l"
    and shape :: "'e \<Rightarrow> bool"
    and head_cut :: "u64 \<Rightarrow> 'e \<Rightarrow> 'e"
    and tail_cut :: "u64 \<Rightarrow> 'e \<Rightarrow> 'e"
  assumes head_start: "start (head_cut s e) = start e"
    and head_num: "\<lbrakk>shape e; start e < s; unat s < unat (start e) + unat (num e)\<rbrakk>
      \<Longrightarrow> unat (num (head_cut s e)) = unat s - unat (start e)"
    and head_cell: "\<lbrakk>shape e; start e < s; unat s < unat (start e) + unat (num e);
        i < unat s - unat (start e)\<rbrakk> \<Longrightarrow> cell (head_cut s e) i = cell e i"
    and head_shape: "\<lbrakk>shape e; start e < s; unat s < unat (start e) + unat (num e)\<rbrakk>
      \<Longrightarrow> shape (head_cut s e)"
    and tail_start: "start (tail_cut s e) = s"
    and tail_num: "\<lbrakk>shape e; start e < s; unat s < unat (start e) + unat (num e)\<rbrakk>
      \<Longrightarrow> unat (num (tail_cut s e)) = unat (start e) + unat (num e) - unat s"
    and tail_cell: "\<lbrakk>shape e; start e < s; unat s < unat (start e) + unat (num e);
        i < unat (start e) + unat (num e) - unat s\<rbrakk>
      \<Longrightarrow> cell (tail_cut s e) i = cell e (unat s - unat (start e) + i)"
    and tail_shape: "\<lbrakk>shape e; start e < s; unat s < unat (start e) + unat (num e)\<rbrakk>
      \<Longrightarrow> shape (tail_cut s e)"
begin

text \<open>The exclusive end of a run, as the code computes it, and when that sum is exact.\<close>

definition ext_end :: "'e \<Rightarrow> u64" where
  "ext_end e = start e + ucast (num e)"

definition ext_ok :: "'e \<Rightarrow> bool" where
  "ext_ok e \<longleftrightarrow> shape e \<and> num e \<noteq> 0 \<and> unat (start e) + unat (num e) < 2 ^ 64"

definition covers :: "'e \<Rightarrow> u64 \<Rightarrow> bool" where
  "covers e b \<longleftrightarrow> start e \<le> b \<and> b < ext_end e"

definition emap_ok :: "(u64, 'e) gomap \<Rightarrow> bool" where
  "emap_ok m \<longleftrightarrow> gomap_ok m \<and> (\<forall>k e. map_of m k = Some e \<longrightarrow> k = start e \<and> ext_ok e) \<and>
     (\<forall>k e k' e' b. map_of m k = Some e \<longrightarrow> map_of m k' = Some e' \<longrightarrow>
        covers e b \<longrightarrow> covers e' b \<longrightarrow> k = k')"

definition entry_at :: "(u64, 'e) gomap \<Rightarrow> u64 \<Rightarrow> 'e option" where
  "entry_at m b = map_option snd (find (\<lambda>p. covers (snd p) b) m)"

definition cell_at :: "(u64, 'e) gomap \<Rightarrow> u64 \<Rightarrow> 'l option" where
  "cell_at m b = map_option (\<lambda>e. cell e (unat b - unat (start e))) (entry_at m b)"

text \<open>One iteration of the cutting loop, for the key \<open>k\<close> and the new range \<open>[ns, ne)\<close>.\<close>

definition fracture_at :: "u64 \<Rightarrow> u64 \<Rightarrow> u64 \<Rightarrow> (u64, 'e) gomap \<Rightarrow> (u64, 'e) gomap" where
  "fracture_at ns ne k m = (case map_of m k of None \<Rightarrow> m | Some e \<Rightarrow>
     if ext_end e \<le> ns \<or> ne \<le> start e then m
     else let m1 = gdel k m;
              m2 = (if start e < ns then gput (start e) (head_cut ns e) m1 else m1)
          in if ne < ext_end e then gput ne (tail_cut ne e) m2 else m2)"

definition clean :: "u64 \<Rightarrow> u64 \<Rightarrow> 'e \<Rightarrow> bool" where
  "clean ns ne e \<longleftrightarrow> ext_end e \<le> ns \<or> ne \<le> start e"

lemma ext_okD:
  assumes "ext_ok e"
  shows "shape e" "num e \<noteq> 0" "0 < unat (num e)" "unat (ext_end e) = unat (start e) + unat (num e)"
    "start e < ext_end e"
  using assms by (auto simp: ext_ok_def ext_end_def unat_plus_nowrap word_lt_unat unat_gt_0)

lemma covers_iff: "ext_ok e \<Longrightarrow>
    covers e b \<longleftrightarrow> unat (start e) \<le> unat b \<and> unat b < unat (start e) + unat (num e)"
  by (simp add: covers_def ext_okD word_nat)

lemma covers_start: "ext_ok e \<Longrightarrow> covers e (start e)"
  by (simp add: covers_def ext_okD)

lemma emap_okD:
  assumes "emap_ok m"
  shows "gomap_ok m" "map_of m k = Some e \<Longrightarrow> start e = k" "map_of m k = Some e \<Longrightarrow> ext_ok e"
    "\<lbrakk>map_of m k = Some e; map_of m k' = Some e'; covers e b; covers e' b\<rbrakk> \<Longrightarrow> k = k'"
  using assms unfolding emap_ok_def by metis+

lemma emap_okI:
  assumes "gomap_ok m"
    and "\<And>k e. map_of m k = Some e \<Longrightarrow> k = start e \<and> ext_ok e"
    and "\<And>k e k' e' b. \<lbrakk>map_of m k = Some e; map_of m k' = Some e'; covers e b; covers e' b\<rbrakk> \<Longrightarrow> k = k'"
  shows "emap_ok m"
  using assms unfolding emap_ok_def by metis

lemma entry_at_iff:
  assumes "emap_ok m"
  shows "entry_at m b = Some e \<longleftrightarrow> (\<exists>k. map_of m k = Some e \<and> covers e b)"
proof
  assume "entry_at m b = Some e"
  then obtain p where "find (\<lambda>p. covers (snd p) b) m = Some p" and "snd p = e"
    by (auto simp: entry_at_def)
  then have "p \<in> set m" "covers e b" by (auto simp: find_Some_iff)
  then show "\<exists>k. map_of m k = Some e \<and> covers e b"
    using \<open>snd p = e\<close> emap_okD(1) [OF assms] by (metis map_of_is_SomeI prod.collapse)
next
  assume "\<exists>k. map_of m k = Some e \<and> covers e b"
  then obtain k where k: "map_of m k = Some e" "covers e b" by blast
  then have "(k, e) \<in> set m" by (simp add: map_of_SomeD)
  then obtain p where p: "find (\<lambda>p. covers (snd p) b) m = Some p"
    using k(2) by (cases "find (\<lambda>p. covers (snd p) b) m") (auto simp: find_None_iff)
  then have "p \<in> set m" "covers (snd p) b" by (auto simp: find_Some_iff)
  then have "map_of m (fst p) = Some (snd p)" using emap_okD(1) [OF assms] by simp
  with k \<open>covers (snd p) b\<close> have "fst p = k" using emap_okD(4) [OF assms] by blast
  with k \<open>map_of m (fst p) = Some (snd p)\<close> p show "entry_at m b = Some e"
    by (simp add: entry_at_def)
qed

lemma cell_at_iff:
  assumes "emap_ok m"
  shows "cell_at m b = Some v \<longleftrightarrow>
    (\<exists>k e. map_of m k = Some e \<and> covers e b \<and> v = cell e (unat b - unat (start e)))"
  unfolding cell_at_def using entry_at_iff [OF assms] by auto

lemma cell_at_None_iff:
  assumes "emap_ok m"
  shows "cell_at m b = None \<longleftrightarrow> (\<forall>k e. map_of m k = Some e \<longrightarrow> \<not> covers e b)"
  using cell_at_iff [OF assms] by (metis not_None_eq option.distinct(1))

lemma cell_at_entry:
  assumes "emap_ok m" "map_of m k = Some e" "covers e b"
  shows "cell_at m b = Some (cell e (unat b - unat (start e)))"
  using assms cell_at_iff by blast

text \<open>The pieces a cut leaves behind.\<close>

lemma head_piece:
  assumes "ext_ok e" "start e < ns" "ns < ext_end e"
  shows "ext_ok (head_cut ns e)" "covers (head_cut ns e) b \<longleftrightarrow> covers e b \<and> b < ns"
    "covers (head_cut ns e) b \<Longrightarrow>
       cell (head_cut ns e) (unat b - unat (start e)) = cell e (unat b - unat (start e))"
proof -
  have bounds: "shape e" "unat (start e) < unat ns" "unat ns < unat (start e) + unat (num e)"
    using assms ext_okD [OF assms(1)] by (auto simp: word_nat)
  have n: "unat (num (head_cut ns e)) = unat ns - unat (start e)"
    using bounds assms(2) by (simp add: head_num)
  have "num (head_cut ns e) \<noteq> 0" using n bounds by (metis unat_0 diff_is_0_eq' less_le_not_le nat_le_linear diff_is_0_eq)
  then show ok: "ext_ok (head_cut ns e)"
    using bounds assms(2) n by (simp add: ext_ok_def head_start head_shape)
  show cov: "covers (head_cut ns e) b \<longleftrightarrow> covers e b \<and> b < ns"
    using covers_iff [OF ok] covers_iff [OF assms(1)] n bounds by (auto simp: head_start word_nat)
  assume "covers (head_cut ns e) b"
  then have "unat b - unat (start e) < unat ns - unat (start e)"
    using cov covers_iff [OF assms(1)] bounds by (auto simp: word_nat)
  then show "cell (head_cut ns e) (unat b - unat (start e)) = cell e (unat b - unat (start e))"
    using bounds assms(2) by (simp add: head_cell)
qed

lemma tail_piece:
  assumes "ext_ok e" "start e < ne" "ne < ext_end e"
  shows "ext_ok (tail_cut ne e)" "covers (tail_cut ne e) b \<longleftrightarrow> covers e b \<and> ne \<le> b"
    "covers (tail_cut ne e) b \<Longrightarrow>
       cell (tail_cut ne e) (unat b - unat ne) = cell e (unat b - unat (start e))"
proof -
  have bounds: "shape e" "unat (start e) < unat ne" "unat ne < unat (start e) + unat (num e)"
    "unat (start e) + unat (num e) < 2 ^ 64"
    using assms ext_okD [OF assms(1)] by (auto simp: word_nat ext_ok_def)
  have n: "unat (num (tail_cut ne e)) = unat (start e) + unat (num e) - unat ne"
    using bounds assms(2) by (simp add: tail_num)
  have "num (tail_cut ne e) \<noteq> 0" using n bounds by (metis unat_0 zero_less_diff less_numeral_extra(3))
  then show ok: "ext_ok (tail_cut ne e)"
    using bounds assms(2) n by (simp add: ext_ok_def tail_start tail_shape)
  show cov: "covers (tail_cut ne e) b \<longleftrightarrow> covers e b \<and> ne \<le> b"
    using covers_iff [OF ok] covers_iff [OF assms(1)] n bounds by (auto simp: tail_start word_nat)
  assume "covers (tail_cut ne e) b"
  then have "unat ne \<le> unat b" "unat b < unat (start e) + unat (num e)"
    using cov covers_iff [OF assms(1)] by (auto simp: word_nat)
  then have "cell (tail_cut ne e) (unat b - unat ne) = cell e (unat ne - unat (start e) + (unat b - unat ne))"
    using bounds assms(2) by (simp add: tail_cell)
  moreover have "unat ne - unat (start e) + (unat b - unat ne) = unat b - unat (start e)"
    using \<open>unat ne \<le> unat b\<close> bounds by simp
  ultimately show "cell (tail_cut ne e) (unat b - unat ne) = cell e (unat b - unat (start e))"
    by simp
qed

text \<open>What one iteration leaves at each key when the run at \<open>k\<close> overlaps the new range.\<close>

lemma fracture_at_cut:
  assumes "emap_ok m" "map_of m k = Some e" "\<not> clean ns ne e" "ns < ne"
  shows "map_of (fracture_at ns ne k m) k' =
     (if k' = ne \<and> ne < ext_end e then Some (tail_cut ne e)
      else if k' = k then (if start e < ns then Some (head_cut ns e) else None)
      else map_of m k')"
    "start e = k" "k < ne" "ns < ext_end e"
proof -
  show k: "start e = k" using assms emap_okD by blast
  show "k < ne" "ns < ext_end e" using assms(3) k by (auto simp: clean_def not_le)
  then show "map_of (fracture_at ns ne k m) k' =
     (if k' = ne \<and> ne < ext_end e then Some (tail_cut ne e)
      else if k' = k then (if start e < ns then Some (head_cut ns e) else None)
      else map_of m k')"
    using assms k by (auto simp: fracture_at_def clean_def Let_def)
qed

lemma fracture_at_idle:
  "map_of m k = None \<or> (\<exists>e. map_of m k = Some e \<and> clean ns ne e) \<Longrightarrow> fracture_at ns ne k m = m"
  by (auto simp: fracture_at_def clean_def)

lemma gomap_ok_fracture_at [intro]: "gomap_ok m \<Longrightarrow> gomap_ok (fracture_at ns ne k m)"
  by (auto simp: fracture_at_def Let_def split: option.splits)

lemma fracture_at_origin:
  assumes "emap_ok m" "map_of m k = Some e" "\<not> clean ns ne e" "ns < ne"
    and "map_of (fracture_at ns ne k m) k' = Some e'"
  shows "(k' \<noteq> k \<and> map_of m k' = Some e') \<or>
    (k' = k \<and> e' = head_cut ns e \<and> start e < ns) \<or> (k' = ne \<and> e' = tail_cut ne e \<and> ne < ext_end e)"
  using assms(5) fracture_at_cut(1) [OF assms(1-4)] by (auto split: if_splits)

lemma fracture_at_ok:
  assumes "emap_ok m" "ns < ne"
  shows "emap_ok (fracture_at ns ne k m)"
proof (cases "\<exists>e. map_of m k = Some e \<and> \<not> clean ns ne e")
  case False
  then have "fracture_at ns ne k m = m" by (intro fracture_at_idle) auto
  then show ?thesis using assms by simp
next
  case True
  then obtain e where e: "map_of m k = Some e" "\<not> clean ns ne e" by blast
  note cut = fracture_at_cut [OF assms(1) e assms(2)]
  note origin = fracture_at_origin [OF assms(1) e assms(2)]
  have ok: "ext_ok e" using assms e emap_okD by blast
  have sub: "covers e' b \<Longrightarrow> (k' \<noteq> k \<and> map_of m k' = Some e') \<or> (k' = k \<and> covers e b \<and> b < ns) \<or>
      (k' = ne \<and> covers e b \<and> ne \<le> b)" if "map_of (fracture_at ns ne k m) k' = Some e'" for k' e' b
    using origin [OF that] head_piece(2) [OF ok] tail_piece(2) [OF ok] cut(2-4) by blast
  show ?thesis
  proof (rule emap_okI)
    show "gomap_ok (fracture_at ns ne k m)" using assms emap_okD by blast
  next
    fix k' e' assume "map_of (fracture_at ns ne k m) k' = Some e'"
    then show "k' = start e' \<and> ext_ok e'"
      using origin head_piece(1) [OF ok] tail_piece(1) [OF ok] cut(2-4) emap_okD [OF assms(1)]
      by (metis head_start tail_start)
  next
    fix k1 e1 k2 e2 b
    assume 1: "map_of (fracture_at ns ne k m) k1 = Some e1"
      and 2: "map_of (fracture_at ns ne k m) k2 = Some e2" and c: "covers e1 b" "covers e2 b"
    have "ns \<le> b \<Longrightarrow> \<not> b < ns" by simp
    moreover have "ne \<le> b \<Longrightarrow> \<not> b < ns" using assms(2) by simp
    ultimately show "k1 = k2"
      using sub [OF 1 c(1)] sub [OF 2 c(2)] c e emap_okD(4) [OF assms(1)] by metis
  qed
qed

lemma tail_key_free:
  assumes "emap_ok m" "map_of m k = Some e" "\<not> clean ns ne e" "ns < ne" "ne < ext_end e"
  shows "map_of m ne = None"
proof (rule ccontr)
  note cut = fracture_at_cut [OF assms(1-4)]
  assume "map_of m ne \<noteq> None"
  then obtain e2 where e2: "map_of m ne = Some e2" by blast
  then have "covers e2 ne" using emap_okD [OF assms(1)] covers_start by metis
  moreover have "covers e ne" using assms(5) cut(2,3) by (simp add: covers_def)
  ultimately have "k = ne" using emap_okD(4) [OF assms(1)] assms(2) e2 by blast
  then show False using cut(3) by simp
qed

lemma fracture_at_cells:
  assumes "emap_ok m" "ns < ne" "b < ns \<or> ne \<le> b"
  shows "cell_at (fracture_at ns ne k m) b = cell_at m b"
proof (cases "\<exists>e. map_of m k = Some e \<and> \<not> clean ns ne e")
  case False
  then have "fracture_at ns ne k m = m" by (intro fracture_at_idle) auto
  then show ?thesis by simp
next
  case True
  then obtain e where e: "map_of m k = Some e" "\<not> clean ns ne e" by blast
  note cut = fracture_at_cut [OF assms(1) e assms(2)]
  note origin = fracture_at_origin [OF assms(1) e assms(2)]
  have ok: "ext_ok e" using assms e emap_okD by blast
  note ok' = fracture_at_ok [OF assms(1,2), of k]
  note pieces = head_piece(2,3) [OF ok] tail_piece(2,3) [OF ok]
  have fwd: "cell_at m b = Some v" if "cell_at (fracture_at ns ne k m) b = Some v" for v
  proof -
    from that obtain k' e' where e': "map_of (fracture_at ns ne k m) k' = Some e'" "covers e' b"
      and v: "v = cell e' (unat b - unat (start e'))" using cell_at_iff [OF ok'] by blast
    from origin [OF e'(1)] show ?thesis
    proof (elim disjE conjE)
      assume "map_of m k' = Some e'"
      then show ?thesis using e'(2) v cell_at_entry [OF assms(1)] by blast
    next
      assume h: "k' = k" "e' = head_cut ns e" "start e < ns"
      then have "covers e b" and "v = cell e (unat b - unat (start e))"
        using pieces(1,2) [OF h(3) cut(4)] e'(2) v by (auto simp: head_start)
      then show ?thesis using e(1) cell_at_entry [OF assms(1)] by simp
    next
      assume t: "k' = ne" "e' = tail_cut ne e" "ne < ext_end e"
      have "start e < ne" using cut(2,3) by simp
      then have "covers e b" and "v = cell e (unat b - unat (start e))"
        using pieces(3,4) [OF _ t(3)] e'(2) v t by (auto simp: tail_start)
      then show ?thesis using e(1) cell_at_entry [OF assms(1)] by simp
    qed
  qed
  have bwd: "\<exists>w. cell_at (fracture_at ns ne k m) b = Some w" if "cell_at m b = Some v" for v
  proof -
    from that obtain k' e' where e': "map_of m k' = Some e'" "covers e' b"
      using cell_at_iff [OF assms(1)] by blast
    have ne_free: "map_of m ne = None" if "ne < ext_end e"
      by (rule tail_key_free [OF assms(1) e assms(2) that])
    show ?thesis
    proof (cases "k' = k")
      case False
      then have "map_of (fracture_at ns ne k m) k' = Some e'"
        using cut(1) [of k'] e'(1) ne_free by auto
      then show ?thesis using cell_at_entry [OF ok'] e'(2) by blast
    next
      case True
      with e' e have be: "covers e b" by simp
      show ?thesis
      proof (cases "b < ns")
        case True
        with be have lt: "start e < ns" by (auto simp: covers_def)
        moreover have "k \<noteq> ne" using cut(3) by simp
        ultimately have "map_of (fracture_at ns ne k m) k = Some (head_cut ns e)"
          using cut(1) [of k] by simp
        then show ?thesis using cell_at_entry [OF ok'] pieces(1) [OF lt cut(4)] be True by blast
      next
        case False
        with assms(3) have "ne \<le> b" by simp
        with be have lt: "ne < ext_end e" by (auto simp: covers_def)
        have "start e < ne" using cut(2,3) by simp
        moreover have "map_of (fracture_at ns ne k m) ne = Some (tail_cut ne e)"
          using cut(1) [of ne] lt by simp
        ultimately show ?thesis using cell_at_entry [OF ok'] pieces(3) [OF _ lt] be \<open>ne \<le> b\<close> by blast
      qed
    qed
  qed
  show ?thesis using fwd bwd by (metis not_None_eq)
qed

text \<open>The loop over a snapshot of the keys, and what it establishes.\<close>

definition fracture :: "u64 \<Rightarrow> u64 \<Rightarrow> u64 list \<Rightarrow> (u64, 'e) gomap \<Rightarrow> (u64, 'e) gomap" where
  "fracture ns ne ks m = fold (fracture_at ns ne) ks m"

lemma fracture_simps [simp]:
  "fracture ns ne [] m = m" "fracture ns ne (k # ks) m = fracture ns ne ks (fracture_at ns ne k m)"
  by (simp_all add: fracture_def)

lemma fracture_ok: "emap_ok m \<Longrightarrow> ns < ne \<Longrightarrow> emap_ok (fracture ns ne ks m)"
  by (induction ks arbitrary: m) (simp_all add: fracture_at_ok)

lemma fracture_cells:
  "emap_ok m \<Longrightarrow> ns < ne \<Longrightarrow> b < ns \<or> ne \<le> b \<Longrightarrow> cell_at (fracture ns ne ks m) b = cell_at m b"
  by (induction ks arbitrary: m) (simp_all add: fracture_at_ok fracture_at_cells)

lemma fracture_at_progress:
  assumes "emap_ok m" "ns < ne" and "map_of (fracture_at ns ne k m) k' = Some e'"
  shows "clean ns ne e' \<or> (k' \<noteq> k \<and> map_of m k' = Some e')"
proof (cases "\<exists>e. map_of m k = Some e \<and> \<not> clean ns ne e")
  case False
  then have "fracture_at ns ne k m = m" by (intro fracture_at_idle) auto
  then show ?thesis using assms(3) False by auto
next
  case True
  then obtain e where e: "map_of m k = Some e" "\<not> clean ns ne e" by blast
  note cut = fracture_at_cut [OF assms(1) e assms(2)]
  have ok: "ext_ok e" using assms e emap_okD by blast
  have h: "clean ns ne (head_cut ns e)" if "start e < ns"
  proof -
    note okh = head_piece(1) [OF ok that cut(4)]
    have "unat (num (head_cut ns e)) = unat ns - unat (start e)"
      using that cut(4) ext_okD [OF ok] by (intro head_num) (auto simp: word_nat)
    then have "unat (ext_end (head_cut ns e)) = unat ns"
      using ext_okD(4) [OF okh] that by (simp add: head_start word_nat)
    then show ?thesis by (simp add: clean_def word_nat)
  qed
  have t: "clean ns ne (tail_cut ne e)" by (simp add: clean_def tail_start)
  show ?thesis using fracture_at_origin [OF assms(1) e assms(2,3)] h t by blast
qed

lemma fracture_progress:
  assumes "emap_ok m" "ns < ne" "map_of (fracture ns ne ks m) k' = Some e'"
  shows "clean ns ne e' \<or> (k' \<notin> set ks \<and> map_of m k' = Some e')"
  using assms
proof (induction ks arbitrary: m)
  case Nil
  then show ?case by simp
next
  case (Cons k ks)
  then have "clean ns ne e' \<or> (k' \<notin> set ks \<and> map_of (fracture_at ns ne k m) k' = Some e')"
    by (simp add: fracture_at_ok)
  then show ?case using fracture_at_progress [OF Cons.prems(1,2)] by auto
qed

lemma fracture_clean:
  assumes "emap_ok m" "ns < ne" "map_of (fracture ns ne (map fst m) m) k' = Some e'"
  shows "clean ns ne e'"
  using fracture_progress [OF assms] by (auto dest: map_of_SomeD simp: rev_image_eqI)

lemma fracture_gap:
  assumes "emap_ok m" "ns < ne" "ns \<le> b" "b < ne"
  shows "cell_at (fracture ns ne (map fst m) m) b = None"
proof -
  note ok = fracture_ok [OF assms(1,2), of "map fst m"]
  have "\<not> covers e' b" if "map_of (fracture ns ne (map fst m) m) k' = Some e'" for k' e'
    using fracture_clean [OF assms(1,2) that] assms(3,4) by (auto simp: clean_def covers_def)
  then show ?thesis using cell_at_None_iff [OF ok] by blast
qed

lemma fracture_key_free:
  assumes "emap_ok m" "ns < ne"
  shows "map_of (fracture ns ne (map fst m) m) ns = None"
proof (rule ccontr)
  note ok = fracture_ok [OF assms, of "map fst m"]
  assume "map_of (fracture ns ne (map fst m) m) ns \<noteq> None"
  then obtain e where e: "map_of (fracture ns ne (map fst m) m) ns = Some e" by blast
  then have "covers e ns" using emap_okD [OF ok] covers_start by metis
  moreover have "cell_at (fracture ns ne (map fst m) m) ns = None"
    by (rule fracture_gap [OF assms]) (simp_all add: assms)
  ultimately show False using cell_at_entry [OF ok e] by simp
qed

text \<open>Installing a run whose range has been cleared.\<close>

lemma insert_run:
  assumes "emap_ok m" "ext_ok e" and gap: "\<And>b. covers e b \<Longrightarrow> cell_at m b = None"
  shows "emap_ok (gput (start e) e m)"
    "cell_at (gput (start e) e m) b =
       (if covers e b then Some (cell e (unat b - unat (start e))) else cell_at m b)"
proof -
  have disj: "\<not> covers e' b" if "map_of m k' = Some e'" "covers e b" for k' e' b
    using gap [OF that(2)] that(1) cell_at_None_iff [OF assms(1)] by blast
  have free: "map_of m (start e) = None"
  proof (rule ccontr)
    assume "map_of m (start e) \<noteq> None"
    then obtain e' where e': "map_of m (start e) = Some e'" by blast
    then have "covers e' (start e)" using emap_okD [OF assms(1)] covers_start by metis
    then show False using disj [OF e' covers_start [OF assms(2)]] by simp
  qed
  show ok: "emap_ok (gput (start e) e m)"
  proof (rule emap_okI)
    show "gomap_ok (gput (start e) e m)" using emap_okD [OF assms(1)] by blast
  next
    fix k' e' assume "map_of (gput (start e) e m) k' = Some e'"
    then show "k' = start e' \<and> ext_ok e'" using assms(2) emap_okD [OF assms(1)]
      by (auto split: if_splits)
  next
    fix k1 e1 k2 e2 b
    assume "map_of (gput (start e) e m) k1 = Some e1" "map_of (gput (start e) e m) k2 = Some e2"
      "covers e1 b" "covers e2 b"
    then show "k1 = k2" using disj emap_okD(4) [OF assms(1)]
      by (auto split: if_splits)
  qed
  show "cell_at (gput (start e) e m) b =
       (if covers e b then Some (cell e (unat b - unat (start e))) else cell_at m b)"
  proof (cases "covers e b")
    case True
    then show ?thesis using cell_at_entry [OF ok, of "start e" e b] by simp
  next
    case False
    have "cell_at (gput (start e) e m) b = Some v \<longleftrightarrow> cell_at m b = Some v" for v
      unfolding cell_at_iff [OF ok] cell_at_iff [OF assms(1)] gget_gput using False free
      by (metis option.distinct(1) option.inject)
    then have "cell_at (gput (start e) e m) b = cell_at m b" by (metis not_None_eq)
    then show ?thesis using False by simp
  qed
qed

lemma replace_run:
  assumes "emap_ok m" "ext_ok e"
  defines "m' \<equiv> gput (start e) e (fracture (start e) (ext_end e) (map fst m) m)"
  shows "emap_ok m'"
    "cell_at m' b = (if covers e b then Some (cell e (unat b - unat (start e))) else cell_at m b)"
proof -
  let ?f = "fracture (start e) (ext_end e) (map fst m) m"
  have lt: "start e < ext_end e" using ext_okD [OF assms(2)] by simp
  have ok: "emap_ok ?f" by (rule fracture_ok [OF assms(1) lt])
  have gap: "covers e b \<Longrightarrow> cell_at ?f b = None" for b
    using fracture_gap [OF assms(1) lt] by (simp add: covers_def)
  show "emap_ok m'" unfolding m'_def by (rule insert_run(1) [OF ok assms(2) gap])
  have "\<not> covers e b \<Longrightarrow> cell_at ?f b = cell_at m b"
    by (rule fracture_cells [OF assms(1) lt]) (auto simp: covers_def not_le not_less)
  then show "cell_at m' b = (if covers e b then Some (cell e (unat b - unat (start e))) else cell_at m b)"
    unfolding m'_def using insert_run(2) [OF ok assms(2) gap] by simp
qed

lemma emap_ok_Nil [simp]: "emap_ok []"
  by (simp add: emap_ok_def)

lemma cell_at_Nil [simp]: "cell_at [] b = None"
  by (simp add: cell_at_def entry_at_def)

end

end
