(* ===== verification/Blockstore.thy ===== *)
theory Blockstore
  imports Extents
begin

text \<open>
  The unified block store of \<open>viperblock/blockstore.go\<close>: sixteen hash-map shards of block entries
  for blocks held in memory, and a map of coalesced extents for blocks that live on the backend.
  Every method is one function here, in the order of the source; a method that holds its locks in
  several phases (\<open>MarkPersistedRange\<close>) is split at the points where it releases them, so that
  interleavings with other methods can be stated.
\<close>

section \<open>Data\<close>

datatype BlockState =
    BlockStateEmpty
  | BlockStateHot
  | BlockStatePending
  | BlockStatePersisted
  | BlockStateCached

fun BlockState_String :: "BlockState \<Rightarrow> string" where
  "BlockState_String BlockStateEmpty = ''Empty''"
| "BlockState_String BlockStateHot = ''Hot''"
| "BlockState_String BlockStatePending = ''Pending''"
| "BlockState_String BlockStatePersisted = ''Persisted''"
| "BlockState_String BlockStateCached = ''Cached''"

text \<open>\<open>Data == nil\<close> is the empty list.\<close>

record BlockEntry =
  be_Data :: bytes
  be_SeqNum :: u64
  be_ObjectID :: u64
  be_ObjectOffset :: u32
  be_State :: BlockState

definition zeroEntry :: BlockEntry where
  "zeroEntry = \<lparr>be_Data = [], be_SeqNum = 0, be_ObjectID = 0, be_ObjectOffset = 0,
                be_State = BlockStateEmpty\<rparr>"

record persistedExtent =
  pe_seqNums :: "u64 list"
  pe_startBlock :: u64
  pe_objectID :: u64
  pe_objectOffset :: u32
  pe_stride :: u32
  pe_numBlocks :: u16

definition zeroExtent :: persistedExtent where
  "zeroExtent = \<lparr>pe_seqNums = [], pe_startBlock = 0, pe_objectID = 0, pe_objectOffset = 0,
                 pe_stride = 0, pe_numBlocks = 0\<rparr>"

definition pe_end :: "persistedExtent \<Rightarrow> u64" where
  "pe_end pe = pe_startBlock pe + ucast (pe_numBlocks pe)"

definition pe_seqNumAt :: "persistedExtent \<Rightarrow> u16 \<Rightarrow> u64" where
  "pe_seqNumAt pe i = (if unat i < length (pe_seqNums pe) then pe_seqNums pe ! unat i else 0)"

definition pe_offsetAt :: "persistedExtent \<Rightarrow> u16 \<Rightarrow> u32" where
  "pe_offsetAt pe i = pe_objectOffset pe + ucast i * pe_stride pe"

record BlockStoreStats =
  st_Reads :: u64
  st_Writes :: u64
  st_CacheHits :: u64
  st_CacheMiss :: u64
  st_HotReads :: u64
  st_PendReads :: u64
  st_BackendReads :: u64

record UnifiedBlockStore =
  ubs_shards :: "(u64, BlockEntry) gomap list"
  ubs_blockSize :: u32
  ubs_seqNum :: u64
  ubs_persistedExtents :: "(u64, persistedExtent) gomap"
  ubs_stats :: BlockStoreStats

text \<open>\<open>Block\<close> of \<open>viperblock.go\<close>: one buffered write.\<close>

record Block =
  bk_Data :: bytes
  bk_SeqNum :: u64
  bk_Block :: u64
  bk_Offset :: u64
  bk_Len :: u64

section \<open>Construction and shards\<close>

definition NumShards :: nat where
  "NumShards = 16"

definition ShardMask :: u64 where
  "ShardMask = 15"

definition zeroStats :: BlockStoreStats where
  "zeroStats = \<lparr>st_Reads = 0, st_Writes = 0, st_CacheHits = 0, st_CacheMiss = 0, st_HotReads = 0,
                st_PendReads = 0, st_BackendReads = 0\<rparr>"

definition NewUnifiedBlockStore :: "u32 \<Rightarrow> UnifiedBlockStore" where
  "NewUnifiedBlockStore blockSize =
     \<lparr>ubs_shards = replicate NumShards [], ubs_blockSize = blockSize, ubs_seqNum = 0,
      ubs_persistedExtents = [], ubs_stats = zeroStats\<rparr>"

definition shardIndex :: "u64 \<Rightarrow> nat" where
  "shardIndex blockNum = unat (blockNum AND ShardMask)"

definition getShard :: "UnifiedBlockStore \<Rightarrow> u64 \<Rightarrow> (u64, BlockEntry) gomap" where
  "getShard ubs blockNum = ubs_shards ubs ! shardIndex blockNum"

definition setShard :: "UnifiedBlockStore \<Rightarrow> u64 \<Rightarrow> (u64, BlockEntry) gomap \<Rightarrow> UnifiedBlockStore" where
  "setShard ubs blockNum m =
     ubs\<lparr>ubs_shards := (ubs_shards ubs)[shardIndex blockNum := m]\<rparr>"

section \<open>The persisted-extent index\<close>

definition findPersistedExtentLocked ::
    "(u64, persistedExtent) gomap \<Rightarrow> u64 \<Rightarrow> persistedExtent option" where
  "findPersistedExtentLocked m blockNum =
     (case map_of m blockNum of
        Some pe \<Rightarrow> Some pe
      | None \<Rightarrow> map_option snd
          (find (\<lambda>p. pe_startBlock (snd p) < blockNum \<and> blockNum < pe_end (snd p)) m))"

definition readPersisted :: "UnifiedBlockStore \<Rightarrow> u64 \<Rightarrow> BlockEntry option" where
  "readPersisted ubs blockNum =
     (case findPersistedExtentLocked (ubs_persistedExtents ubs) blockNum of
        None \<Rightarrow> None
      | Some pe \<Rightarrow>
          let idx = ucast (blockNum - pe_startBlock pe) :: u16
          in Some \<lparr>be_Data = [], be_SeqNum = pe_seqNumAt pe idx, be_ObjectID = pe_objectID pe,
                   be_ObjectOffset = pe_offsetAt pe idx, be_State = BlockStatePersisted\<rparr>)"

text \<open>
  The surviving head \<open>[exStart, newStart)\<close> and tail \<open>[newEnd, exEnd)\<close> of an overlapped extent.  The
  slice expressions \<open>seqNums[:headNum]\<close> and \<open>seqNums[tailOffsetBlocks:]\<close> are in range because an
  extent carries one sequence number per block (\<open>pe_shape\<close> below).
\<close>

definition pe_head :: "u64 \<Rightarrow> persistedExtent \<Rightarrow> persistedExtent" where
  "pe_head newStart existing =
     (let headNum = newStart - pe_startBlock existing
      in existing\<lparr>pe_numBlocks := ucast headNum,
                  pe_seqNums := (if 0 < length (pe_seqNums existing)
                                 then take (unat headNum) (pe_seqNums existing)
                                 else pe_seqNums existing)\<rparr>)"

definition pe_tail :: "u64 \<Rightarrow> persistedExtent \<Rightarrow> persistedExtent" where
  "pe_tail newEnd existing =
     (let tailOffsetBlocks = newEnd - pe_startBlock existing;
          tailNum = pe_end existing - newEnd
      in existing\<lparr>pe_startBlock := newEnd,
                  pe_numBlocks := ucast tailNum,
                  pe_objectOffset := pe_offsetAt existing (ucast tailOffsetBlocks),
                  pe_seqNums := (if 0 < length (pe_seqNums existing)
                                 then drop (unat tailOffsetBlocks) (pe_seqNums existing)
                                 else pe_seqNums existing)\<rparr>)"

definition fractureKey ::
    "u64 \<Rightarrow> u64 \<Rightarrow> u64 \<Rightarrow> (u64, persistedExtent) gomap \<Rightarrow> (u64, persistedExtent) gomap" where
  "fractureKey newStart newEnd key m =
     (let existing = (case map_of m key of Some pe \<Rightarrow> pe | None \<Rightarrow> zeroExtent);
          exStart = pe_startBlock existing;
          exEnd = pe_end existing
      in if exEnd \<le> newStart \<or> newEnd \<le> exStart then m
         else let m1 = gdel key m;
                  m2 = (if exStart < newStart
                        then gput (pe_startBlock (pe_head newStart existing)) (pe_head newStart existing) m1
                        else m1)
              in if newEnd < exEnd
                 then gput (pe_startBlock (pe_tail newEnd existing)) (pe_tail newEnd existing) m2
                 else m2)"

definition fractureOverlapsLocked ::
    "u64 \<Rightarrow> u16 \<Rightarrow> (u64, persistedExtent) gomap \<Rightarrow> (u64, persistedExtent) gomap" where
  "fractureOverlapsLocked newStart newNum m =
     (let newEnd = newStart + ucast newNum
      in fold (fractureKey newStart newEnd) (map fst m) m)"

section \<open>Reads\<close>

abbreviation bump_Reads :: "UnifiedBlockStore \<Rightarrow> UnifiedBlockStore" where
  "bump_Reads ubs \<equiv> ubs\<lparr>ubs_stats := (ubs_stats ubs)\<lparr>st_Reads := st_Reads (ubs_stats ubs) + 1\<rparr>\<rparr>"

abbreviation bump_CacheMiss :: "UnifiedBlockStore \<Rightarrow> UnifiedBlockStore" where
  "bump_CacheMiss ubs \<equiv>
     ubs\<lparr>ubs_stats := (ubs_stats ubs)\<lparr>st_CacheMiss := st_CacheMiss (ubs_stats ubs) + 1\<rparr>\<rparr>"

abbreviation bump_CacheHits :: "UnifiedBlockStore \<Rightarrow> UnifiedBlockStore" where
  "bump_CacheHits ubs \<equiv>
     ubs\<lparr>ubs_stats := (ubs_stats ubs)\<lparr>st_CacheHits := st_CacheHits (ubs_stats ubs) + 1\<rparr>\<rparr>"

abbreviation bump_HotReads :: "UnifiedBlockStore \<Rightarrow> UnifiedBlockStore" where
  "bump_HotReads ubs \<equiv>
     ubs\<lparr>ubs_stats := (ubs_stats ubs)\<lparr>st_HotReads := st_HotReads (ubs_stats ubs) + 1\<rparr>\<rparr>"

abbreviation bump_PendReads :: "UnifiedBlockStore \<Rightarrow> UnifiedBlockStore" where
  "bump_PendReads ubs \<equiv>
     ubs\<lparr>ubs_stats := (ubs_stats ubs)\<lparr>st_PendReads := st_PendReads (ubs_stats ubs) + 1\<rparr>\<rparr>"

abbreviation bump_BackendReads :: "UnifiedBlockStore \<Rightarrow> UnifiedBlockStore" where
  "bump_BackendReads ubs \<equiv>
     ubs\<lparr>ubs_stats := (ubs_stats ubs)\<lparr>st_BackendReads := st_BackendReads (ubs_stats ubs) + 1\<rparr>\<rparr>"

abbreviation add_Writes :: "u64 \<Rightarrow> UnifiedBlockStore \<Rightarrow> UnifiedBlockStore" where
  "add_Writes n ubs \<equiv>
     ubs\<lparr>ubs_stats := (ubs_stats ubs)\<lparr>st_Writes := st_Writes (ubs_stats ubs) + n\<rparr>\<rparr>"

definition ReadBlock :: "UnifiedBlockStore \<Rightarrow> u64 \<Rightarrow> BlockEntry option \<times> UnifiedBlockStore" where
  "ReadBlock ubs blockNum =
     (let ubs' = bump_Reads ubs
      in case map_of (getShard ubs blockNum) blockNum of
           Some entry \<Rightarrow> (Some entry, ubs')
         | None \<Rightarrow> (case readPersisted ubs blockNum of
                      Some pe \<Rightarrow> (Some pe, ubs')
                    | None \<Rightarrow> (None, ubs')))"

text \<open>\<open>ReadSingle\<close> returns \<open>(data, state, err)\<close>; the only error is \<open>ErrZeroBlock\<close>, here the flag.\<close>

definition ReadSingle ::
    "UnifiedBlockStore \<Rightarrow> u64 \<Rightarrow> (bytes \<times> BlockState \<times> bool) \<times> UnifiedBlockStore" where
  "ReadSingle ubs blockNum =
     (let ubs' = bump_Reads ubs
      in case map_of (getShard ubs blockNum) blockNum of
           None \<Rightarrow> (case readPersisted ubs blockNum of
                      Some _ \<Rightarrow> (([], BlockStatePersisted, False), bump_BackendReads ubs')
                    | None \<Rightarrow> (([], BlockStateEmpty, True), bump_CacheMiss ubs'))
         | Some snapshot \<Rightarrow> (case be_State snapshot of
               BlockStateHot \<Rightarrow> ((be_Data snapshot, be_State snapshot, False), bump_HotReads ubs')
             | BlockStatePending \<Rightarrow> ((be_Data snapshot, be_State snapshot, False), bump_PendReads ubs')
             | BlockStateCached \<Rightarrow> ((be_Data snapshot, be_State snapshot, False), bump_CacheHits ubs')
             | BlockStatePersisted \<Rightarrow> (([], BlockStatePersisted, False), bump_BackendReads ubs')
             | BlockStateEmpty \<Rightarrow> (([], BlockStateEmpty, True), bump_CacheMiss ubs')))"

definition ReadEntry :: "UnifiedBlockStore \<Rightarrow> u64 \<Rightarrow> BlockEntry option \<times> UnifiedBlockStore" where
  "ReadEntry ubs blockNum =
     (let ubs' = bump_Reads ubs
      in case map_of (getShard ubs blockNum) blockNum of
           None \<Rightarrow> (case readPersisted ubs blockNum of
                      Some pe \<Rightarrow> (Some pe, bump_BackendReads ubs')
                    | None \<Rightarrow> (None, bump_CacheMiss ubs'))
         | Some snapshot \<Rightarrow> (Some snapshot, (case be_State snapshot of
               BlockStateHot \<Rightarrow> bump_HotReads ubs'
             | BlockStatePending \<Rightarrow> bump_PendReads ubs'
             | BlockStateCached \<Rightarrow> bump_CacheHits ubs'
             | BlockStatePersisted \<Rightarrow> bump_BackendReads ubs'
             | BlockStateEmpty \<Rightarrow> bump_CacheMiss ubs')))"

section \<open>Writes and state transitions\<close>

definition shardUpdate ::
    "UnifiedBlockStore \<Rightarrow> u64 \<Rightarrow> BlockEntry \<Rightarrow> UnifiedBlockStore" where
  "shardUpdate ubs blockNum entry = setShard ubs blockNum (gput blockNum entry (getShard ubs blockNum))"

definition WriteWithSeqNum :: "UnifiedBlockStore \<Rightarrow> u64 \<Rightarrow> bytes \<Rightarrow> u64 \<Rightarrow> UnifiedBlockStore" where
  "WriteWithSeqNum ubs blockNum data seqNum =
     (let entry = (case map_of (getShard ubs blockNum) blockNum of Some e \<Rightarrow> e | None \<Rightarrow> zeroEntry)
      in shardUpdate ubs blockNum
           (if be_SeqNum entry < seqNum
            then entry\<lparr>be_SeqNum := seqNum, be_State := BlockStateHot, be_Data := data,
                       be_ObjectID := 0, be_ObjectOffset := 0\<rparr>
            else entry))"

definition UBS_Write :: "UnifiedBlockStore \<Rightarrow> u64 \<Rightarrow> bytes \<Rightarrow> u64 \<times> UnifiedBlockStore" where
  "UBS_Write ubs blockNum data =
     (let seqNum = ubs_seqNum ubs + 1;
          ubs1 = ubs\<lparr>ubs_seqNum := seqNum\<rparr>;
          entry = (case map_of (getShard ubs1 blockNum) blockNum of Some e \<Rightarrow> e | None \<Rightarrow> zeroEntry);
          ubs2 = shardUpdate ubs1 blockNum
           (if be_SeqNum entry < seqNum
            then entry\<lparr>be_SeqNum := seqNum, be_State := BlockStateHot, be_Data := data,
                       be_ObjectID := 0, be_ObjectOffset := 0\<rparr>
            else entry)
      in (seqNum, add_Writes 1 ubs2))"

definition MarkPending :: "UnifiedBlockStore \<Rightarrow> u64 \<Rightarrow> bool \<times> UnifiedBlockStore" where
  "MarkPending ubs blockNum =
     (case map_of (getShard ubs blockNum) blockNum of
        None \<Rightarrow> (False, ubs)
      | Some entry \<Rightarrow>
          if be_State entry = BlockStateHot
          then (True, shardUpdate ubs blockNum (entry\<lparr>be_State := BlockStatePending\<rparr>))
          else (False, ubs))"

definition MarkPersisted ::
    "UnifiedBlockStore \<Rightarrow> u64 \<Rightarrow> u64 \<Rightarrow> u32 \<Rightarrow> u64 \<Rightarrow> bool \<times> UnifiedBlockStore" where
  "MarkPersisted ubs blockNum objectID offset seqNum =
     (case map_of (getShard ubs blockNum) blockNum of
        None \<Rightarrow> (False, ubs)
      | Some entry \<Rightarrow>
          if be_State entry = BlockStatePending \<and> seqNum = be_SeqNum entry
          then (True, shardUpdate ubs blockNum
                  (entry\<lparr>be_State := BlockStatePersisted, be_ObjectID := objectID,
                         be_ObjectOffset := offset, be_SeqNum := seqNum, be_Data := []\<rparr>))
          else (False, ubs))"

text \<open>
  \<open>MarkPersistedRange\<close>, pass by pass.  Pass 1 samples eligibility; pass 2 publishes one extent per
  eligible consecutive run; pass 3 removes the shard entries that are still eligible.
\<close>

definition stillPending :: "UnifiedBlockStore \<Rightarrow> u64 \<Rightarrow> u64 \<Rightarrow> bool" where
  "stillPending ubs b seqNum =
     (case map_of (getShard ubs b) b of
        None \<Rightarrow> False
      | Some entry \<Rightarrow> be_State entry = BlockStatePending \<and> be_SeqNum entry = seqNum)"

definition mprPass1 :: "UnifiedBlockStore \<Rightarrow> u64 list \<Rightarrow> u64 list \<Rightarrow> bool list" where
  "mprPass1 ubs blocks seqNums = map2 (stillPending ubs) blocks seqNums"

function runEnd :: "u64 list \<Rightarrow> bool list \<Rightarrow> nat \<Rightarrow> nat \<Rightarrow> nat" where
  "runEnd blocks eligible i j =
     (if j < length blocks \<and> eligible ! j \<and> j - i < 65535 \<and> blocks ! j = blocks ! i + of_nat (j - i)
      then runEnd blocks eligible i (Suc j) else j)"
  by pat_completeness auto
termination
  by (relation "measure (\<lambda>(blocks, eligible, i, j). length blocks - j)") auto

declare runEnd.simps [simp del]

lemma runEnd_ge: "j \<le> runEnd blocks eligible i j"
proof (induction blocks eligible i j rule: runEnd.induct)
  case (1 blocks eligible i j)
  then show ?case by (subst runEnd.simps) (auto intro: Suc_leD)
qed

lemma runEnd_progress: "i < length blocks \<Longrightarrow> eligible ! i \<Longrightarrow> i < runEnd blocks eligible i i"
  by (subst runEnd.simps) (use runEnd_ge [of "Suc i"] in \<open>auto intro: Suc_le_lessD\<close>)

text \<open>The extent built for the run \<open>[i, j)\<close> of the argument slices.\<close>

definition runExtent ::
    "u64 list \<Rightarrow> u64 \<Rightarrow> u32 \<Rightarrow> u32 \<Rightarrow> u64 list \<Rightarrow> nat \<Rightarrow> nat \<Rightarrow> persistedExtent" where
  "runExtent blocks objectID objectOffset stride seqNums i j =
     \<lparr>pe_seqNums = take (j - i) (drop i seqNums), pe_startBlock = blocks ! i, pe_objectID = objectID,
      pe_objectOffset = objectOffset + of_nat i * stride, pe_stride = stride,
      pe_numBlocks = of_nat (j - i)\<rparr>"

definition installRun ::
    "persistedExtent \<Rightarrow> (u64, persistedExtent) gomap \<Rightarrow> (u64, persistedExtent) gomap" where
  "installRun run m =
     gput (pe_startBlock run) run (fractureOverlapsLocked (pe_startBlock run) (pe_numBlocks run) m)"

function mprPass2 ::
    "u64 list \<Rightarrow> bool list \<Rightarrow> u64 \<Rightarrow> u32 \<Rightarrow> u32 \<Rightarrow> u64 list \<Rightarrow> nat \<Rightarrow>
     (u64, persistedExtent) gomap \<Rightarrow> (u64, persistedExtent) gomap" where
  "mprPass2 blocks eligible objectID objectOffset stride seqNums i m =
     (if i < length blocks
      then if \<not> eligible ! i
           then mprPass2 blocks eligible objectID objectOffset stride seqNums (Suc i) m
           else let j = runEnd blocks eligible i i
                in mprPass2 blocks eligible objectID objectOffset stride seqNums j
                     (installRun (runExtent blocks objectID objectOffset stride seqNums i j) m)
      else m)"
  by pat_completeness auto
termination
  by (relation "measure (\<lambda>(blocks, eligible, objectID, objectOffset, stride, seqNums, i, m).
        length blocks - i)")
     (auto simp: runEnd_progress intro!: diff_less_mono2)

declare mprPass2.simps [simp del]

fun mprPass3 ::
    "UnifiedBlockStore \<Rightarrow> u64 list \<Rightarrow> bool list \<Rightarrow> u64 list \<Rightarrow> nat \<times> UnifiedBlockStore" where
  "mprPass3 ubs (b # blocks) (el # eligible) (sq # seqNums) =
     (if \<not> el then mprPass3 ubs blocks eligible seqNums
      else if stillPending ubs b sq
           then (let (n, ubs') = mprPass3 (setShard ubs b (gdel b (getShard ubs b))) blocks eligible seqNums
                 in (Suc n, ubs'))
           else mprPass3 ubs blocks eligible seqNums)"
| "mprPass3 ubs _ _ _ = (0, ubs)"

definition MarkPersistedRange ::
    "UnifiedBlockStore \<Rightarrow> u64 list \<Rightarrow> u64 \<Rightarrow> u32 \<Rightarrow> u32 \<Rightarrow> u64 list \<Rightarrow> nat \<times> UnifiedBlockStore" where
  "MarkPersistedRange ubs blocks objectID objectOffset stride seqNums =
     (if length blocks = 0 \<or> length blocks \<noteq> length seqNums then (0, ubs)
      else let eligible = mprPass1 ubs blocks seqNums
           in if \<not> list_ex id eligible then (0, ubs)
              else let ubs1 = ubs\<lparr>ubs_persistedExtents :=
                         mprPass2 blocks eligible objectID objectOffset stride seqNums 0
                           (ubs_persistedExtents ubs)\<rparr>;
                       (transitioned, ubs2) = mprPass3 ubs1 blocks eligible seqNums
                   in (transitioned, add_Writes (of_nat transitioned) ubs2))"

definition SetPersisted ::
    "UnifiedBlockStore \<Rightarrow> u64 \<Rightarrow> u64 \<Rightarrow> u32 \<Rightarrow> u64 \<Rightarrow> UnifiedBlockStore" where
  "SetPersisted ubs blockNum objectID offset seqNum =
     (let entry = (case map_of (getShard ubs blockNum) blockNum of Some e \<Rightarrow> e | None \<Rightarrow> zeroEntry)
      in shardUpdate ubs blockNum
           (if be_SeqNum entry \<le> seqNum \<or> be_State entry = BlockStateEmpty
            then entry\<lparr>be_SeqNum := seqNum, be_State := BlockStatePersisted, be_ObjectID := objectID,
                       be_ObjectOffset := offset, be_Data := []\<rparr>
            else entry))"

text \<open>\<open>SetPersistedRange\<close> runs pass 2 with every block taken.\<close>

definition SetPersistedRange ::
    "UnifiedBlockStore \<Rightarrow> u64 list \<Rightarrow> u64 \<Rightarrow> u32 \<Rightarrow> u32 \<Rightarrow> u64 list \<Rightarrow> UnifiedBlockStore" where
  "SetPersistedRange ubs blocks objectID objectOffset stride seqNums =
     (if length blocks = 0 \<or> length blocks \<noteq> length seqNums then ubs
      else ubs\<lparr>ubs_persistedExtents :=
             mprPass2 blocks (replicate (length blocks) True) objectID objectOffset stride seqNums 0
               (ubs_persistedExtents ubs)\<rparr>)"

definition UBS_Cache :: "UnifiedBlockStore \<Rightarrow> u64 \<Rightarrow> bytes \<Rightarrow> bool \<times> UnifiedBlockStore" where
  "UBS_Cache ubs blockNum data =
     (case map_of (getShard ubs blockNum) blockNum of
        None \<Rightarrow> (False, ubs)
      | Some entry \<Rightarrow>
          if be_State entry = BlockStatePersisted
          then (True, shardUpdate ubs blockNum (entry\<lparr>be_State := BlockStateCached, be_Data := data\<rparr>))
          else (False, ubs))"

definition EvictCache :: "UnifiedBlockStore \<Rightarrow> u64 \<Rightarrow> bool \<times> UnifiedBlockStore" where
  "EvictCache ubs blockNum =
     (case map_of (getShard ubs blockNum) blockNum of
        None \<Rightarrow> (False, ubs)
      | Some entry \<Rightarrow>
          if be_State entry = BlockStateCached
          then (True, shardUpdate ubs blockNum (entry\<lparr>be_State := BlockStatePersisted, be_Data := []\<rparr>))
          else (False, ubs))"

section \<open>Enumeration, counting, deletion\<close>

definition GetBlocksByState :: "UnifiedBlockStore \<Rightarrow> BlockState \<Rightarrow> u64 list" where
  "GetBlocksByState ubs state =
     concat (map (\<lambda>shard. map fst (filter (\<lambda>p. be_State (snd p) = state) shard)) (ubs_shards ubs))"

definition entryBlock :: "u64 \<times> BlockEntry \<Rightarrow> Block" where
  "entryBlock p = \<lparr>bk_Data = be_Data (snd p), bk_SeqNum = be_SeqNum (snd p), bk_Block = fst p,
                   bk_Offset = 0, bk_Len = of_nat (length (be_Data (snd p)))\<rparr>"

definition GetHotBlocks :: "UnifiedBlockStore \<Rightarrow> Block list" where
  "GetHotBlocks ubs =
     concat (map (\<lambda>shard. map entryBlock (filter (\<lambda>p. be_State (snd p) = BlockStateHot) shard))
       (ubs_shards ubs))"

definition GetPendingBlocks :: "UnifiedBlockStore \<Rightarrow> Block list" where
  "GetPendingBlocks ubs =
     concat (map (\<lambda>shard. map entryBlock (filter (\<lambda>p. be_State (snd p) = BlockStatePending) shard))
       (ubs_shards ubs))"

definition GetPersistedInfo :: "UnifiedBlockStore \<Rightarrow> u64 \<Rightarrow> (u64 \<times> u32) option" where
  "GetPersistedInfo ubs blockNum =
     (case map_of (getShard ubs blockNum) blockNum of
        Some snapshot \<Rightarrow>
          if be_State snapshot = BlockStatePersisted \<or> be_State snapshot = BlockStateCached
          then Some (be_ObjectID snapshot, be_ObjectOffset snapshot) else None
      | None \<Rightarrow> (case readPersisted ubs blockNum of
                   Some pe \<Rightarrow> Some (be_ObjectID pe, be_ObjectOffset pe)
                 | None \<Rightarrow> None))"

definition UBS_Count :: "UnifiedBlockStore \<Rightarrow> nat" where
  "UBS_Count ubs = sum_list (map length (ubs_shards ubs)) +
     gsum (\<lambda>pe. unat (pe_numBlocks pe)) (ubs_persistedExtents ubs)"

definition PersistedExtentCount :: "UnifiedBlockStore \<Rightarrow> nat" where
  "PersistedExtentCount ubs = length (ubs_persistedExtents ubs)"

definition CountByState :: "UnifiedBlockStore \<Rightarrow> BlockState \<Rightarrow> nat" where
  "CountByState ubs state =
     sum_list (map (\<lambda>shard. length (filter (\<lambda>p. be_State (snd p) = state) shard)) (ubs_shards ubs)) +
     (if state = BlockStatePersisted
      then gsum (\<lambda>pe. unat (pe_numBlocks pe)) (ubs_persistedExtents ubs) else 0)"

definition UBS_Clear :: "UnifiedBlockStore \<Rightarrow> UnifiedBlockStore" where
  "UBS_Clear ubs =
     ubs\<lparr>ubs_shards := map (\<lambda>_. []) (ubs_shards ubs), ubs_persistedExtents := []\<rparr>"

definition UBS_Delete :: "UnifiedBlockStore \<Rightarrow> u64 \<Rightarrow> bool \<times> UnifiedBlockStore" where
  "UBS_Delete ubs blockNum =
     (case map_of (getShard ubs blockNum) blockNum of
        Some _ \<Rightarrow> (True, setShard ubs blockNum (gdel blockNum (getShard ubs blockNum)))
      | None \<Rightarrow> (case findPersistedExtentLocked (ubs_persistedExtents ubs) blockNum of
                   Some _ \<Rightarrow> (True, ubs\<lparr>ubs_persistedExtents :=
                        fractureOverlapsLocked blockNum 1 (ubs_persistedExtents ubs)\<rparr>)
                 | None \<Rightarrow> (False, ubs)))"

definition GetSeqNum :: "UnifiedBlockStore \<Rightarrow> u64" where
  "GetSeqNum ubs = ubs_seqNum ubs"

definition SetSeqNum :: "UnifiedBlockStore \<Rightarrow> u64 \<Rightarrow> UnifiedBlockStore" where
  "SetSeqNum ubs seqNum = ubs\<lparr>ubs_seqNum := seqNum\<rparr>"

definition GetStats :: "UnifiedBlockStore \<Rightarrow> u64 \<times> u64 \<times> u64 \<times> u64" where
  "GetStats ubs = (st_Reads (ubs_stats ubs), st_Writes (ubs_stats ubs),
                   st_CacheHits (ubs_stats ubs), st_CacheMiss (ubs_stats ubs))"

definition UBS_Stats :: "UnifiedBlockStore \<Rightarrow> BlockStoreStats" where
  "UBS_Stats ubs = zeroStats"

text \<open>Everything needed to evaluate the store on concrete arguments by rewriting.\<close>

lemmas ubs_eval =
  NewUnifiedBlockStore_def NumShards_def ShardMask_def shardIndex_def getShard_def setShard_def
  shardUpdate_def zeroEntry_def zeroStats_def zeroExtent_def Let_def
  findPersistedExtentLocked_def readPersisted_def pe_end_def pe_seqNumAt_def pe_offsetAt_def
  pe_head_def pe_tail_def fractureKey_def fractureOverlapsLocked_def
  ReadBlock_def ReadSingle_def ReadEntry_def WriteWithSeqNum_def UBS_Write_def MarkPending_def
  MarkPersisted_def stillPending_def mprPass1_def runEnd.simps runExtent_def installRun_def
  mprPass2.simps MarkPersistedRange_def SetPersisted_def SetPersistedRange_def UBS_Cache_def
  EvictCache_def UBS_Delete_def UBS_Count_def UBS_Stats_def GetStats_def

section \<open>The extent index as an instance of the extent interface\<close>

text \<open>
  What an extent says of its i-th block: the chunk object, the offset in it and the sequence number
  the block was sealed under.  An extent is well shaped when it has one sequence number per block.
\<close>

definition pe_cell :: "persistedExtent \<Rightarrow> nat \<Rightarrow> u64 \<times> u32 \<times> u64" where
  "pe_cell pe i = (pe_objectID pe, pe_objectOffset pe + of_nat i * pe_stride pe, pe_seqNums pe ! i)"

definition pe_shape :: "persistedExtent \<Rightarrow> bool" where
  "pe_shape pe \<longleftrightarrow> length (pe_seqNums pe) = unat (pe_numBlocks pe)"

lemma ucast_eq_of_nat_unat: "(ucast w :: 'b::len word) = of_nat (unat w)"
  by simp

lemma unat_ucast_u16: "unat (w :: u64) = n \<Longrightarrow> n < 65536 \<Longrightarrow> unat (ucast w :: u16) = n"
  by (simp add: unat_ucast_64_16)

lemma pe_offsetAt_nat:
  assumes "unat (w :: u64) = n" "n < 65536"
  shows "pe_offsetAt pe (ucast w) = pe_objectOffset pe + of_nat n * pe_stride pe"
  by (metis assms pe_offsetAt_def ucast_eq_of_nat_unat unat_ucast_u16)

interpretation pex: extent_ops pe_startBlock pe_numBlocks pe_cell pe_shape pe_head pe_tail
proof (unfold_locales, goal_cases)
  case (1 s e)
  show ?case by (simp add: pe_head_def Let_def)
next
  case (2 e s)
  then show ?case using cut_bounds [OF 2(2,3)] by (simp add: pe_head_def Let_def unat_ucast_u16)
next
  case (3 e s i)
  then show ?case using cut_bounds [OF 3(2,3)] by (simp add: pe_head_def Let_def pe_cell_def)
next
  case (4 e s)
  then show ?case using cut_bounds [OF 4(2,3)]
    by (simp add: pe_head_def Let_def pe_shape_def unat_ucast_u16)
next
  case (5 s e)
  show ?case by (simp add: pe_tail_def Let_def)
next
  case (6 e s)
  then show ?case using cut_bounds [OF 6(2,3)]
    by (simp add: pe_tail_def pe_end_def Let_def unat_ucast_u16)
next
  case (7 e s i)
  then show ?case using cut_bounds [OF 7(2,3)]
    by (simp add: pe_tail_def Let_def pe_cell_def pe_shape_def pe_offsetAt_nat unat_ucast_u16
        distrib_right add.assoc)
next
  case (8 e s)
  then show ?case using cut_bounds [OF 8(2,3)]
    by (simp add: pe_tail_def pe_end_def Let_def pe_shape_def unat_ucast_u16 word_nat)
qed

text \<open>The code's loops are the loops of the interface.\<close>

lemma pe_end_eq: "pex.ext_end = pe_end"
  by (auto simp: pex.ext_end_def pe_end_def)

lemma fractureKey_eq: "fractureKey = pex.fracture_at"
  by (intro ext) (auto simp: fractureKey_def pex.fracture_at_def pe_end_eq zeroExtent_def pe_end_def
      pex.head_start pex.tail_start Let_def split: option.splits)

lemma fractureOverlapsLocked_eq:
  "fractureOverlapsLocked s n m = pex.fracture s (s + ucast n) (map fst m) m"
  by (simp add: fractureOverlapsLocked_def pex.fracture_def fractureKey_eq)

lemma installRun_eq:
  "installRun run m =
     gput (pe_startBlock run) run (pex.fracture (pe_startBlock run) (pex.ext_end run) (map fst m) m)"
  by (simp add: installRun_def fractureOverlapsLocked_eq pex.ext_end_def)

lemma installRun:
  assumes "pex.emap_ok m" "pex.ext_ok run"
  shows "pex.emap_ok (installRun run m)"
    "pex.cell_at (installRun run m) b =
       (if pex.covers run b then Some (pe_cell run (unat b - unat (pe_startBlock run)))
        else pex.cell_at m b)"
  using pex.replace_run [OF assms] by (simp_all add: installRun_eq)

lemma findPersistedExtentLocked_eq:
  assumes "pex.emap_ok m"
  shows "findPersistedExtentLocked m b = pex.entry_at m b"
proof (cases "map_of m b")
  case (Some pe)
  then have "pex.covers pe b" using pex.emap_okD [OF assms] pex.covers_start by metis
  then have "pex.entry_at m b = Some pe" using Some pex.entry_at_iff [OF assms] by blast
  then show ?thesis using Some by (simp add: findPersistedExtentLocked_def)
next
  case None
  have "pe_startBlock (snd p) < b \<and> b < pe_end (snd p) \<longleftrightarrow> pex.covers (snd p) b" if "p \<in> set m" for p
  proof -
    have "map_of m (fst p) = Some (snd p)" using that pex.emap_okD(1) [OF assms] by simp
    then have "pe_startBlock (snd p) \<noteq> b" using None pex.emap_okD(2) [OF assms] by force
    then show ?thesis by (auto simp: pex.covers_def pe_end_eq)
  qed
  then have "find (\<lambda>p. pe_startBlock (snd p) < b \<and> b < pe_end (snd p)) m =
      find (\<lambda>p. pex.covers (snd p) b) m"
    by (intro find_cong) auto
  then show ?thesis using None by (simp add: findPersistedExtentLocked_def pex.entry_at_def)
qed

fun persistedEntry :: "u64 \<times> u32 \<times> u64 \<Rightarrow> BlockEntry" where
  "persistedEntry (obj, off, sq) = \<lparr>be_Data = [], be_SeqNum = sq, be_ObjectID = obj,
     be_ObjectOffset = off, be_State = BlockStatePersisted\<rparr>"

lemma readPersisted_eq:
  assumes ok: "pex.emap_ok (ubs_persistedExtents ubs)"
  shows "readPersisted ubs b = map_option persistedEntry (pex.cell_at (ubs_persistedExtents ubs) b)"
proof (cases "pex.entry_at (ubs_persistedExtents ubs) b")
  case None
  then show ?thesis by (simp add: readPersisted_def findPersistedExtentLocked_eq [OF ok] pex.cell_at_def)
next
  case (Some pe)
  then have pe: "pex.ext_ok pe" "pex.covers pe b"
    using pex.entry_at_iff [OF ok] pex.emap_okD [OF ok] by metis+
  then have b: "unat (pe_startBlock pe) \<le> unat b" "unat b < unat (pe_startBlock pe) + unat (pe_numBlocks pe)"
    using pex.covers_iff by auto
  then have "unat (b - pe_startBlock pe) = unat b - unat (pe_startBlock pe)"
    "unat b - unat (pe_startBlock pe) < unat (pe_numBlocks pe)"
    by (auto simp: unat_minus_le)
  moreover from this have "unat b - unat (pe_startBlock pe) < 65536"
    using less_trans [OF _ unat_less_2p16] by blast
  moreover have "length (pe_seqNums pe) = unat (pe_numBlocks pe)"
    using pex.ext_okD(1) [OF pe(1)] by (simp add: pe_shape_def)
  ultimately show ?thesis using Some
    by (simp add: readPersisted_def findPersistedExtentLocked_eq [OF ok] pex.cell_at_def pe_cell_def
        pe_seqNumAt_def pe_offsetAt_nat unat_ucast_u16 Let_def)
qed

section \<open>Well-formed stores and what a reader sees\<close>

abbreviation shardEntry :: "UnifiedBlockStore \<Rightarrow> u64 \<Rightarrow> BlockEntry option" where
  "shardEntry ubs b \<equiv> map_of (getShard ubs b) b"

definition shards_ok :: "(u64, BlockEntry) gomap list \<Rightarrow> bool" where
  "shards_ok shs \<longleftrightarrow> length shs = NumShards \<and>
     (\<forall>i < NumShards. gomap_ok (shs ! i) \<and> (\<forall>b \<in> fst ` set (shs ! i). shardIndex b = i))"

definition ubs_ok :: "UnifiedBlockStore \<Rightarrow> bool" where
  "ubs_ok ubs \<longleftrightarrow> shards_ok (ubs_shards ubs) \<and> pex.emap_ok (ubs_persistedExtents ubs)"

text \<open>The answer of \<open>ReadEntry\<close>, apart from the statistics it bumps.\<close>

definition blockView :: "UnifiedBlockStore \<Rightarrow> u64 \<Rightarrow> BlockEntry option" where
  "blockView ubs b = fst (ReadEntry ubs b)"

lemma shardIndex_less [simp]: "shardIndex b < NumShards"
proof -
  have "b AND 15 \<le> (15 :: u64)" by (rule word_and_le1)
  then have "unat (b AND 15) \<le> unat (15 :: u64)" by (simp only: word_le_nat_alt)
  then show ?thesis by (simp add: shardIndex_def ShardMask_def NumShards_def)
qed

lemma ubs_okD:
  assumes "ubs_ok ubs"
  shows "length (ubs_shards ubs) = NumShards" "pex.emap_ok (ubs_persistedExtents ubs)"
    "shards_ok (ubs_shards ubs)"
  using assms by (auto simp: ubs_ok_def shards_ok_def)

lemma readPersisted_cong:
  "ubs_persistedExtents ubs = ubs_persistedExtents ubs' \<Longrightarrow> readPersisted ubs b = readPersisted ubs' b"
  by (simp add: readPersisted_def)

lemma blockView_eq:
  "blockView ubs b = (case shardEntry ubs b of Some e \<Rightarrow> Some e | None \<Rightarrow> readPersisted ubs b)"
  by (simp add: blockView_def ReadEntry_def Let_def split: option.splits)

lemma blockView_cells:
  "ubs_ok ubs \<Longrightarrow> blockView ubs b = (case shardEntry ubs b of Some e \<Rightarrow> Some e
     | None \<Rightarrow> map_option persistedEntry (pex.cell_at (ubs_persistedExtents ubs) b))"
  by (simp add: blockView_eq readPersisted_eq ubs_okD split: option.splits)

lemma shard_simps [simp]:
  "ubs_persistedExtents (setShard ubs b m) = ubs_persistedExtents ubs"
  "ubs_persistedExtents (shardUpdate ubs b e) = ubs_persistedExtents ubs"
  "ubs_seqNum (setShard ubs b m) = ubs_seqNum ubs"
  "ubs_seqNum (shardUpdate ubs b e) = ubs_seqNum ubs"
  "length (ubs_shards (setShard ubs b m)) = length (ubs_shards ubs)"
  "length (ubs_shards (shardUpdate ubs b e)) = length (ubs_shards ubs)"
  by (simp_all add: setShard_def shardUpdate_def)

lemma getShard_update [simp]:
  "getShard (ubs\<lparr>ubs_persistedExtents := x\<rparr>) b = getShard ubs b"
  "getShard (ubs\<lparr>ubs_stats := y\<rparr>) b = getShard ubs b"
  "getShard (ubs\<lparr>ubs_seqNum := z\<rparr>) b = getShard ubs b"
  by (simp_all add: getShard_def)

lemma getShard_setShard:
  "length (ubs_shards ubs) = NumShards \<Longrightarrow>
     getShard (setShard ubs b m) b' = (if shardIndex b' = shardIndex b then m else getShard ubs b')"
  by (simp add: getShard_def setShard_def nth_list_update)

lemma shardEntry_update [simp]:
  "length (ubs_shards ubs) = NumShards \<Longrightarrow>
     shardEntry (shardUpdate ubs b e) b' = (if b' = b then Some e else shardEntry ubs b')"
  by (auto simp: shardUpdate_def getShard_setShard) (simp add: getShard_def)

lemma shardEntry_delete [simp]:
  "length (ubs_shards ubs) = NumShards \<Longrightarrow>
     shardEntry (setShard ubs b (gdel b (getShard ubs b))) b' = (if b' = b then None else shardEntry ubs b')"
  by (auto simp: getShard_setShard) (simp add: getShard_def)

lemma shards_ok_update:
  assumes "shards_ok shs" "i < NumShards" "gomap_ok m" "\<forall>b \<in> fst ` set m. shardIndex b = i"
  shows "shards_ok (shs[i := m])"
  unfolding shards_ok_def
proof (intro conjI allI impI)
  show "length (shs[i := m]) = NumShards" using assms by (simp add: shards_ok_def)
next
  fix k assume k: "k < NumShards"
  then show "gomap_ok (shs[i := m] ! k)" "\<forall>b \<in> fst ` set (shs[i := m] ! k). shardIndex b = k"
    by (cases "k = i"; use assms in \<open>simp add: shards_ok_def\<close>)+
qed

lemma getShard_ok:
  assumes "shards_ok (ubs_shards ubs)"
  shows "gomap_ok (getShard ubs b)" "\<forall>b' \<in> fst ` set (getShard ubs b). shardIndex b' = shardIndex b"
  using assms [unfolded shards_ok_def, THEN conjunct2, rule_format, OF shardIndex_less [of b]]
  unfolding getShard_def by (rule conjunct1, rule conjunct2)

lemma ubs_ok_setShard:
  assumes "ubs_ok ubs" "gomap_ok m" "fst ` set m \<subseteq> insert b (fst ` set (getShard ubs b))"
  shows "ubs_ok (setShard ubs b m)"
proof -
  have "\<forall>b' \<in> fst ` set m. shardIndex b' = shardIndex b"
  proof
    fix b' assume "b' \<in> fst ` set m"
    then have "b' = b \<or> b' \<in> fst ` set (getShard ubs b)" by (rule subsetD [OF assms(3), THEN insertE]) simp_all
    then show "shardIndex b' = shardIndex b"
      by (rule disjE) (simp, rule bspec [OF getShard_ok(2) [OF ubs_okD(3) [OF assms(1)]]])
  qed
  then have "shards_ok ((ubs_shards ubs)[shardIndex b := m])"
    by (rule shards_ok_update [OF ubs_okD(3) [OF assms(1)] shardIndex_less assms(2)])
  then show ?thesis using ubs_okD(2) [OF assms(1)] by (simp add: ubs_ok_def setShard_def)
qed

lemma ubs_ok_shardUpdate [simp, intro]: "ubs_ok ubs \<Longrightarrow> ubs_ok (shardUpdate ubs b e)"
  unfolding shardUpdate_def using getShard_ok(1) [of ubs b]
  by (intro ubs_ok_setShard) (simp_all only: ubs_okD gomap_ok_gput gput_keys subset_refl)

lemma ubs_ok_shardDelete [simp, intro]:
  "ubs_ok ubs \<Longrightarrow> ubs_ok (setShard ubs b (gdel b (getShard ubs b)))"
  using getShard_ok(1) [of ubs b]
  by (intro ubs_ok_setShard) (auto simp only: ubs_okD gomap_ok_gdel gdel_keys)

lemma ubs_ok_fields [simp]:
  "ubs_ok (ubs\<lparr>ubs_stats := y\<rparr>) = ubs_ok ubs"
  "ubs_ok (ubs\<lparr>ubs_seqNum := z\<rparr>) = ubs_ok ubs"
  "ubs_ok (ubs\<lparr>ubs_persistedExtents := x\<rparr>) \<longleftrightarrow> shards_ok (ubs_shards ubs) \<and> pex.emap_ok x"
  by (simp_all add: ubs_ok_def)

lemma ubs_ok_New [simp]: "ubs_ok (NewUnifiedBlockStore sz)"
  unfolding ubs_ok_def shards_ok_def NewUnifiedBlockStore_def by (simp add: nth_replicate)

section \<open>Publishing runs of blocks\<close>

lemma runEnd_spec:
  assumes "j \<le> length blocks"
  shows "runEnd blocks eligible i j \<le> length blocks"
    "\<lbrakk>j \<le> k; k < runEnd blocks eligible i j\<rbrakk>
       \<Longrightarrow> eligible ! k \<and> k - i < 65535 \<and> blocks ! k = blocks ! i + of_nat (k - i)"
  using assms
proof (induction blocks eligible i j rule: runEnd.induct)
  case (1 blocks eligible i j)
  {
    case 1
    then show ?case using "1.IH"(1) by (subst runEnd.simps) auto
  next
    case 2
    then show ?case using "1.IH"(2) runEnd.simps [of blocks eligible i j]
      by (cases "j = k") (auto split: if_splits)
  }
qed

text \<open>Argument slices as the callers pass them: ascending, and no block at the very end of the range.\<close>

definition slices_ok :: "u64 list \<Rightarrow> bool list \<Rightarrow> u64 list \<Rightarrow> bool" where
  "slices_ok blocks eligible seqNums \<longleftrightarrow> sorted_wrt (<) blocks \<and>
     list_all (\<lambda>b. b \<noteq> 18446744073709551615) blocks \<and>
     length eligible = length blocks \<and> length seqNums = length blocks"

lemma run_blocks:
  assumes "slices_ok blocks eligible seqNums" "i < length blocks" "i \<le> k" "k < runEnd blocks eligible i i"
  shows "unat (blocks ! k) = unat (blocks ! i) + (k - i)"
  using assms(3,4)
proof (induction k rule: dec_induct)
  case base
  then show ?case by simp
next
  case (step k)
  have le: "runEnd blocks eligible i i \<le> length blocks" using assms(2) runEnd_spec(1) by simp
  have 1: "blocks ! Suc k = blocks ! i + of_nat (Suc k - i)" "blocks ! k = blocks ! i + of_nat (k - i)"
    using step(1,2,4) assms(2) runEnd_spec(2) [of i blocks "Suc k" eligible i]
      runEnd_spec(2) [of i blocks k eligible i] by simp_all
  then have "blocks ! Suc k = blocks ! k + 1" using step(1) by (simp add: Suc_diff_le)
  moreover have "blocks ! k < blocks ! Suc k"
    using assms(1) step le by (auto simp: slices_ok_def sorted_wrt_iff_nth_less)
  ultimately have "unat (blocks ! Suc k) = unat (blocks ! k) + 1"
    using unatSuc [of "blocks ! k"] word_not_simps(1) [of "blocks ! k"]
    by (metis Suc_eq_plus1 add.commute)
  then show ?case using step by simp
qed

lemma runExtent:
  fixes obj :: u64 and off stride :: u32
  assumes ok: "slices_ok blocks eligible seqNums" and i: "i < length blocks" "eligible ! i"
  defines "j \<equiv> runEnd blocks eligible i i"
  defines "run \<equiv> runExtent blocks obj off stride seqNums i j"
  shows "pex.ext_ok run" "pex.covers run b \<longleftrightarrow> (\<exists>k. i \<le> k \<and> k < j \<and> b = blocks ! k)"
    "\<lbrakk>i \<le> k; k < j\<rbrakk> \<Longrightarrow>
       pe_cell run (unat (blocks ! k) - unat (blocks ! i)) = (obj, off + of_nat k * stride, seqNums ! k)"
proof -
  have j: "i < j" "j \<le> length blocks"
    using runEnd_progress [of i blocks eligible] runEnd_spec(1) [of i blocks eligible i] i by (simp_all add: j_def)
  have run_k: "unat (blocks ! k) = unat (blocks ! i) + (k - i)" "k - i < 65535" if "i \<le> k" "k < j" for k
    using run_blocks [OF ok i(1), of k] runEnd_spec(2) [of i blocks k eligible i] i(1) that
    unfolding j_def by linarith+
  have ji: "j - i \<le> 65535" using run_k(2) [of "j - 1"] j by linarith
  have num: "unat (pe_numBlocks run) = j - i" using ji by (simp add: run_def runExtent_def unat_of_nat_u16)
  have last: "unat (blocks ! (j - 1)) = unat (blocks ! i) + (j - 1 - i)" using run_k(1) [of "j - 1"] j by simp
  have "blocks ! (j - 1) \<noteq> 18446744073709551615"
    using ok j by (simp add: slices_ok_def list_all_length)
  then have "unat (blocks ! (j - 1)) < 18446744073709551615" by (rule unat_less_max)
  with last j have top: "unat (blocks ! i) + (j - i) < 18446744073709551616" by simp
  show ext: "pex.ext_ok run"
    using num top j ok by (auto simp: pex.ext_ok_def pe_shape_def run_def runExtent_def slices_ok_def)
  show "pex.covers run b \<longleftrightarrow> (\<exists>k. i \<le> k \<and> k < j \<and> b = blocks ! k)"
  proof
    assume "pex.covers run b"
    then have b: "unat (blocks ! i) \<le> unat b" "unat b < unat (blocks ! i) + (j - i)"
      using pex.covers_iff [OF ext] num by (simp_all add: run_def runExtent_def)
    let ?k = "i + (unat b - unat (blocks ! i))"
    have k: "i \<le> ?k" "?k < j" using b j by auto
    then have "unat (blocks ! ?k) = unat b" using run_k(1) [OF k] b by simp
    then have "b = blocks ! ?k" by (simp only: unat_eq_iff)
    with k show "\<exists>k. i \<le> k \<and> k < j \<and> b = blocks ! k" by blast
  next
    assume "\<exists>k. i \<le> k \<and> k < j \<and> b = blocks ! k"
    then obtain k where k: "i \<le> k" "k < j" "b = blocks ! k" by blast
    then have "unat b = unat (blocks ! i) + (k - i)" using run_k(1) by blast
    moreover have "pe_startBlock run = blocks ! i" by (simp add: run_def runExtent_def)
    ultimately show "pex.covers run b"
      unfolding pex.covers_iff [OF ext] using num k(1,2) by (simp only:) linarith
  qed
  assume k: "i \<le> k" "k < j"
  have "of_nat i + of_nat (k - i) = (of_nat k :: u32)" using k by (metis le_add_diff_inverse of_nat_add)
  then have "off + of_nat i * stride + of_nat (k - i) * stride = off + of_nat k * stride"
    by (simp only: add.assoc flip: distrib_right)
  then show "pe_cell run (unat (blocks ! k) - unat (blocks ! i)) = (obj, off + of_nat k * stride, seqNums ! k)"
    using run_k(1) [OF k] k i(1) ok by (simp add: pe_cell_def run_def runExtent_def slices_ok_def)
qed

text \<open>
  Pass 2 keeps the extent index well formed, answers for every published block with the place and
  sequence number it was sealed under, and leaves the answer for every other block alone.
\<close>

definition published :: "u64 list \<Rightarrow> bool list \<Rightarrow> nat \<Rightarrow> u64 \<Rightarrow> bool" where
  "published blocks eligible i b \<longleftrightarrow> (\<exists>k. i \<le> k \<and> k < length blocks \<and> eligible ! k \<and> b = blocks ! k)"

lemma slices_distinct:
  assumes "slices_ok blocks eligible seqNums" "k < length blocks" "l < length blocks" "blocks ! k = blocks ! l"
  shows "k = l"
  using assms sorted_wrt_nth_less [of "(<)" blocks k l] sorted_wrt_nth_less [of "(<)" blocks l k]
  by (cases k l rule: linorder_cases) (simp_all add: slices_ok_def)

lemma mprPass2_spec:
  assumes "slices_ok blocks eligible seqNums" "pex.emap_ok m"
  shows "pex.emap_ok (mprPass2 blocks eligible obj off stride seqNums i m) \<and>
    (\<forall>k. i \<le> k \<longrightarrow> k < length blocks \<longrightarrow> eligible ! k \<longrightarrow>
       pex.cell_at (mprPass2 blocks eligible obj off stride seqNums i m) (blocks ! k)
         = Some (obj, off + of_nat k * stride, seqNums ! k)) \<and>
    (\<forall>b. \<not> published blocks eligible i b \<longrightarrow>
       pex.cell_at (mprPass2 blocks eligible obj off stride seqNums i m) b = pex.cell_at m b)"
  using assms
proof (induction blocks eligible obj off stride seqNums i m rule: mprPass2.induct)
  case (1 blocks eligible obj off stride seqNums i m)
  consider "\<not> i < length blocks" | "i < length blocks" "\<not> eligible ! i"
    | "i < length blocks" "eligible ! i" by blast
  then show ?case
  proof cases
    case 1
    then have "mprPass2 blocks eligible obj off stride seqNums i m = m" by (subst mprPass2.simps) simp
    then show ?thesis using "1.prems"(2) 1 by simp
  next
    case 2
    note IH = "1.IH"(1) [OF 2 "1.prems"]
    have pub: "published blocks eligible (Suc i) b = published blocks eligible i b" for b
      using 2 unfolding published_def by (metis Suc_leD le_antisym not_less_eq_eq)
    have eq: "mprPass2 blocks eligible obj off stride seqNums i m =
        mprPass2 blocks eligible obj off stride seqNums (Suc i) m"
      using 2 by (subst mprPass2.simps) simp
    have "Suc i \<le> k" if "i \<le> k" "eligible ! k" for k using that 2(2) by (cases "i = k") auto
    then show ?thesis unfolding eq using IH unfolding pub by blast
  next
    case 3
    let ?j = "runEnd blocks eligible i i"
    let ?run = "runExtent blocks obj off stride seqNums i ?j"
    note run = runExtent [OF "1.prems"(1) 3, where obj = obj and off = off and stride = stride]
    note inst = installRun [OF "1.prems"(2) run(1)]
    note IH = "1.IH"(2) [OF 3(1) _ refl "1.prems"(1) inst(1)]
    have eq: "mprPass2 blocks eligible obj off stride seqNums i m =
        mprPass2 blocks eligible obj off stride seqNums ?j (installRun ?run m)"
      using 3 by (subst mprPass2.simps) (simp add: Let_def)
    have st: "pe_startBlock ?run = blocks ! i" by (simp add: runExtent_def)
    have j: "i < ?j" "?j \<le> length blocks" using 3 runEnd_progress runEnd_spec(1) by auto
    have IH': "pex.emap_ok (mprPass2 blocks eligible obj off stride seqNums ?j (installRun ?run m))"
      "\<And>k. \<lbrakk>?j \<le> k; k < length blocks; eligible ! k\<rbrakk> \<Longrightarrow>
         pex.cell_at (mprPass2 blocks eligible obj off stride seqNums ?j (installRun ?run m)) (blocks ! k)
           = Some (obj, off + of_nat k * stride, seqNums ! k)"
      "\<And>b. \<not> published blocks eligible ?j b \<Longrightarrow>
         pex.cell_at (mprPass2 blocks eligible obj off stride seqNums ?j (installRun ?run m)) b
           = pex.cell_at (installRun ?run m) b"
      using IH 3(2) by blast+
    have here: "pex.cell_at (mprPass2 blocks eligible obj off stride seqNums ?j (installRun ?run m)) (blocks ! k)
        = Some (obj, off + of_nat k * stride, seqNums ! k)" if k: "i \<le> k" "k < ?j" for k
    proof -
      have "\<not> published blocks eligible ?j (blocks ! k)"
      proof
        assume "published blocks eligible ?j (blocks ! k)"
        then obtain l where "?j \<le> l" "l < length blocks" "blocks ! k = blocks ! l"
          unfolding published_def by blast
        then show False using slices_distinct [OF "1.prems"(1), of k l] k j by simp
      qed
      moreover have "pex.covers ?run (blocks ! k)" using run(2) k by blast
      ultimately show ?thesis using IH'(3) inst(2) [of "blocks ! k"] run(3) [OF k] st by simp
    qed
    have outside: "\<not> published blocks eligible ?j b \<and> \<not> pex.covers ?run b"
      if "\<not> published blocks eligible i b" for b
    proof
      show "\<not> published blocks eligible ?j b"
        using that order_trans [OF less_imp_le [OF j(1)]] unfolding published_def by blast
      have "eligible ! k \<and> k < length blocks" if "i \<le> k" "k < ?j" for k
        using runEnd_spec(2) [of i blocks k eligible i] that 3(1) j(2) by simp
      then show "\<not> pex.covers ?run b" using that run(2) unfolding published_def by metis
    qed
    show ?thesis unfolding eq
    proof (intro conjI allI impI)
      show "pex.emap_ok (mprPass2 blocks eligible obj off stride seqNums ?j (installRun ?run m))"
        by (rule IH'(1))
    next
      fix k assume "i \<le> k" "k < length blocks" "eligible ! k"
      then show "pex.cell_at (mprPass2 blocks eligible obj off stride seqNums ?j (installRun ?run m)) (blocks ! k)
           = Some (obj, off + of_nat k * stride, seqNums ! k)"
        using here IH'(2) by (cases "k < ?j") simp_all
    next
      fix b assume "\<not> published blocks eligible i b"
      then show "pex.cell_at (mprPass2 blocks eligible obj off stride seqNums ?j (installRun ?run m)) b
           = pex.cell_at m b"
        using outside IH'(3) inst(2) by simp
    qed
  qed
qed

lemma stillPending_cong: "shardEntry ubs b = shardEntry ubs' b \<Longrightarrow> stillPending ubs b sq = stillPending ubs' b sq"
  by (simp add: stillPending_def)

text \<open>Pass 3 removes exactly the entries that are still pending under the sealed sequence number.\<close>

definition retired :: "UnifiedBlockStore \<Rightarrow> u64 list \<Rightarrow> bool list \<Rightarrow> u64 list \<Rightarrow> u64 \<Rightarrow> bool" where
  "retired ubs blocks eligible seqNums b \<longleftrightarrow>
     (\<exists>(b', el, sq) \<in> set (zip blocks (zip eligible seqNums)). b' = b \<and> el \<and> stillPending ubs b sq)"

lemma mprPass3_spec:
  assumes "ubs_ok ubs" "distinct blocks" "length eligible = length blocks" "length seqNums = length blocks"
  shows "ubs_ok (snd (mprPass3 ubs blocks eligible seqNums)) \<and>
    ubs_persistedExtents (snd (mprPass3 ubs blocks eligible seqNums)) = ubs_persistedExtents ubs \<and>
    (\<forall>b. shardEntry (snd (mprPass3 ubs blocks eligible seqNums)) b =
       (if retired ubs blocks eligible seqNums b then None else shardEntry ubs b)) \<and>
    fst (mprPass3 ubs blocks eligible seqNums) =
      length (filter (\<lambda>(b, el, sq). el \<and> stillPending ubs b sq) (zip blocks (zip eligible seqNums)))"
  using assms
proof (induction ubs blocks eligible seqNums rule: mprPass3.induct)
  case (1 ubs b blocks el eligible sq seqNums)
  let ?ubs' = "setShard ubs b (gdel b (getShard ubs b))"
  have len: "length (ubs_shards ubs) = NumShards" using "1.prems"(1) by (rule ubs_okD)
  have same: "stillPending ?ubs' b' s = stillPending ubs b' s" if "b' \<noteq> b" for b' s
    by (rule stillPending_cong) (simp add: len that)
  have fresh: "b' \<noteq> b" if "(b', x) \<in> set (zip blocks (zip eligible seqNums))" for b' x
    using that "1.prems"(2) by (auto dest: set_zip_leftD)
  have filt: "filter (\<lambda>(b', el, s). el \<and> stillPending ?ubs' b' s) (zip blocks (zip eligible seqNums)) =
      filter (\<lambda>(b', el, s). el \<and> stillPending ubs b' s) (zip blocks (zip eligible seqNums))"
    by (rule filter_cong) (auto dest: fresh simp: same)
  have ret: "retired ?ubs' blocks eligible seqNums b' = retired ubs blocks eligible seqNums b'" if "b' \<noteq> b" for b'
    using that by (auto simp: retired_def same)
  have head: "\<not> retired ubs' blocks eligible seqNums b" for ubs'
    by (auto simp: retired_def dest: fresh)
  show ?case
  proof (cases "el \<and> stillPending ubs b sq")
    case True
    have step: "mprPass3 ubs (b # blocks) (el # eligible) (sq # seqNums) =
        (Suc (fst (mprPass3 ?ubs' blocks eligible seqNums)), snd (mprPass3 ?ubs' blocks eligible seqNums))"
      using True by (simp add: split_beta)
    have IH: "ubs_ok (snd (mprPass3 ?ubs' blocks eligible seqNums))"
      "ubs_persistedExtents (snd (mprPass3 ?ubs' blocks eligible seqNums)) = ubs_persistedExtents ubs"
      "\<And>b'. shardEntry (snd (mprPass3 ?ubs' blocks eligible seqNums)) b' =
         (if retired ?ubs' blocks eligible seqNums b' then None else shardEntry ?ubs' b')"
      "fst (mprPass3 ?ubs' blocks eligible seqNums) = length (filter (\<lambda>(b', el, s). el \<and> stillPending ubs b' s)
         (zip blocks (zip eligible seqNums)))"
      using "1.IH"(2) "1.prems" True filt by simp_all
    have "retired ubs (b # blocks) (el # eligible) (sq # seqNums) b' \<longleftrightarrow>
        b' = b \<or> retired ubs blocks eligible seqNums b'" for b'
      using True by (auto simp: retired_def)
    then show ?thesis unfolding step using IH True ret head by (simp add: len)
  next
    case False
    then have "mprPass3 ubs (b # blocks) (el # eligible) (sq # seqNums) = mprPass3 ubs blocks eligible seqNums"
      by auto
    moreover have "retired ubs (b # blocks) (el # eligible) (sq # seqNums) b' \<longleftrightarrow>
        retired ubs blocks eligible seqNums b'" for b'
      using False by (auto simp: retired_def)
    ultimately show ?thesis using "1.IH"(1,3) "1.prems" False by (cases el) auto
  qed
qed (auto simp: retired_def)

section \<open>Bulk transitions\<close>

definition blocks_ok :: "u64 list \<Rightarrow> u64 list \<Rightarrow> bool" where
  "blocks_ok blocks seqNums \<longleftrightarrow> sorted_wrt (<) blocks \<and> list_all (\<lambda>b. b \<noteq> 18446744073709551615) blocks \<and>
     length seqNums = length blocks"

lemma blocks_okD:
  assumes "blocks_ok blocks seqNums"
  shows "length eligible = length blocks \<Longrightarrow> slices_ok blocks eligible seqNums"
    "distinct blocks" "length seqNums = length blocks"
  using assms by (auto simp: blocks_ok_def slices_ok_def strict_sorted_iff)

lemma mprPass1_nth:
  "\<lbrakk>k < length blocks; length seqNums = length blocks\<rbrakk> \<Longrightarrow>
     mprPass1 ubs blocks seqNums ! k = stillPending ubs (blocks ! k) (seqNums ! k)"
  by (simp add: mprPass1_def)

lemma mprPass1_length [simp]: "length (mprPass1 ubs blocks seqNums) = min (length blocks) (length seqNums)"
  by (simp add: mprPass1_def)

lemma retired_nth:
  assumes "length eligible = length blocks" "length seqNums = length blocks"
  shows "retired ubs blocks eligible seqNums b \<longleftrightarrow>
    (\<exists>k < length blocks. blocks ! k = b \<and> eligible ! k \<and> stillPending ubs b (seqNums ! k))"
proof -
  have "zip blocks (zip eligible seqNums) = map (\<lambda>k. (blocks ! k, eligible ! k, seqNums ! k)) [0..<length blocks]"
    using assms by (intro nth_equalityI) simp_all
  then show ?thesis by (auto simp: retired_def)
qed

text \<open>The whole call, as its two passes over the store.\<close>

lemma MarkPersistedRange_passes:
  fixes obj :: u64 and off stride :: u32
  assumes "blocks_ok blocks seqNums" "\<exists>k < length blocks. stillPending ubs (blocks ! k) (seqNums ! k)"
  defines "el \<equiv> mprPass1 ubs blocks seqNums"
  defines "ubs1 \<equiv> ubs\<lparr>ubs_persistedExtents :=
      mprPass2 blocks (mprPass1 ubs blocks seqNums) obj off stride seqNums 0 (ubs_persistedExtents ubs)\<rparr>"
  shows "fst (MarkPersistedRange ubs blocks obj off stride seqNums) = fst (mprPass3 ubs1 blocks el seqNums)"
    "blockView (snd (MarkPersistedRange ubs blocks obj off stride seqNums)) =
       blockView (snd (mprPass3 ubs1 blocks el seqNums))"
    "ubs_ok (snd (MarkPersistedRange ubs blocks obj off stride seqNums)) =
       ubs_ok (snd (mprPass3 ubs1 blocks el seqNums))"
proof -
  have len: "length seqNums = length blocks" using assms(1) by (rule blocks_okD)
  have "list_ex id el" using assms(2) len by (auto simp: el_def list_ex_length mprPass1_nth)
  then have "MarkPersistedRange ubs blocks obj off stride seqNums =
      (fst (mprPass3 ubs1 blocks el seqNums),
       add_Writes (of_nat (fst (mprPass3 ubs1 blocks el seqNums))) (snd (mprPass3 ubs1 blocks el seqNums)))"
    using assms(2) len
    by (auto simp: MarkPersistedRange_def el_def [symmetric] ubs1_def Let_def split_beta)
  then show "fst (MarkPersistedRange ubs blocks obj off stride seqNums) = fst (mprPass3 ubs1 blocks el seqNums)"
    "blockView (snd (MarkPersistedRange ubs blocks obj off stride seqNums)) =
       blockView (snd (mprPass3 ubs1 blocks el seqNums))"
    "ubs_ok (snd (MarkPersistedRange ubs blocks obj off stride seqNums)) =
       ubs_ok (snd (mprPass3 ubs1 blocks el seqNums))"
    by (auto simp: fun_eq_iff blockView_eq intro!: readPersisted_cong split: option.splits)
qed

lemma MarkPersistedRange_idle:
  assumes "length seqNums = length blocks" "\<not> (\<exists>k < length blocks. stillPending ubs (blocks ! k) (seqNums ! k))"
  shows "MarkPersistedRange ubs blocks obj off stride seqNums = (0, ubs)"
proof -
  have "\<not> list_ex id (mprPass1 ubs blocks seqNums)"
    using assms by (auto simp: list_ex_length mprPass1_nth)
  then show ?thesis by (simp add: MarkPersistedRange_def Let_def)
qed

lemma MarkPersistedRange_spec:
  fixes obj :: u64 and off stride :: u32
  assumes "ubs_ok ubs" "blocks_ok blocks seqNums"
  defines "u' \<equiv> snd (MarkPersistedRange ubs blocks obj off stride seqNums)"
  shows "ubs_ok u' \<and>
    (\<forall>k < length blocks. stillPending ubs (blocks ! k) (seqNums ! k) \<longrightarrow>
       blockView u' (blocks ! k) = Some (persistedEntry (obj, off + of_nat k * stride, seqNums ! k))) \<and>
    (\<forall>b. (\<forall>k < length blocks. blocks ! k = b \<longrightarrow> \<not> stillPending ubs b (seqNums ! k)) \<longrightarrow>
       blockView u' b = blockView ubs b)"
proof (cases "\<exists>k < length blocks. stillPending ubs (blocks ! k) (seqNums ! k)")
  case False
  then show ?thesis using assms blocks_okD(3) [OF assms(2)]
    by (simp add: MarkPersistedRange_idle)
next
  case True
  let ?el = "mprPass1 ubs blocks seqNums"
  let ?ex = "mprPass2 blocks ?el obj off stride seqNums 0 (ubs_persistedExtents ubs)"
  let ?u1 = "ubs\<lparr>ubs_persistedExtents := ?ex\<rparr>"
  let ?u3 = "snd (mprPass3 ?u1 blocks ?el seqNums)"
  have len: "length seqNums = length blocks" "length ?el = length blocks"
    using blocks_okD(3) [OF assms(2)] by simp_all
  have p2: "pex.emap_ok ?ex"
    "\<And>k. k < length blocks \<Longrightarrow> ?el ! k \<Longrightarrow>
       pex.cell_at ?ex (blocks ! k) = Some (obj, off + of_nat k * stride, seqNums ! k)"
    "\<And>b. \<not> published blocks ?el 0 b \<Longrightarrow> pex.cell_at ?ex b = pex.cell_at (ubs_persistedExtents ubs) b"
    using mprPass2_spec [OF blocks_okD(1) [OF assms(2) len(2)] ubs_okD(2) [OF assms(1)], of obj off stride 0]
    by simp_all
  have u1: "ubs_ok ?u1" using p2(1) ubs_okD(3) [OF assms(1)] by simp
  have sp: "stillPending ?u1 b sq = stillPending ubs b sq" for b sq by (rule stillPending_cong) simp
  have p3: "ubs_ok ?u3" "ubs_persistedExtents ?u3 = ?ex"
    "shardEntry ?u3 b = (if retired ?u1 blocks ?el seqNums b then None else shardEntry ubs b)" for b
    using mprPass3_spec [OF u1 blocks_okD(2) [OF assms(2)] len(2,1)] by simp_all
  have ret: "retired ?u1 blocks ?el seqNums b \<longleftrightarrow>
      (\<exists>k < length blocks. blocks ! k = b \<and> stillPending ubs b (seqNums ! k))" for b
    using retired_nth [OF len(2,1)] len(1) by (auto simp: sp mprPass1_nth)
  have view: "blockView ?u3 b = (if retired ?u1 blocks ?el seqNums b
      then map_option persistedEntry (pex.cell_at ?ex b)
      else (case shardEntry ubs b of Some e \<Rightarrow> Some e | None \<Rightarrow> map_option persistedEntry (pex.cell_at ?ex b)))" for b
    unfolding blockView_cells [OF p3(1)] p3(2,3) by simp
  have pub: "published blocks ?el 0 b \<longleftrightarrow> retired ?u1 blocks ?el seqNums b" for b
    using len(1) by (auto simp: published_def ret mprPass1_nth)
  show ?thesis unfolding u'_def MarkPersistedRange_passes(2,3) [OF assms(2) True]
  proof (intro conjI allI impI)
    show "ubs_ok ?u3" by (rule p3)
  next
    fix k assume k: "k < length blocks" "stillPending ubs (blocks ! k) (seqNums ! k)"
    then have "retired ?u1 blocks ?el seqNums (blocks ! k)" using ret by blast
    then show "blockView ?u3 (blocks ! k) = Some (persistedEntry (obj, off + of_nat k * stride, seqNums ! k))"
      using view p2(2) [OF k(1)] k mprPass1_nth [OF k(1) len(1)] by simp
  next
    fix b assume "\<forall>k < length blocks. blocks ! k = b \<longrightarrow> \<not> stillPending ubs b (seqNums ! k)"
    then have "\<not> retired ?u1 blocks ?el seqNums b" using ret by blast
    moreover from this have "pex.cell_at ?ex b = pex.cell_at (ubs_persistedExtents ubs) b" using pub p2(3) by blast
    ultimately show "blockView ?u3 b = blockView ubs b"
      unfolding view blockView_cells [OF assms(1)] by (simp only: if_False)
  qed
qed

lemma SetPersistedRange_spec:
  fixes obj :: u64 and off stride :: u32
  assumes "ubs_ok ubs" "blocks_ok blocks seqNums"
  defines "u' \<equiv> SetPersistedRange ubs blocks obj off stride seqNums"
  shows "ubs_ok u' \<and>
    (\<forall>k < length blocks. shardEntry ubs (blocks ! k) = None \<longrightarrow>
       blockView u' (blocks ! k) = Some (persistedEntry (obj, off + of_nat k * stride, seqNums ! k))) \<and>
    (\<forall>b. b \<notin> set blocks \<or> shardEntry ubs b \<noteq> None \<longrightarrow> blockView u' b = blockView ubs b)"
proof (cases "blocks = []")
  case True
  then show ?thesis using assms by (simp add: SetPersistedRange_def)
next
  case False
  let ?el = "replicate (length blocks) True"
  let ?ex = "mprPass2 blocks ?el obj off stride seqNums 0 (ubs_persistedExtents ubs)"
  have u': "u' = ubs\<lparr>ubs_persistedExtents := ?ex\<rparr>"
    using False blocks_okD(3) [OF assms(2)] by (simp add: u'_def SetPersistedRange_def)
  have p2: "pex.emap_ok ?ex"
    "\<And>k. k < length blocks \<Longrightarrow> pex.cell_at ?ex (blocks ! k) = Some (obj, off + of_nat k * stride, seqNums ! k)"
    "\<And>b. \<not> published blocks ?el 0 b \<Longrightarrow> pex.cell_at ?ex b = pex.cell_at (ubs_persistedExtents ubs) b"
    using mprPass2_spec [OF blocks_okD(1) [OF assms(2)] ubs_okD(2) [OF assms(1)], of ?el obj off stride 0]
    by simp_all
  have ok: "ubs_ok u'" using p2(1) ubs_okD(3) [OF assms(1)] by (simp add: u')
  have pub: "published blocks ?el 0 b \<longleftrightarrow> b \<in> set blocks" for b
    by (auto simp: published_def in_set_conv_nth)
  have view: "blockView u' b = (case shardEntry ubs b of Some e \<Rightarrow> Some e
      | None \<Rightarrow> map_option persistedEntry (pex.cell_at ?ex b))" for b
    unfolding blockView_cells [OF ok] by (cases "shardEntry ubs b") (simp_all add: u')
  have "blockView u' b = blockView ubs b" if "b \<notin> set blocks \<or> shardEntry ubs b \<noteq> None" for b
    unfolding view blockView_cells [OF assms(1)] using that p2(3) [of b] pub [of b]
    by (cases "shardEntry ubs b") simp_all
  moreover have "blockView u' (blocks ! k) = Some (persistedEntry (obj, off + of_nat k * stride, seqNums ! k))"
    if "k < length blocks" "shardEntry ubs (blocks ! k) = None" for k
    unfolding view that(2) p2(2) [OF that(1)] by simp
  ultimately show ?thesis using ok by blast
qed

end
