(* ===== verification/Blockstore_Props.thy ===== *)
theory Blockstore_Props
  imports Blockstore
begin

text \<open>
  What the unified block store promises its clients.  Seen through \<open>ReadEntry\<close> the store is a partial
  map from block numbers to entries; the mutators the engine uses are updates of that map, and any
  sequence of them implements the map.  The remaining mutators are characterised one by one.
\<close>

section \<open>Single-entry updates\<close>

lemma blockView_shardUpdate:
  assumes "ubs_ok ubs"
  shows "blockView (shardUpdate ubs b e) = (blockView ubs)(b \<mapsto> e)"
proof
  fix b'
  have "readPersisted (shardUpdate ubs b e) b' = readPersisted ubs b'" by (rule readPersisted_cong) simp
  then show "blockView (shardUpdate ubs b e) b' = ((blockView ubs)(b \<mapsto> e)) b'"
    using ubs_okD(1) [OF assms] by (simp add: blockView_eq split: option.splits)
qed

lemma blockView_fields [simp]:
  "blockView (ubs\<lparr>ubs_stats := y\<rparr>) = blockView ubs" "blockView (ubs\<lparr>ubs_seqNum := z\<rparr>) = blockView ubs"
  by (auto simp: fun_eq_iff blockView_eq intro!: readPersisted_cong split: option.splits)

definition hotEntry :: "bytes \<Rightarrow> u64 \<Rightarrow> BlockEntry" where
  "hotEntry data sq = \<lparr>be_Data = data, be_SeqNum = sq, be_ObjectID = 0, be_ObjectOffset = 0,
                       be_State = BlockStateHot\<rparr>"

lemma entry_hot:
  "e\<lparr>be_SeqNum := sq, be_State := BlockStateHot, be_Data := d, be_ObjectID := 0, be_ObjectOffset := 0\<rparr>
     = hotEntry d sq"
  by (cases e) (simp add: hotEntry_def)

section \<open>The abstract block map\<close>

text \<open>
  The operations the engine drives the store with: a guest write under a freshly reserved sequence
  number, the flush of one block to the WAL, the completion of a chunk upload, and the installation
  of a checkpoint extent.
\<close>

datatype StoreOp =
    Put u64 bytes u64
  | Pend u64
  | PersistRange "u64 list" u64 u32 u32 "u64 list"
  | LoadRange "u64 list" u64 u32 u32 "u64 list"

fun applyOp :: "StoreOp \<Rightarrow> UnifiedBlockStore \<Rightarrow> UnifiedBlockStore" where
  "applyOp (Put b data sq) ubs = WriteWithSeqNum ubs b data sq"
| "applyOp (Pend b) ubs = snd (MarkPending ubs b)"
| "applyOp (PersistRange blocks obj off stride seqs) ubs =
     snd (MarkPersistedRange ubs blocks obj off stride seqs)"
| "applyOp (LoadRange blocks obj off stride seqs) ubs = SetPersistedRange ubs blocks obj off stride seqs"

type_synonym blockMap = "u64 \<Rightarrow> BlockEntry option"

definition pendingIn :: "blockMap \<Rightarrow> u64 \<Rightarrow> u64 \<Rightarrow> bool" where
  "pendingIn V b sq = (case V b of None \<Rightarrow> False
     | Some e \<Rightarrow> be_State e = BlockStatePending \<and> be_SeqNum e = sq)"

definition bufferedIn :: "blockMap \<Rightarrow> u64 \<Rightarrow> bool" where
  "bufferedIn V b = (case V b of None \<Rightarrow> False
     | Some e \<Rightarrow> be_State e = BlockStateHot \<or> be_State e = BlockStatePending)"

definition relocate ::
    "(u64 \<Rightarrow> nat \<Rightarrow> bool) \<Rightarrow> u64 list \<Rightarrow> u64 \<Rightarrow> u32 \<Rightarrow> u32 \<Rightarrow> u64 list \<Rightarrow> blockMap \<Rightarrow> blockMap" where
  "relocate P blocks obj off stride seqs V = (\<lambda>b.
     case find (\<lambda>k. blocks ! k = b \<and> P b k) [0..<length blocks] of
       None \<Rightarrow> V b
     | Some k \<Rightarrow> Some (persistedEntry (obj, off + of_nat k * stride, seqs ! k)))"

fun specOp :: "StoreOp \<Rightarrow> blockMap \<Rightarrow> blockMap" where
  "specOp (Put b data sq) V = V(b \<mapsto> hotEntry data sq)"
| "specOp (Pend b) V = (case V b of None \<Rightarrow> V
     | Some e \<Rightarrow> if be_State e = BlockStateHot then V(b \<mapsto> e\<lparr>be_State := BlockStatePending\<rparr>) else V)"
| "specOp (PersistRange blocks obj off stride seqs) V =
     relocate (\<lambda>b k. pendingIn V b (seqs ! k)) blocks obj off stride seqs V"
| "specOp (LoadRange blocks obj off stride seqs) V =
     relocate (\<lambda>b k. \<not> bufferedIn V b) blocks obj off stride seqs V"

fun opGuard :: "StoreOp \<Rightarrow> blockMap \<Rightarrow> bool" where
  "opGuard (Put b data sq) V = (0 < sq \<and> (case V b of None \<Rightarrow> True | Some e \<Rightarrow> be_SeqNum e < sq))"
| "opGuard (Pend b) V = True"
| "opGuard (PersistRange blocks obj off stride seqs) V = blocks_ok blocks seqs"
| "opGuard (LoadRange blocks obj off stride seqs) V = blocks_ok blocks seqs"

fun opsGuard :: "StoreOp list \<Rightarrow> blockMap \<Rightarrow> bool" where
  "opsGuard [] V = True"
| "opsGuard (op # ops) V = (opGuard op V \<and> opsGuard ops (specOp op V))"

text \<open>Under these operations the shards only ever hold buffered blocks.\<close>

definition buffered :: "UnifiedBlockStore \<Rightarrow> bool" where
  "buffered ubs \<longleftrightarrow> (\<forall>b e. shardEntry ubs b = Some e \<longrightarrow>
     be_State e = BlockStateHot \<or> be_State e = BlockStatePending)"

lemma readPersisted_state: "readPersisted ubs b = Some e \<Longrightarrow> be_State e = BlockStatePersisted"
  by (auto simp: readPersisted_def Let_def split: option.splits)

lemma buffered_view:
  assumes "buffered ubs"
  shows "bufferedIn (blockView ubs) b \<longleftrightarrow> shardEntry ubs b \<noteq> None"
    "pendingIn (blockView ubs) b sq \<longleftrightarrow> stillPending ubs b sq"
  using assms readPersisted_state [of ubs b]
  by (auto simp: bufferedIn_def pendingIn_def stillPending_def blockView_eq buffered_def split: option.splits)

lemma find_upt_cases:
  obtains (none) "find P [0..<n] = None" "\<And>k. k < n \<Longrightarrow> \<not> P k"
    | (some) k where "find P [0..<n] = Some k" "k < n" "P k"
  by (cases "find P [0..<n]") (auto simp: find_None_iff find_Some_iff intro: that)

lemma relocate_eqI:
  assumes "\<And>k. k < length blocks \<Longrightarrow> P (blocks ! k) k \<Longrightarrow>
      W (blocks ! k) = Some (persistedEntry (obj, off + of_nat k * stride, seqs ! k))"
    and "\<And>b. (\<And>k. k < length blocks \<Longrightarrow> blocks ! k = b \<Longrightarrow> \<not> P b k) \<Longrightarrow> W b = V b"
  shows "W = relocate P blocks obj off stride seqs V"
proof
  fix b
  show "W b = relocate P blocks obj off stride seqs V b"
    by (rule find_upt_cases [of "\<lambda>k. blocks ! k = b \<and> P b k" "length blocks"])
      (use assms in \<open>auto simp: relocate_def\<close>)
qed

section \<open>Each operation implements its specification\<close>

lemma buffered_shardUpdate:
  "\<lbrakk>buffered ubs; ubs_ok ubs; be_State e = BlockStateHot \<or> be_State e = BlockStatePending\<rbrakk>
     \<Longrightarrow> buffered (shardUpdate ubs b e)"
  using ubs_okD(1) by (auto simp: buffered_def)

lemma WriteWithSeqNum_fresh:
  assumes "ubs_ok ubs" "opGuard (Put b d sq) (blockView ubs)"
  shows "WriteWithSeqNum ubs b d sq = shardUpdate ubs b (hotEntry d sq)"
  using assms(2)
  by (auto simp: WriteWithSeqNum_def blockView_eq entry_hot zeroEntry_def split: option.splits)
     (simp_all add: hotEntry_def)

lemma MarkPending_cases:
  obtains (fires) e where "shardEntry ubs b = Some e" "be_State e = BlockStateHot"
      "MarkPending ubs b = (True, shardUpdate ubs b (e\<lparr>be_State := BlockStatePending\<rparr>))"
  | (idle) "\<And>e. shardEntry ubs b = Some e \<Longrightarrow> be_State e \<noteq> BlockStateHot" "MarkPending ubs b = (False, ubs)"
  by (cases "shardEntry ubs b") (auto simp: MarkPending_def split: if_splits)

lemma buffered_shrink:
  assumes "buffered ubs" "\<And>b. shardEntry ubs' b = shardEntry ubs b \<or> shardEntry ubs' b = None"
  shows "buffered ubs'"
  using assms unfolding buffered_def by (metis option.distinct(1))

lemma MarkPersistedRange_shards:
  assumes "ubs_ok ubs" "blocks_ok blocks seqs"
  shows "shardEntry (snd (MarkPersistedRange ubs blocks obj off stride seqs)) b = shardEntry ubs b \<or>
    shardEntry (snd (MarkPersistedRange ubs blocks obj off stride seqs)) b = None"
proof -
  let ?el = "mprPass1 ubs blocks seqs"
  let ?u1 = "ubs\<lparr>ubs_persistedExtents := mprPass2 blocks ?el obj off stride seqs 0 (ubs_persistedExtents ubs)\<rparr>"
  have len: "length ?el = length blocks" "length seqs = length blocks"
    using blocks_okD(3) [OF assms(2)] by simp_all
  have "ubs_ok ?u1"
    using mprPass2_spec [OF blocks_okD(1) [OF assms(2) len(1)] ubs_okD(2) [OF assms(1)]] ubs_okD(3) [OF assms(1)]
    by simp
  then have "shardEntry (snd (mprPass3 ?u1 blocks ?el seqs)) b = shardEntry ubs b \<or>
      shardEntry (snd (mprPass3 ?u1 blocks ?el seqs)) b = None"
    using mprPass3_spec [OF _ blocks_okD(2) [OF assms(2)] len] by simp
  then show ?thesis by (simp add: MarkPersistedRange_def Let_def split_beta)
qed

lemma applyOp_refines:
  assumes "ubs_ok ubs" "buffered ubs" "opGuard op (blockView ubs)"
  shows "ubs_ok (applyOp op ubs) \<and> buffered (applyOp op ubs) \<and>
    blockView (applyOp op ubs) = specOp op (blockView ubs)"
proof (cases op)
  case (Put b d sq)
  then show ?thesis
    using assms WriteWithSeqNum_fresh [of ubs b d sq] blockView_shardUpdate [OF assms(1)]
    by (simp add: buffered_shardUpdate hotEntry_def)
next
  case (Pend b)
  show ?thesis
  proof (cases ubs b rule: MarkPending_cases)
    case (fires e)
    then show ?thesis using assms Pend
      by (simp add: buffered_shardUpdate blockView_shardUpdate blockView_eq [of ubs b])
  next
    case idle
    have "be_State e \<noteq> BlockStateHot" if "blockView ubs b = Some e" for e
      using that idle(1) readPersisted_state [of ubs b] by (auto simp: blockView_eq split: option.splits)
    then show ?thesis using assms Pend idle(2) by (auto split: option.splits)
  qed
next
  case (PersistRange blocks obj off stride seqs)
  then have ok: "blocks_ok blocks seqs" using assms(3) by simp
  note spec = MarkPersistedRange_spec [OF assms(1) ok, of obj off stride]
  have "blockView (snd (MarkPersistedRange ubs blocks obj off stride seqs)) =
      relocate (\<lambda>b k. pendingIn (blockView ubs) b (seqs ! k)) blocks obj off stride seqs (blockView ubs)"
    by (rule relocate_eqI) (use spec in \<open>simp_all add: buffered_view(2) [OF assms(2)]\<close>)
  moreover have "buffered (snd (MarkPersistedRange ubs blocks obj off stride seqs))"
    by (rule buffered_shrink [OF assms(2) MarkPersistedRange_shards [OF assms(1) ok]])
  ultimately show ?thesis using spec PersistRange by simp
next
  case (LoadRange blocks obj off stride seqs)
  then have ok: "blocks_ok blocks seqs" using assms(3) by simp
  note spec = SetPersistedRange_spec [OF assms(1) ok, of obj off stride]
  have "blockView (SetPersistedRange ubs blocks obj off stride seqs) =
      relocate (\<lambda>b k. \<not> bufferedIn (blockView ubs) b) blocks obj off stride seqs (blockView ubs)"
  proof (rule relocate_eqI)
    fix b assume "\<And>k. k < length blocks \<Longrightarrow> blocks ! k = b \<Longrightarrow> \<not> \<not> bufferedIn (blockView ubs) b"
    then have "b \<notin> set blocks \<or> shardEntry ubs b \<noteq> None"
      unfolding buffered_view(1) [OF assms(2)] in_set_conv_nth by blast
    then show "blockView (SetPersistedRange ubs blocks obj off stride seqs) b = blockView ubs b"
      using spec by blast
  qed (use spec in \<open>simp add: buffered_view(1) [OF assms(2)]\<close>)
  moreover have "buffered (SetPersistedRange ubs blocks obj off stride seqs)"
    using assms(2) by (simp add: SetPersistedRange_def buffered_def)
  ultimately show ?thesis using spec LoadRange by simp
qed

lemma applyOps_refine:
  "\<lbrakk>ubs_ok ubs; buffered ubs; opsGuard ops (blockView ubs)\<rbrakk> \<Longrightarrow>
     ubs_ok (fold applyOp ops ubs) \<and> blockView (fold applyOp ops ubs) = fold specOp ops (blockView ubs)"
  by (induction ops arbitrary: ubs) (simp_all add: applyOp_refines)

lemma New_view [simp]: "blockView (NewUnifiedBlockStore sz) = (\<lambda>_. None)"
  by (rule ext, subst blockView_cells [OF ubs_ok_New]) (simp add: NewUnifiedBlockStore_def getShard_def)

lemma New_buffered [simp]: "buffered (NewUnifiedBlockStore sz)"
  by (simp add: buffered_def NewUnifiedBlockStore_def getShard_def)

lemma applyOps_ok: "opsGuard ops (\<lambda>_. None) \<Longrightarrow> ubs_ok (fold applyOp ops (NewUnifiedBlockStore sz))"
  using applyOps_refine [of "NewUnifiedBlockStore sz" ops] by simp

text \<open>
  C4. The block store implements the abstract block map: after any sequence of writes with fresh
  sequence numbers, WAL flushes, chunk-upload completions and checkpoint loads, a reader of any
  block sees exactly what the same sequence leaves in a plain map from block numbers to entries,
  although the store spreads the blocks over sixteen shards and a map of coalesced extents.
\<close>

theorem store_refines_map:
  assumes "opsGuard ops (\<lambda>_. None)"
  shows "fst (ReadEntry (fold applyOp ops (NewUnifiedBlockStore sz)) b) = fold specOp ops (\<lambda>_. None) b"
  using applyOps_refine [of "NewUnifiedBlockStore sz" ops] assms by (simp add: blockView_def [symmetric])

theorem store_refines_map_witness:
  "fst (ReadEntry (fold applyOp [Put 7 [1] 1, Put 8 [2] 2, Pend 7, Pend 8, PersistRange [7, 8] 3 10 4096 [1, 2],
      Put 8 [9] 5] (NewUnifiedBlockStore 4096)) 8) =
    fold specOp [Put 7 [1] 1, Put 8 [2] 2, Pend 7, Pend 8, PersistRange [7, 8] 3 10 4096 [1, 2],
      Put 8 [9] 5] (\<lambda>_. None) 8"
  by (rule store_refines_map) code_simp

section \<open>Lookup does not depend on the iteration order\<close>

lemma map_of_eq_set:
  assumes "gomap_ok m" "gomap_ok m'" "set m' = set m"
  shows "map_of m' = map_of m"
  using assms by (metis map_of_inject_set)

text \<open>
  C18. Looking a block up in the extent index has one answer: after any sequence of store operations,
  the scan over the extent map finds the same extent whatever order the map is iterated in, because
  the installed extents never overlap.
\<close>

theorem find_order_independent:
  assumes "opsGuard ops (\<lambda>_. None)"
    and "set m' = set (ubs_persistedExtents (fold applyOp ops (NewUnifiedBlockStore sz)))"
    and "distinct (map fst m')"
  shows "findPersistedExtentLocked m' b =
    findPersistedExtentLocked (ubs_persistedExtents (fold applyOp ops (NewUnifiedBlockStore sz))) b"
proof -
  let ?m = "ubs_persistedExtents (fold applyOp ops (NewUnifiedBlockStore sz))"
  have ok: "pex.emap_ok ?m" by (rule ubs_okD(2) [OF applyOps_ok [OF assms(1)]])
  have same: "map_of m' = map_of ?m"
    by (rule map_of_eq_set [OF pex.emap_okD(1) [OF ok] assms(3,2)])
  have ok': "pex.emap_ok m'" using ok assms(3) unfolding pex.emap_ok_def same by blast
  have "pex.entry_at m' b = Some e \<longleftrightarrow> pex.entry_at ?m b = Some e" for e
    unfolding pex.entry_at_iff [OF ok] pex.entry_at_iff [OF ok'] same ..
  then have "pex.entry_at m' b = pex.entry_at ?m b" by (metis not_None_eq)
  then show ?thesis by (simp only: findPersistedExtentLocked_eq [OF ok] findPersistedExtentLocked_eq [OF ok'])
qed

theorem find_order_independent_witness:
  "findPersistedExtentLocked (rev (ubs_persistedExtents (fold applyOp
      [LoadRange [4, 5, 6] 1 10 4096 [1, 2, 3], LoadRange [5] 2 10 4096 [9]] (NewUnifiedBlockStore 4096)))) 6 =
   findPersistedExtentLocked (ubs_persistedExtents (fold applyOp
      [LoadRange [4, 5, 6] 1 10 4096 [1, 2, 3], LoadRange [5] 2 10 4096 [9]] (NewUnifiedBlockStore 4096))) 6"
proof -
  let ?ops = "[LoadRange [4, 5, 6] 1 10 4096 [1, 2, 3], LoadRange [5] 2 10 4096 [9]]"
  have g: "opsGuard ?ops (\<lambda>_. None)" by code_simp
  have "gomap_ok (rev (ubs_persistedExtents (fold applyOp ?ops (NewUnifiedBlockStore 4096))))"
    unfolding rev_map [symmetric] distinct_rev by (rule pex.emap_okD(1) [OF ubs_okD(2) [OF applyOps_ok [OF g]]])
  then show ?thesis by (rule find_order_independent [OF g set_rev])
qed

section \<open>The remaining mutators\<close>

text \<open>
  C19. A chunk upload binds a location to a block only when the block is still pending under the very
  sequence number the chunk sealed; it then records that location with that sequence number, drops
  the buffered data and reports success.  In every other case the store is left as it was, so a stale
  upload can never pair an old location with a newer sequence number.
\<close>

theorem MarkPersisted_binds:
  assumes "ubs_ok ubs"
  shows "fst (MarkPersisted ubs b obj off sq) = stillPending ubs b sq \<and>
    blockView (snd (MarkPersisted ubs b obj off sq)) =
      (if stillPending ubs b sq then (blockView ubs)(b \<mapsto> persistedEntry (obj, off, sq)) else blockView ubs)"
proof -
  have "e\<lparr>be_State := BlockStatePersisted, be_ObjectID := obj, be_ObjectOffset := off,
         be_SeqNum := sq, be_Data := []\<rparr> = persistedEntry (obj, off, sq)" for e :: BlockEntry
    by (cases e) simp
  then show ?thesis
    by (auto simp: MarkPersisted_def stillPending_def blockView_shardUpdate [OF assms] split: option.splits)
qed

theorem MarkPersisted_binds_witness:
  "fst (MarkPersisted (fold applyOp [Put 7 [1] 1, Pend 7, Put 7 [2] 2] (NewUnifiedBlockStore 4096)) 7 3 10 1) = False"
proof -
  let ?u = "fold applyOp [Put 7 [1] 1, Pend 7, Put 7 [2] 2] (NewUnifiedBlockStore 4096)"
  have "ubs_ok ?u" by (rule applyOps_ok) code_simp
  moreover have "stillPending ?u 7 1 = False" by (simp add: ubs_eval)
  ultimately show ?thesis using MarkPersisted_binds [of ?u 7 3 10 1] by simp
qed

lemma fracture_one:
  assumes "pex.emap_ok m" "b \<noteq> 18446744073709551615"
  shows "pex.emap_ok (fractureOverlapsLocked b 1 m)"
    "pex.cell_at (fractureOverlapsLocked b 1 m) b' = (if b' = b then None else pex.cell_at m b')"
proof -
  have s: "unat (b + 1) = unat b + 1" by (rule unat_Suc_u64 [OF assms(2)])
  then have lt: "b < b + 1" by (simp add: word_lt_unat)
  show "pex.emap_ok (fractureOverlapsLocked b 1 m)"
    unfolding fractureOverlapsLocked_eq using pex.fracture_ok [OF assms(1) lt] by simp
  have "b' < b \<or> b + 1 \<le> b'" if "b' \<noteq> b"
    using that s by (simp add: word_nat flip: unat_eq_iff) linarith
  then show "pex.cell_at (fractureOverlapsLocked b 1 m) b' = (if b' = b then None else pex.cell_at m b')"
    unfolding fractureOverlapsLocked_eq
    using pex.fracture_cells [OF assms(1) lt] pex.fracture_gap [OF assms(1) lt, of b] lt by simp
qed

text \<open>
  C20. \<open>Delete\<close> reports whether the block was known and touches no other block.  A block that only
  lives in an extent is forgotten; a block with a shard entry falls back to whatever an extent still
  says of it.
\<close>

theorem Delete_behaviour:
  assumes "ubs_ok ubs" "b \<noteq> 18446744073709551615"
  shows "ubs_ok (snd (UBS_Delete ubs b)) \<and> fst (UBS_Delete ubs b) = (blockView ubs b \<noteq> None) \<and>
    blockView (snd (UBS_Delete ubs b)) b' =
      (if b' \<noteq> b then blockView ubs b' else if shardEntry ubs b = None then None else readPersisted ubs b)"
proof (cases "shardEntry ubs b")
  case (Some e)
  let ?u = "setShard ubs b (gdel b (getShard ubs b))"
  have "readPersisted ?u x = readPersisted ubs x" for x by (rule readPersisted_cong) simp
  then show ?thesis using Some ubs_okD(1) [OF assms(1)] assms(1)
    by (simp add: UBS_Delete_def blockView_eq split: option.splits)
next
  case None
  let ?m = "ubs_persistedExtents ubs"
  let ?m' = "fractureOverlapsLocked b 1 ?m"
  note ok = ubs_okD(2) [OF assms(1)]
  note one = fracture_one [OF ok assms(2)]
  have known: "findPersistedExtentLocked ?m b = None \<longleftrightarrow> blockView ubs b = None"
    using None by (simp add: blockView_eq readPersisted_def Let_def split: option.splits)
  show ?thesis
  proof (cases "findPersistedExtentLocked ?m b")
    case None
    then show ?thesis using known \<open>shardEntry ubs b = None\<close> assms(1) by (simp add: UBS_Delete_def)
  next
    case (Some pe)
    let ?u = "ubs\<lparr>ubs_persistedExtents := ?m'\<rparr>"
    have u: "ubs_ok ?u" using one(1) ubs_okD(3) [OF assms(1)] by simp
    have "UBS_Delete ubs b = (True, ?u)" using Some \<open>shardEntry ubs b = None\<close> by (simp add: UBS_Delete_def)
    moreover have "blockView ?u b' = (if b' \<noteq> b then blockView ubs b' else None)"
      unfolding blockView_cells [OF u] blockView_cells [OF assms(1)]
      using one(2) [of b'] \<open>shardEntry ubs b = None\<close>
      by (cases "b' = b"; cases "shardEntry ubs b'") simp_all
    ultimately show ?thesis using u known Some \<open>shardEntry ubs b = None\<close> by simp
  qed
qed

theorem Delete_behaviour_witness:
  "blockView (snd (UBS_Delete (fold applyOp [LoadRange [4, 5, 6] 1 10 4096 [1, 2, 3]] (NewUnifiedBlockStore 4096)) 5)) 5 = None"
proof -
  let ?u = "fold applyOp [LoadRange [4, 5, 6] 1 10 4096 [1, 2, 3]] (NewUnifiedBlockStore 4096)"
  have "ubs_ok ?u" by (rule applyOps_ok) code_simp
  moreover have "shardEntry ?u 5 = None" by (simp add: ubs_eval)
  ultimately show ?thesis using Delete_behaviour [of ?u 5 5] by simp
qed

end
