(* ===== verification/Utils_Types.thy ===== *)
theory Utils_Types
  imports VB_Prelude "HOL-Library.Sublist"
begin

text \<open>
  The saturating conversions of \<open>utils/utils.go\<close>, the object naming scheme of \<open>types/types.go\<close>, and
  the inverse of that scheme the garbage collector uses (\<open>parseChunkObjectID\<close>).  Go's \<open>int\<close> and
  \<open>int64\<close> arguments are integers here; the \<open>%08d\<close> and \<open>%02d\<close> verbs are decimal printing with zero
  padding; paths are strings of bytes.
\<close>

section \<open>Saturating conversions\<close>

definition SafeInt64ToUint64 :: "int \<Rightarrow> u64" where
  "SafeInt64ToUint64 v = (if v < 0 then 0 else of_int v)"

definition SafeIntToUint64 :: "int \<Rightarrow> u64" where
  "SafeIntToUint64 v = (if v < 0 then 0 else of_int v)"

definition SafeUint64ToInt64 :: "u64 \<Rightarrow> int" where
  "SafeUint64ToInt64 v = (if 9223372036854775807 < v then 9223372036854775807 else uint v)"

definition SafeUint64ToUint32 :: "u64 \<Rightarrow> u32" where
  "SafeUint64ToUint32 v = (if 4294967295 < v then 4294967295 else ucast v)"

definition SafeUint64ToInt :: "u64 \<Rightarrow> int" where
  "SafeUint64ToInt v = (if 9223372036854775807 < v then 9223372036854775807 else uint v)"

definition SafeInt64ToUint32 :: "int \<Rightarrow> u32" where
  "SafeInt64ToUint32 v = (if v < 0 then 0 else if 4294967295 < v then 4294967295 else of_int v)"

definition SafeIntToUint32 :: "int \<Rightarrow> u32" where
  "SafeIntToUint32 v = (if v < 0 then 0 else if 4294967295 < v then 4294967295 else of_int v)"

definition SafeIntToUint16 :: "int \<Rightarrow> u16" where
  "SafeIntToUint16 v = (if v < 0 then 0 else if 65535 < v then 65535 else of_int v)"

text \<open>The scale loop of \<open>HumanBytes\<close>: the divisor and the index into \<open>"KMGTPEZY"\<close>.\<close>

function humanScale :: "u64 \<Rightarrow> u64 \<Rightarrow> nat \<Rightarrow> u64 \<times> nat" where
  "humanScale n d e = (if 1024 \<le> n then humanScale (n div 1024) (d * 1024) (Suc e) else (d, e))"
  by pat_completeness auto
termination
proof (relation "measure (\<lambda>(n, d, e). unat n)")
  fix n d :: u64 and e :: nat
  assume "1024 \<le> n"
  then have "1024 \<le> unat n" by (simp add: word_le_nat_alt)
  then show "((n div 1024, d * 1024, Suc e), n, d, e) \<in> measure (\<lambda>(n, d, e). unat n)"
    by (simp add: unat_div)
qed simp

declare humanScale.simps [simp del]

definition HumanBytes_scale :: "u64 \<Rightarrow> (u64 \<times> nat) option" where
  "HumanBytes_scale b = (if b < 1024 then None else Some (humanScale (b div 1024) 1024 0))"

section \<open>Decimal numbers\<close>

definition digitChar :: "nat \<Rightarrow> char" where
  "digitChar d = char_of (48 + d)"

definition isDigit :: "char \<Rightarrow> bool" where
  "isDigit c \<longleftrightarrow> 48 \<le> (of_char c :: nat) \<and> (of_char c :: nat) \<le> 57"

definition digitVal :: "char \<Rightarrow> nat" where
  "digitVal c = of_char c - 48"

fun showNat :: "nat \<Rightarrow> string" where
  "showNat n = (if n < 10 then [digitChar n] else showNat (n div 10) @ [digitChar (n mod 10)])"

declare showNat.simps [simp del]

definition padNat :: "nat \<Rightarrow> nat \<Rightarrow> string" where
  "padNat w n = replicate (w - length (showNat n)) (CHR ''0'') @ showNat n"

definition readNat :: "string \<Rightarrow> nat" where
  "readNat s = foldl (\<lambda>a c. 10 * a + digitVal c) 0 s"

lemma digit_simps [simp]:
  "d < 10 \<Longrightarrow> isDigit (digitChar d)" "d < 10 \<Longrightarrow> digitVal (digitChar d) = d"
  by (simp_all add: isDigit_def digitChar_def digitVal_def of_char_of)

lemma showNat_digits: "list_all isDigit (showNat n)"
proof (induction n rule: showNat.induct)
  case (1 n)
  then show ?case by (subst showNat.simps) simp
qed

lemma showNat_nonempty [simp]: "showNat n \<noteq> []"
  by (subst showNat.simps) simp

lemma readNat_append: "readNat (s @ [c]) = 10 * readNat s + digitVal c"
  by (simp add: readNat_def)

lemma readNat_showNat [simp]: "readNat (showNat n) = n"
proof (induction n rule: showNat.induct)
  case (1 n)
  then show ?case
    by (subst showNat.simps) (simp add: readNat_append, simp add: readNat_def)
qed

lemma readNat_zeros [simp]: "readNat (replicate k (CHR ''0'') @ s) = readNat s"
  by (induction k) (simp_all add: readNat_def digitVal_def)

lemma padNat_digits: "list_all isDigit (padNat w n)"
  using showNat_digits [of n] by (auto simp: padNat_def list_all_iff isDigit_def)

lemma padNat_nonempty [simp]: "padNat w n \<noteq> []"
  by (simp add: padNat_def)

lemma readNat_padNat [simp]: "readNat (padNat w n) = n"
  by (simp add: padNat_def)

section \<open>Object names\<close>

datatype FileType =
    FileTypeConfig
  | FileTypeChunk
  | FileTypeBlockCheckpoint
  | FileTypeWALChunk
  | FileTypeWALBlock
  | FileTypeSSHAuthKey
  | FileTypeWALChunkShard
  | FileTypeBlockCheckpointLive
  | FileTypeSnapshotMarker

definition GetShardedWALPath :: "string \<Rightarrow> u64 \<Rightarrow> nat \<Rightarrow> string" where
  "GetShardedWALPath volumeName walNum shardID =
     volumeName @ ''/wal/chunks/wal.'' @ padNat 8 (unat walNum) @ ''.shard_'' @ padNat 2 shardID @ ''.bin''"

fun GetFilePath :: "FileType \<Rightarrow> u64 \<Rightarrow> string \<Rightarrow> string" where
  "GetFilePath FileTypeConfig objectId volumeName = volumeName @ ''/config.json''"
| "GetFilePath FileTypeChunk objectId volumeName =
     volumeName @ ''/chunks/chunk.'' @ padNat 8 (unat objectId) @ ''.bin''"
| "GetFilePath FileTypeBlockCheckpoint objectId volumeName =
     volumeName @ ''/checkpoints/blocks.'' @ padNat 8 (unat objectId) @ ''.bin''"
| "GetFilePath FileTypeWALChunk objectId volumeName =
     volumeName @ ''/wal/chunks/wal.'' @ padNat 8 (unat objectId) @ ''.bin''"
| "GetFilePath FileTypeWALBlock objectId volumeName =
     volumeName @ ''/wal/blocks/blocks.'' @ padNat 8 (unat objectId) @ ''.bin''"
| "GetFilePath FileTypeWALChunkShard objectId volumeName =
     volumeName @ ''/wal/chunks/wal.'' @ padNat 8 (unat (drop_bit 8 objectId)) @ ''.shard_'' @
       padNat 2 (unat (objectId AND 255)) @ ''.bin''"
| "GetFilePath FileTypeBlockCheckpointLive objectId volumeName =
     volumeName @ ''/checkpoints/blocks.live.bin''"
| "GetFilePath FileTypeSnapshotMarker objectId volumeName = volumeName @ ''/snapshots.marker''"
| "GetFilePath FileTypeSSHAuthKey objectId volumeName =
     volumeName @ ''/unknown.'' @ padNat 8 (unat objectId) @ ''.bin''"

text \<open>
  \<open>chunkKeyPattern\<close> is \<open>/chunks/chunk\.(\d+)\.bin$\<close>: the leftmost position from which the literal, a
  non-empty run of digits and the suffix reach the end of the key.
\<close>

definition chunkKeyAt :: "string \<Rightarrow> string option" where
  "chunkKeyAt s =
     (if prefix ''/chunks/chunk.'' s
      then let r = drop (length ''/chunks/chunk.'') s; d = takeWhile isDigit r
           in if d \<noteq> [] \<and> dropWhile isDigit r = ''.bin'' then Some d else None
      else None)"

fun chunkKeyPattern :: "string \<Rightarrow> string option" where
  "chunkKeyPattern [] = None"
| "chunkKeyPattern (c # s) = (case chunkKeyAt (c # s) of Some d \<Rightarrow> Some d | None \<Rightarrow> chunkKeyPattern s)"

definition parseChunkObjectID :: "string \<Rightarrow> u64 option" where
  "parseChunkObjectID key =
     (case chunkKeyPattern key of
        None \<Rightarrow> None
      | Some d \<Rightarrow> if readNat d < 2 ^ 64 then Some (of_nat (readNat d)) else None)"

section \<open>Properties\<close>

lemma chunkKeyAt_suffix:
  assumes "chunkKeyAt s = Some d"
  shows "s = ''/chunks/chunk.'' @ d @ ''.bin''" "list_all isDigit d" "d \<noteq> []"
proof -
  obtain r where r: "s = ''/chunks/chunk.'' @ r" and d: "takeWhile isDigit r = d" "d \<noteq> []"
    and e: "dropWhile isDigit r = ''.bin''"
    using assms by (auto simp: chunkKeyAt_def Let_def prefix_def split: if_splits)
  show "s = ''/chunks/chunk.'' @ d @ ''.bin''" using r d(1) e takeWhile_dropWhile_id [of isDigit r] by simp
  show "list_all isDigit d" using d(1) by (auto simp: list_all_iff dest: set_takeWhileD)
  show "d \<noteq> []" by (rule d)
qed

lemma not_isDigit [simp]: "\<not> isDigit (CHR ''.'')" "\<not> isDigit (CHR ''/'')"
  by (simp_all add: isDigit_def)

lemma takeWhile_digits: "list_all isDigit d \<Longrightarrow> takeWhile isDigit (d @ CHR ''.'' # s) = d"
  "list_all isDigit d \<Longrightarrow> dropWhile isDigit (d @ CHR ''.'' # s) = CHR ''.'' # s"
  by (induction d) simp_all

lemma chunkKeyAt_key:
  "list_all isDigit d \<Longrightarrow> d \<noteq> [] \<Longrightarrow> chunkKeyAt (''/chunks/chunk.'' @ d @ ''.bin'') = Some d"
  by (simp add: chunkKeyAt_def Let_def takeWhile_digits)

text \<open>Read backwards, the digits of a chunk key are determined, so every match finds the same ones.\<close>

lemma key_digits:
  assumes "list_all isDigit d"
  shows "rev (takeWhile isDigit (drop 4 (rev (x @ ''/chunks/chunk.'' @ d @ ''.bin'')))) = d"
proof -
  have "list_all isDigit (rev d)" using assms by (simp add: list_all_iff)
  then show ?thesis by (simp add: takeWhile_digits)
qed

lemma chunkKeyPattern_suffix:
  "chunkKeyPattern s = Some d \<Longrightarrow> list_all isDigit d \<and> (\<exists>x. s = x @ ''/chunks/chunk.'' @ d @ ''.bin'')"
proof (induction s)
  case Nil
  then show ?case by simp
next
  case (Cons c s)
  show ?case
  proof (cases "chunkKeyAt (c # s)")
    case None
    then have "list_all isDigit d \<and> (\<exists>x. s = x @ ''/chunks/chunk.'' @ d @ ''.bin'')" using Cons by simp
    then show ?thesis by (metis append_Cons)
  next
    case (Some d')
    then show ?thesis using Cons.prems chunkKeyAt_suffix [of "c # s" d] by (metis append_Nil chunkKeyPattern.simps(2) option.inject option.simps(5))
  qed
qed

lemma chunkKeyPattern_found:
  assumes "list_all isDigit d" "d \<noteq> []"
  shows "chunkKeyPattern (v @ ''/chunks/chunk.'' @ d @ ''.bin'') \<noteq> None"
proof (induction v)
  case Nil
  then show ?case using chunkKeyAt_key [OF assms] by simp
next
  case (Cons c v)
  then show ?case by (simp split: option.splits)
qed

lemma chunkKeyPattern_key:
  assumes "list_all isDigit d" "d \<noteq> []"
  shows "chunkKeyPattern (v @ ''/chunks/chunk.'' @ d @ ''.bin'') = Some d"
proof -
  obtain d' where d': "chunkKeyPattern (v @ ''/chunks/chunk.'' @ d @ ''.bin'') = Some d'"
    using chunkKeyPattern_found [OF assms] by blast
  then obtain x where "list_all isDigit d'" "v @ ''/chunks/chunk.'' @ d @ ''.bin'' = x @ ''/chunks/chunk.'' @ d' @ ''.bin''"
    using chunkKeyPattern_suffix by blast
  then have "d' = d" using key_digits [OF assms(1), of v] key_digits [of d' x] by metis
  then show ?thesis using d' by simp
qed

text \<open>
  C24. The garbage collector reads a chunk's object number back from its key: for every volume name,
  whatever characters it contains, and every 64-bit object number, parsing the key that
  \<open>GetFilePath\<close> builds for the chunk returns that number.
\<close>

theorem parseChunkObjectID_roundtrip:
  "parseChunkObjectID (GetFilePath FileTypeChunk objectId volumeName) = Some objectId"
  using chunkKeyPattern_key [OF padNat_digits padNat_nonempty, of volumeName 8 "unat objectId"]
  by (simp add: parseChunkObjectID_def)

text \<open>
  C25. Every saturating conversion returns the representable value nearest to its argument: negative
  inputs become zero, inputs above the target type's maximum become that maximum, and every value in
  range is returned unchanged.
\<close>

theorem safe_conversions_clamp:
  "uint (SafeInt64ToUint64 v) = max 0 v mod 2 ^ 64 \<and> uint (SafeIntToUint64 v) = max 0 v mod 2 ^ 64 \<and>
   SafeUint64ToInt64 w = min (uint w) (2 ^ 63 - 1) \<and> SafeUint64ToInt w = min (uint w) (2 ^ 63 - 1) \<and>
   uint (SafeUint64ToUint32 w) = min (uint w) (2 ^ 32 - 1) \<and>
   uint (SafeInt64ToUint32 v) = max 0 (min v (2 ^ 32 - 1)) \<and>
   uint (SafeIntToUint32 v) = max 0 (min v (2 ^ 32 - 1)) \<and>
   uint (SafeIntToUint16 v) = max 0 (min v (2 ^ 16 - 1))"
proof (intro conjI)
  have u32: "uint (of_int v :: u32) = v" if "0 \<le> v" "v \<le> 4294967295"
    using that by (simp add: uint_word_of_int)
  have u16: "uint (of_int v :: u16) = v" if "0 \<le> v" "v \<le> 65535"
    using that by (simp add: uint_word_of_int)
  show "uint (SafeInt64ToUint64 v) = max 0 v mod 2 ^ 64" "uint (SafeIntToUint64 v) = max 0 v mod 2 ^ 64"
    by (simp_all add: SafeInt64ToUint64_def SafeIntToUint64_def uint_word_of_int max_def)
  show "SafeUint64ToInt64 w = min (uint w) (2 ^ 63 - 1)" "SafeUint64ToInt w = min (uint w) (2 ^ 63 - 1)"
    by (simp_all add: SafeUint64ToInt64_def SafeUint64ToInt_def word_less_def min_def)
  show "uint (SafeUint64ToUint32 w) = min (uint w) (2 ^ 32 - 1)"
    by (auto simp: SafeUint64ToUint32_def word_less_def min_def unsigned_ucast_eq take_bit_int_eq_self)
  show "uint (SafeInt64ToUint32 v) = max 0 (min v (2 ^ 32 - 1))" "uint (SafeIntToUint32 v) = max 0 (min v (2 ^ 32 - 1))"
    using u32 by (auto simp: SafeInt64ToUint32_def SafeIntToUint32_def max_def min_def)
  show "uint (SafeIntToUint16 v) = max 0 (min v (2 ^ 16 - 1))"
    using u16 by (auto simp: SafeIntToUint16_def max_def min_def)
qed

declare GetFilePath.simps [simp del]

end
