(* ===== verification/Blockmap.thy ===== *)
theory Blockmap
  imports Extents Utils_Types
begin

text \<open>
  The block-to-object map of \<open>viperblock.go\<close>: \<open>BlockLookup\<close> entries keyed by their first block, the
  insertion that cuts older entries and maintains the garbage collector's reference counts, the
  expansion of an entry into one record per block, and the coalescing of such records into runs.
\<close>

section \<open>Data and accessors\<close>

record BlockLookup =
  bl_SeqNums :: "u64 list"
  bl_StartBlock :: u64
  bl_ObjectID :: u64
  bl_SeqNum :: u64
  bl_ObjectOffset :: u32
  bl_NumBlocks :: u16

definition zeroLookup :: BlockLookup where
  "zeroLookup = \<lparr>bl_SeqNums = [], bl_StartBlock = 0, bl_ObjectID = 0, bl_SeqNum = 0,
                 bl_ObjectOffset = 0, bl_NumBlocks = 0\<rparr>"

record BlocksToObject =
  bto_dirty :: bool
  bto_BlockLookup :: "(u64, BlockLookup) gomap"

definition bl_end :: "BlockLookup \<Rightarrow> u64" where
  "bl_end bl = bl_StartBlock bl + ucast (bl_NumBlocks bl)"

definition bl_seqNumAt :: "BlockLookup \<Rightarrow> int \<Rightarrow> u64" where
  "bl_seqNumAt bl i =
     (if 0 \<le> i \<and> i < int (length (bl_SeqNums bl)) then bl_SeqNums bl ! nat i else bl_SeqNum bl)"

definition bl_offsetAt :: "BlockLookup \<Rightarrow> int \<Rightarrow> u32 \<Rightarrow> u32" where
  "bl_offsetAt bl i stride = bl_ObjectOffset bl + SafeIntToUint32 i * stride"

definition sliceSeqNums :: "BlockLookup \<Rightarrow> int \<Rightarrow> int \<Rightarrow> u64 list" where
  "sliceSeqNums bl from to = (if to \<le> from then [] else map (bl_seqNumAt bl) [from..to - 1])"

definition expandBlockLookup :: "BlockLookup \<Rightarrow> u32 \<Rightarrow> BlockLookup list" where
  "expandBlockLookup bl stride =
     map (\<lambda>i. \<lparr>bl_SeqNums = [], bl_StartBlock = bl_StartBlock bl + of_nat i, bl_ObjectID = bl_ObjectID bl,
               bl_SeqNum = bl_seqNumAt bl (int i), bl_ObjectOffset = bl_offsetAt bl (int i) stride,
               bl_NumBlocks = 1\<rparr>)
       [0..<unat (bl_NumBlocks bl)]"

definition resolveBlockLookup ::
    "(u64, BlockLookup) gomap \<Rightarrow> u64 \<Rightarrow> (BlockLookup \<times> int) option" where
  "resolveBlockLookup m block =
     (case map_of m block of
        Some bl \<Rightarrow> Some (bl, 0)
      | None \<Rightarrow>
          (case find (\<lambda>p. bl_StartBlock (snd p) < block \<and> block < bl_end (snd p)) m of
             Some p \<Rightarrow> Some (snd p, SafeUint64ToInt (block - bl_StartBlock (snd p)))
           | None \<Rightarrow> None))"

section \<open>Insertion with reference counts\<close>

text \<open>\<open>gcRefcount\<close> may be nil; the counters are \<open>uint64\<close>.\<close>

type_synonym gcRefcount = "(u64, u64) gomap option"

definition gcDec :: "u64 \<Rightarrow> gcRefcount \<Rightarrow> gcRefcount" where
  "gcDec obj gc = (case gc of None \<Rightarrow> None
     | Some rc \<Rightarrow> if 0 < gcount rc obj then Some (gput obj (gcount rc obj - 1) rc) else Some rc)"

definition gcInc :: "u64 \<Rightarrow> gcRefcount \<Rightarrow> gcRefcount" where
  "gcInc obj gc = (case gc of None \<Rightarrow> None | Some rc \<Rightarrow> Some (gput obj (gcount rc obj + 1) rc))"

definition bl_head :: "u64 \<Rightarrow> BlockLookup \<Rightarrow> BlockLookup" where
  "bl_head newStart existing =
     (let headLen = SafeUint64ToInt (newStart - bl_StartBlock existing)
      in \<lparr>bl_SeqNums = sliceSeqNums existing 0 headLen, bl_StartBlock = bl_StartBlock existing,
          bl_ObjectID = bl_ObjectID existing, bl_SeqNum = bl_seqNumAt existing 0,
          bl_ObjectOffset = bl_ObjectOffset existing, bl_NumBlocks = SafeIntToUint16 headLen\<rparr>)"

definition bl_tail :: "u32 \<Rightarrow> u64 \<Rightarrow> BlockLookup \<Rightarrow> BlockLookup" where
  "bl_tail stride newEnd existing =
     (let tailOffset = SafeUint64ToInt (newEnd - bl_StartBlock existing);
          tailLen = SafeUint64ToInt (bl_end existing - newEnd)
      in \<lparr>bl_SeqNums = sliceSeqNums existing tailOffset (tailOffset + tailLen), bl_StartBlock = newEnd,
          bl_ObjectID = bl_ObjectID existing, bl_SeqNum = bl_seqNumAt existing tailOffset,
          bl_ObjectOffset = bl_offsetAt existing tailOffset stride,
          bl_NumBlocks = SafeIntToUint16 tailLen\<rparr>)"

definition insertKey ::
    "u64 \<Rightarrow> u64 \<Rightarrow> u32 \<Rightarrow> u64 \<Rightarrow> (u64, BlockLookup) gomap \<times> gcRefcount \<Rightarrow>
     (u64, BlockLookup) gomap \<times> gcRefcount" where
  "insertKey newStart newEnd stride k s =
     (case map_of (fst s) k of
        None \<Rightarrow> s
      | Some existing \<Rightarrow>
          if bl_end existing \<le> newStart \<or> newEnd \<le> bl_StartBlock existing then s
          else let s1 = (gdel k (fst s), gcDec (bl_ObjectID existing) (snd s));
                   s2 = (if bl_StartBlock existing < newStart
                         then (gput (bl_StartBlock existing) (bl_head newStart existing) (fst s1),
                               gcInc (bl_ObjectID existing) (snd s1))
                         else s1)
               in if newEnd < bl_end existing
                  then (gput newEnd (bl_tail stride newEnd existing) (fst s2),
                        gcInc (bl_ObjectID existing) (snd s2))
                  else s2)"

definition insertCoalescedLocked ::
    "BlockLookup \<Rightarrow> u32 \<Rightarrow> (u64, BlockLookup) gomap \<times> gcRefcount \<Rightarrow>
     (u64, BlockLookup) gomap \<times> gcRefcount" where
  "insertCoalescedLocked newEntry stride s =
     (let newStart = bl_StartBlock newEntry;
          newEnd = bl_end newEntry;
          s' = fold (insertKey newStart newEnd stride) (map fst (fst s)) s
      in (gput newStart newEntry (fst s'), gcInc (bl_ObjectID newEntry) (snd s')))"

section \<open>Coalescing records into runs\<close>

text \<open>
  The inner loop of \<open>coalesceBlockLookup\<close>: it extends the run of \<open>first\<close> while the next key is the
  adjacent block of the same object, one stride further in, and returns the collected sequence
  numbers with the keys not taken.
\<close>

fun coalesceRun ::
    "(u64, BlockLookup) gomap \<Rightarrow> u32 \<Rightarrow> BlockLookup \<Rightarrow> BlockLookup \<Rightarrow> u64 list \<Rightarrow> u64 list \<Rightarrow>
     u64 list \<times> u64 list" where
  "coalesceRun flat stride first prev seqNums [] = (seqNums, [])"
| "coalesceRun flat stride first prev seqNums (k # ks) =
     (let cand = (case map_of flat k of Some bl \<Rightarrow> bl | None \<Rightarrow> zeroLookup)
      in if bl_StartBlock cand = bl_StartBlock prev + 1 \<and> bl_ObjectID cand = bl_ObjectID first \<and>
            bl_ObjectOffset cand = bl_ObjectOffset prev + stride
         then coalesceRun flat stride first cand (seqNums @ [bl_SeqNum cand]) ks
         else (seqNums, k # ks))"

lemma coalesceRun_length: "length (snd (coalesceRun flat stride first prev seqNums ks)) \<le> length ks"
  by (induction flat stride first prev seqNums ks rule: coalesceRun.induct) (auto simp: Let_def)

definition mergedRun :: "BlockLookup \<Rightarrow> u64 list \<Rightarrow> BlockLookup" where
  "mergedRun first seqNums =
     \<lparr>bl_SeqNums = seqNums, bl_StartBlock = bl_StartBlock first, bl_ObjectID = bl_ObjectID first,
      bl_SeqNum = bl_SeqNum first, bl_ObjectOffset = bl_ObjectOffset first,
      bl_NumBlocks = SafeIntToUint16 (int (length seqNums))\<rparr>"

function coalesceLoop ::
    "(u64, BlockLookup) gomap \<Rightarrow> u32 \<Rightarrow> u64 list \<Rightarrow> (u64, BlockLookup) gomap \<Rightarrow>
     (u64, BlockLookup) gomap" where
  "coalesceLoop flat stride [] out = out"
| "coalesceLoop flat stride (k # ks) out =
     (let first = (case map_of flat k of Some bl \<Rightarrow> bl | None \<Rightarrow> zeroLookup);
          r = coalesceRun flat stride first first [bl_SeqNum first] ks;
          merged = mergedRun first (fst r)
      in coalesceLoop flat stride (snd r) (gput (bl_StartBlock merged) merged out))"
  by pat_completeness auto
termination
  by (relation "measure (\<lambda>(flat, stride, ks, out). length ks)")
     (auto simp: Let_def le_imp_less_Suc coalesceRun_length)

definition coalesceBlockLookup ::
    "(u64, BlockLookup) gomap \<Rightarrow> u32 \<Rightarrow> (u64, BlockLookup) gomap" where
  "coalesceBlockLookup flat stride =
     (if length flat = 0 then [] else coalesceLoop flat stride (sort (map fst flat)) [])"

section \<open>The block map as an instance of the extent interface\<close>

definition bl_cell :: "u32 \<Rightarrow> BlockLookup \<Rightarrow> nat \<Rightarrow> u64 \<times> u32 \<times> u64" where
  "bl_cell stride bl i = (bl_ObjectID bl, bl_offsetAt bl (int i) stride, bl_seqNumAt bl (int i))"

abbreviation bl_shape :: "BlockLookup \<Rightarrow> bool" where
  "bl_shape bl \<equiv> True"

lemma SafeUint64ToInt_small: "unat w < 2 ^ 63 \<Longrightarrow> SafeUint64ToInt w = int (unat w)"
  by (simp add: SafeUint64ToInt_def word_less_nat_alt)

lemma SafeIntToUint16_nat: "n < 65536 \<Longrightarrow> SafeIntToUint16 (int n) = of_nat n"
  by (simp add: SafeIntToUint16_def)

lemma SafeIntToUint32_nat: "n < 4294967296 \<Longrightarrow> SafeIntToUint32 (int n) = of_nat n"
  by (simp add: SafeIntToUint32_def)

lemma sliceSeqNums_nat: "sliceSeqNums bl (int a) (int b) = map (\<lambda>i. bl_seqNumAt bl (int i)) [a..<b]"
proof (cases "a < b")
  case True
  have "[int a..int b - 1] = map int [a..<b]"
    by (rule nth_equalityI) (use True in \<open>auto simp: nth_upto\<close>)
  then show ?thesis using True by (simp add: sliceSeqNums_def)
qed (simp add: sliceSeqNums_def)

lemma unat_SafeIntToUint16: "n < 65536 \<Longrightarrow> unat (SafeIntToUint16 (int n)) = n"
  by (simp add: SafeIntToUint16_nat unat_of_nat_u16)

lemma bl_offsetAt_nat: "n < 4294967296 \<Longrightarrow> bl_offsetAt bl (int n) stride = bl_ObjectOffset bl + of_nat n * stride"
  by (simp add: bl_offsetAt_def SafeIntToUint32_nat)

lemma bl_head_nat:
  assumes "bl_StartBlock e < s" "unat s < unat (bl_StartBlock e) + unat (bl_NumBlocks e)"
  shows "bl_head s e = \<lparr>bl_SeqNums = map (\<lambda>i. bl_seqNumAt e (int i)) [0..<unat s - unat (bl_StartBlock e)],
    bl_StartBlock = bl_StartBlock e, bl_ObjectID = bl_ObjectID e, bl_SeqNum = bl_seqNumAt e 0,
    bl_ObjectOffset = bl_ObjectOffset e, bl_NumBlocks = SafeIntToUint16 (int (unat s - unat (bl_StartBlock e)))\<rparr>"
proof -
  let ?n = "unat s - unat (bl_StartBlock e)"
  have "SafeUint64ToInt (s - bl_StartBlock e) = int ?n"
    using cut_bounds(1,2) [OF assms] by (subst SafeUint64ToInt_small) simp_all
  then show ?thesis unfolding bl_head_def Let_def using sliceSeqNums_nat [of e 0 ?n] by simp
qed

lemma bl_tail_nat:
  assumes "bl_StartBlock e < s" "unat s < unat (bl_StartBlock e) + unat (bl_NumBlocks e)"
  defines "off \<equiv> unat s - unat (bl_StartBlock e)"
  defines "len \<equiv> unat (bl_StartBlock e) + unat (bl_NumBlocks e) - unat s"
  shows "bl_tail stride s e = \<lparr>bl_SeqNums = map (\<lambda>i. bl_seqNumAt e (int i)) [off..<off + len],
    bl_StartBlock = s, bl_ObjectID = bl_ObjectID e, bl_SeqNum = bl_seqNumAt e (int off),
    bl_ObjectOffset = bl_offsetAt e (int off) stride, bl_NumBlocks = SafeIntToUint16 (int len)\<rparr>"
proof -
  have "SafeUint64ToInt (s - bl_StartBlock e) = int off" "SafeUint64ToInt (bl_end e - s) = int len"
    using cut_bounds [OF assms(1,2)] unfolding bl_end_def off_def len_def
    by (subst SafeUint64ToInt_small; simp)+
  then show ?thesis unfolding bl_tail_def Let_def using sliceSeqNums_nat [of e off "off + len"] by simp
qed

lemma bl_seqNumAt_map:
  "bl_SeqNums bl = map f [a..<b] \<Longrightarrow> i < b - a \<Longrightarrow> bl_seqNumAt bl (int i) = f (a + i)"
  by (simp add: bl_seqNumAt_def del: of_nat_diff)

interpretation blm: extent_ops bl_StartBlock bl_NumBlocks "bl_cell stride" bl_shape bl_head "bl_tail stride"
  for stride :: u32
proof (unfold_locales, goal_cases)
  case (1 s e)
  show ?case by (simp add: bl_head_def Let_def)
next
  case (2 e s)
  then show ?case using cut_bounds [OF 2(2,3)] by (simp add: bl_head_nat unat_SafeIntToUint16 del: of_nat_diff)
next
  case (3 e s i)
  then have "bl_seqNumAt (bl_head s e) (int i) = bl_seqNumAt e (int i)"
    using bl_seqNumAt_map [of "bl_head s e" "\<lambda>i. bl_seqNumAt e (int i)" 0] by (simp add: bl_head_nat)
  moreover have "bl_ObjectID (bl_head s e) = bl_ObjectID e" "bl_ObjectOffset (bl_head s e) = bl_ObjectOffset e"
    by (simp_all add: bl_head_def Let_def)
  ultimately show ?case by (simp add: bl_cell_def bl_offsetAt_def)
next
  case (4 e s)
  then show ?case by simp
next
  case (5 s e)
  show ?case by (simp add: bl_tail_def Let_def)
next
  case (6 e s)
  then show ?case using cut_bounds [OF 6(2,3)] unfolding bl_tail_nat [OF 6(2,3)]
    by (simp add: unat_SafeIntToUint16 del: of_nat_diff of_nat_add)
next
  case (7 e s i)
  let ?off = "unat s - unat (bl_StartBlock e)"
  have i: "?off < 65536" "i < 65536" using cut_bounds [OF 7(2,3)] 7(4) by linarith+
  have "bl_offsetAt (bl_tail stride s e) (int i) stride = bl_offsetAt e (int (?off + i)) stride"
    using i bl_offsetAt_nat [of "?off + i" e stride] unfolding bl_tail_nat [OF 7(2,3)]
    by (simp add: bl_offsetAt_nat distrib_right add.assoc del: of_nat_diff)
  moreover have "bl_seqNumAt (bl_tail stride s e) (int i) = bl_seqNumAt e (int (?off + i))"
    using 7(4) bl_seqNumAt_map [of "bl_tail stride s e" "\<lambda>i. bl_seqNumAt e (int i)" ?off]
    by (simp add: bl_tail_nat [OF 7(2,3)])
  moreover have "bl_ObjectID (bl_tail stride s e) = bl_ObjectID e" using 7(2,3) by (simp add: bl_tail_nat)
  ultimately show ?case by (simp add: bl_cell_def)
qed

text \<open>The code's lookups and loops are those of the interface.\<close>

lemma bl_end_eq: "blm.ext_end = bl_end"
  by (auto simp: blm.ext_end_def bl_end_def)

lemma insertKey_fst: "fst (insertKey ns ne stride k s) = blm.fracture_at stride ns ne k (fst s)"
  by (auto simp: insertKey_def blm.fracture_at_def bl_end_eq Let_def split: option.splits)

lemma insertKeys_fst:
  "fst (fold (insertKey ns ne stride) ks s) = blm.fracture stride ns ne ks (fst s)"
  by (induction ks arbitrary: s) (simp_all add: insertKey_fst)

lemma insertCoalescedLocked_fst:
  "fst (insertCoalescedLocked e stride s) =
     gput (bl_StartBlock e) e (blm.fracture stride (bl_StartBlock e) (blm.ext_end e) (map fst (fst s)) (fst s))"
  by (simp add: insertCoalescedLocked_def Let_def insertKeys_fst bl_end_eq)

lemma resolveBlockLookup_eq:
  assumes "blm.emap_ok m"
  shows "resolveBlockLookup m b = map_option (\<lambda>e. (e, int (unat b - unat (bl_StartBlock e)))) (blm.entry_at m b)"
proof (cases "map_of m b")
  case (Some e)
  then have st: "bl_StartBlock e = b" "blm.ext_ok e" using blm.emap_okD [OF assms] by blast+
  then have "blm.entry_at m b = Some e" using Some blm.entry_at_iff [OF assms] blm.covers_start by metis
  then show ?thesis using Some st by (simp add: resolveBlockLookup_def)
next
  case None
  have cov: "bl_StartBlock (snd p) < b \<and> b < bl_end (snd p) \<longleftrightarrow> blm.covers (snd p) b" if "p \<in> set m" for p
  proof -
    have "map_of m (fst p) = Some (snd p)" using that blm.emap_okD(1) [OF assms] by simp
    then have "bl_StartBlock (snd p) \<noteq> b" using None blm.emap_okD(2) [OF assms] by force
    then show ?thesis by (auto simp: blm.covers_def bl_end_eq)
  qed
  have f: "find (\<lambda>p. bl_StartBlock (snd p) < b \<and> b < bl_end (snd p)) m = find (\<lambda>p. blm.covers (snd p) b) m"
    by (intro find_cong) (auto simp: cov)
  have pos: "SafeUint64ToInt (b - bl_StartBlock e) = int (unat b - unat (bl_StartBlock e))"
    if "blm.entry_at m b = Some e" for e
  proof -
    have e: "blm.ext_ok e" "blm.covers e b"
      using that blm.entry_at_iff [OF assms] blm.emap_okD [OF assms] by metis+
    then have r: "unat (bl_StartBlock e) \<le> unat b" "unat b < unat (bl_StartBlock e) + unat (bl_NumBlocks e)"
      using blm.covers_iff by auto
    then have "unat b - unat (bl_StartBlock e) < 65536" using unat_less_2p16 [of "bl_NumBlocks e"] by linarith
    then show ?thesis using r by (subst SafeUint64ToInt_small) (simp_all add: unat_minus_le)
  qed
  show ?thesis using None pos unfolding resolveBlockLookup_def blm.entry_at_def f
    by (auto split: option.splits)
qed

text \<open>\<open>LookupBlockToObject\<close>: location and sequence number of a block, \<open>ErrZeroBlock\<close> as \<open>None\<close>.\<close>

definition LookupBlockToObject :: "BlocksToObject \<Rightarrow> u32 \<Rightarrow> u64 \<Rightarrow> (u64 \<times> u32 \<times> u64) option" where
  "LookupBlockToObject bto stride block =
     (case resolveBlockLookup (bto_BlockLookup bto) block of
        Some (bl, pos) \<Rightarrow> Some (bl_ObjectID bl, bl_offsetAt bl pos stride, bl_seqNumAt bl pos)
      | None \<Rightarrow> None)"

lemma LookupBlockToObject_eq:
  "blm.emap_ok (bto_BlockLookup bto) \<Longrightarrow>
     LookupBlockToObject bto stride b = blm.cell_at stride (bto_BlockLookup bto) b"
  by (simp add: LookupBlockToObject_def resolveBlockLookup_eq blm.cell_at_def bl_cell_def split: option.splits)

lemma insertCoalescedLocked_spec:
  assumes "blm.emap_ok m" "blm.ext_ok e"
  shows "blm.emap_ok (fst (insertCoalescedLocked e stride (m, gc)))"
    "blm.cell_at stride (fst (insertCoalescedLocked e stride (m, gc))) b =
       (if blm.covers e b then Some (bl_cell stride e (unat b - unat (bl_StartBlock e))) else blm.cell_at stride m b)"
  using blm.replace_run [OF assms] by (simp_all add: insertCoalescedLocked_fst)

text \<open>
  C10. Inserting a run into the block map makes every block of the run resolve to its slot in the new
  chunk, with its own sequence number, and leaves the resolution of every other block unchanged, even
  when the run cuts older entries into a head and a tail.
\<close>

theorem insert_resolves:
  assumes "blm.emap_ok (bto_BlockLookup bto)" "blm.ext_ok e"
  shows "LookupBlockToObject
      (bto\<lparr>bto_BlockLookup := fst (insertCoalescedLocked e stride (bto_BlockLookup bto, gc))\<rparr>) stride b =
    (if bl_StartBlock e \<le> b \<and> b < bl_end e
     then Some (bl_ObjectID e, bl_offsetAt e (int (unat b - unat (bl_StartBlock e))) stride,
                bl_seqNumAt e (int (unat b - unat (bl_StartBlock e))))
     else LookupBlockToObject bto stride b)"
  using insertCoalescedLocked_spec [OF assms] assms(1)
  by (simp add: LookupBlockToObject_eq bl_cell_def blm.covers_def bl_end_eq)

definition demoRun :: "u64 \<Rightarrow> u64 \<Rightarrow> u64 list \<Rightarrow> BlockLookup" where
  "demoRun start obj sqs = \<lparr>bl_SeqNums = sqs, bl_StartBlock = start, bl_ObjectID = obj, bl_SeqNum = hd sqs,
     bl_ObjectOffset = 10, bl_NumBlocks = of_nat (length sqs)\<rparr>"

lemma demoRun_ok: "blm.ext_ok (demoRun 4 1 [7, 8, 9])" "blm.ext_ok (demoRun 5 2 [11])"
  by (simp_all add: blm.ext_ok_def demoRun_def)

theorem insert_resolves_witness:
  "LookupBlockToObject \<lparr>bto_dirty = False, bto_BlockLookup =
      fst (insertCoalescedLocked (demoRun 5 2 [11]) 4096
        (fst (insertCoalescedLocked (demoRun 4 1 [7, 8, 9]) 4096 ([], None)), None))\<rparr> 4096 6 = Some (1, 8202, 9)"
proof -
  let ?m = "fst (insertCoalescedLocked (demoRun 4 1 [7, 8, 9]) 4096 ([], None))"
  have "blm.emap_ok ?m" using insertCoalescedLocked_spec(1) [OF blm.emap_ok_Nil demoRun_ok(1)] .
  then have "LookupBlockToObject (\<lparr>bto_dirty = False, bto_BlockLookup = ?m\<rparr>\<lparr>bto_BlockLookup :=
      fst (insertCoalescedLocked (demoRun 5 2 [11]) 4096 (bto_BlockLookup \<lparr>bto_dirty = False, bto_BlockLookup = ?m\<rparr>, None))\<rparr>) 4096 6
      = LookupBlockToObject \<lparr>bto_dirty = False, bto_BlockLookup = ?m\<rparr> 4096 6"
    by (subst insert_resolves [OF _ demoRun_ok(2)]) (simp_all add: demoRun_def bl_end_def)
  also have "\<dots> = Some (1, 8202, 9)"
    by (simp add: LookupBlockToObject_def insertCoalescedLocked_def resolveBlockLookup_def demoRun_def bl_end_def
        Let_def bl_offsetAt_def bl_seqNumAt_def SafeUint64ToInt_def SafeIntToUint32_def)
  finally show ?thesis by simp
qed

section \<open>Reference counts\<close>

definition refsTo :: "u64 \<Rightarrow> (u64, BlockLookup) gomap \<Rightarrow> nat" where
  "refsTo obj m = gsum (\<lambda>e. if bl_ObjectID e = obj then 1 else 0) m"

definition refs_exact :: "(u64, BlockLookup) gomap \<Rightarrow> gcRefcount \<Rightarrow> bool" where
  "refs_exact m gc \<longleftrightarrow> (case gc of None \<Rightarrow> True | Some rc \<Rightarrow> \<forall>obj. unat (gcount rc obj) = refsTo obj m)"

lemma refsTo_le: "refsTo obj m \<le> length m"
  unfolding refsTo_def by (induction m) auto

lemma refsTo_gdel:
  "gomap_ok m \<Longrightarrow> map_of m k = Some e \<Longrightarrow>
     refsTo obj m = refsTo obj (gdel k m) + (if bl_ObjectID e = obj then 1 else 0)"
  unfolding refsTo_def by (subst gsum_gdel [of m _ k]) simp_all

lemma refsTo_gput:
  "map_of m k = None \<Longrightarrow> refsTo obj (gput k e m) = refsTo obj m + (if bl_ObjectID e = obj then 1 else 0)"
  unfolding refsTo_def by (subst gsum_gput_new) simp_all

lemma refs_exact_dec:
  assumes "refs_exact m gc" "gomap_ok m" "map_of m k = Some e"
  shows "refs_exact (gdel k m) (gcDec (bl_ObjectID e) gc)"
proof (cases gc)
  case None
  then show ?thesis by (simp add: refs_exact_def gcDec_def)
next
  case (Some rc)
  let ?o = "bl_ObjectID e"
  have ex: "unat (gcount rc obj) = refsTo obj (gdel k m) + (if ?o = obj then 1 else 0)" for obj
    using assms Some refsTo_gdel [OF assms(2,3)] by (simp add: refs_exact_def)
  then have pos: "0 < gcount rc ?o" using ex [of ?o] by (simp add: word_less_nat_alt)
  have "unat (gcount rc ?o - 1) = refsTo ?o (gdel k m)"
    using ex [of ?o] pos by (simp add: unat_minus_one word_gt_0)
  then show ?thesis using Some pos ex by (simp add: refs_exact_def gcDec_def)
qed

text \<open>A counter cannot wrap around: the block number space has no room for that many entries.\<close>

definition keys_ok :: "(u64, BlockLookup) gomap \<Rightarrow> bool" where
  "keys_ok m \<longleftrightarrow> gomap_ok m \<and> map_of m 18446744073709551615 = None"

lemma keys_ok_length:
  assumes "keys_ok m" "map_of m k = None" "k \<noteq> 18446744073709551615"
  shows "length m < 18446744073709551615"
proof -
  have "fst ` set m \<subseteq> UNIV - {k, 18446744073709551615}"
    using assms by (auto simp: keys_ok_def map_of_eq_None_iff)
  then have "card (fst ` set m) \<le> card (UNIV - {k, 18446744073709551615 :: u64})" by (intro card_mono) simp_all
  also have "\<dots> = 18446744073709551614" using assms(3) by (simp add: card_Diff_subset card_word)
  finally show ?thesis using assms(1) distinct_card [of "map fst m"] by (simp add: keys_ok_def)
qed

lemma keys_ok_gput: "keys_ok m \<Longrightarrow> k \<noteq> 18446744073709551615 \<Longrightarrow> keys_ok (gput k e m)"
  by (simp add: keys_ok_def)

lemma keys_ok_gdel: "keys_ok m \<Longrightarrow> keys_ok (gdel k m)"
  by (simp add: keys_ok_def)

lemma start_not_max:
  assumes "blm.ext_ok e"
  shows "bl_StartBlock e \<noteq> 18446744073709551615"
proof
  assume "bl_StartBlock e = 18446744073709551615"
  then show False using blm.ext_okD(3) [OF assms] assms by (simp add: blm.ext_ok_def)
qed

lemma emap_keys_ok:
  assumes "blm.emap_ok m"
  shows "keys_ok m"
  using blm.emap_okD [OF assms] start_not_max unfolding keys_ok_def by (metis not_None_eq)

lemma refs_exact_inc:
  assumes "refs_exact m gc" "map_of m k = None" "keys_ok m" "k \<noteq> 18446744073709551615"
  shows "refs_exact (gput k e m) (gcInc (bl_ObjectID e) gc)"
proof (cases gc)
  case None
  then show ?thesis by (simp add: refs_exact_def gcInc_def)
next
  case (Some rc)
  have ex: "unat (gcount rc obj) = refsTo obj m" for obj using assms Some by (simp add: refs_exact_def)
  have "unat (gcount rc (bl_ObjectID e) + 1) = refsTo (bl_ObjectID e) m + 1"
    using ex refsTo_le [of "bl_ObjectID e" m] keys_ok_length [OF assms(3,2,4)] by (subst unat_plus_nowrap) simp_all
  then show ?thesis using Some ex by (simp add: refs_exact_def gcInc_def refsTo_gput [OF assms(2)])
qed

lemma insertKey_refs:
  assumes "blm.emap_ok m" "ns < ne" "refs_exact m gc"
  shows "refs_exact (fst (insertKey ns ne stride k (m, gc))) (snd (insertKey ns ne stride k (m, gc)))"
proof (cases "\<exists>e. map_of m k = Some e \<and> \<not> blm.clean ns ne e")
  case False
  then have "insertKey ns ne stride k (m, gc) = (m, gc)"
    by (auto simp: insertKey_def blm.clean_def bl_end_eq split: option.splits)
  then show ?thesis using assms(3) by simp
next
  case True
  then obtain e where e: "map_of m k = Some e" "\<not> blm.clean ns ne e" by blast
  note cut = blm.fracture_at_cut(2-4) [OF assms(1) e assms(2)]
  let ?m1 = "gdel k m" and ?gc1 = "gcDec (bl_ObjectID e) gc"
  have 1: "refs_exact ?m1 ?gc1"
    using refs_exact_dec [OF assms(3) blm.emap_okD(1) [OF assms(1)] e(1)] .
  have kmax: "k \<noteq> 18446744073709551615" using start_not_max blm.emap_okD(2,3) [OF assms(1) e(1)] by metis
  have k1: "keys_ok ?m1" using keys_ok_gdel [OF emap_keys_ok [OF assms(1)]] .
  let ?m2 = "if bl_StartBlock e < ns then gput k (bl_head ns e) ?m1 else ?m1"
  let ?gc2 = "if bl_StartBlock e < ns then gcInc (bl_ObjectID e) ?gc1 else ?gc1"
  have obj: "bl_ObjectID (bl_head ns e) = bl_ObjectID e" "bl_ObjectID (bl_tail stride ne e) = bl_ObjectID e"
    by (simp_all add: bl_head_def bl_tail_def Let_def)
  have 2: "refs_exact ?m2 ?gc2"
    using refs_exact_inc [OF 1 _ k1 kmax, of "bl_head ns e"] 1 obj by simp
  have k2: "keys_ok ?m2" using k1 kmax by (simp add: keys_ok_gput)
  let ?m3 = "if ne < bl_end e then gput ne (bl_tail stride ne e) ?m2 else ?m2"
  let ?gc3 = "if ne < bl_end e then gcInc (bl_ObjectID e) ?gc2 else ?gc2"
  have free: "map_of ?m2 ne = None" if "ne < bl_end e"
    using blm.tail_key_free [OF assms(1) e assms(2)] that cut(1,2) by (auto simp: bl_end_eq)
  have 3: "refs_exact ?m3 ?gc3"
  proof (cases "ne < bl_end e")
    case True
    then have "unat ne < unat (bl_end e)" by (simp only: word_less_nat_alt)
    then have "unat ne \<noteq> 18446744073709551615" using unat_less_2p64 [of "bl_end e"] by linarith
    then have "ne \<noteq> 18446744073709551615" by auto
    then show ?thesis using refs_exact_inc [OF 2 free [OF True] k2, of "bl_tail stride ne e"] True obj
      by (simp only: if_True simp_thms)
  next
    case False
    then show ?thesis using 2 by (simp only: if_False)
  qed
  have "insertKey ns ne stride k (m, gc) = (?m3, ?gc3)"
    using e cut(1) by (simp add: insertKey_def blm.clean_def bl_end_eq Let_def)
  then show ?thesis using 3 by simp
qed

lemma insertKeys_refs:
  assumes "blm.emap_ok m" "ns < ne" "refs_exact m gc"
  shows "refs_exact (fst (fold (insertKey ns ne stride) ks (m, gc))) (snd (fold (insertKey ns ne stride) ks (m, gc)))"
  using assms
proof (induction ks arbitrary: m gc)
  case Nil
  then show ?case by simp
next
  case (Cons k ks)
  obtain m' gc' where s: "insertKey ns ne stride k (m, gc) = (m', gc')" by fastforce
  have m': "m' = blm.fracture_at stride ns ne k m" using insertKey_fst [of ns ne stride k "(m, gc)"] s by simp
  have r: "refs_exact m' gc'" using insertKey_refs [OF Cons.prems, of stride k] s by simp
  have "blm.emap_ok m'" unfolding m' by (rule blm.fracture_at_ok [OF Cons.prems(1,2)])
  then show ?case using Cons.IH [OF _ Cons.prems(2) r] s by simp
qed

lemma insertCoalescedLocked_refs:
  assumes "blm.emap_ok m" "blm.ext_ok e" "refs_exact m gc"
  shows "refs_exact (fst (insertCoalescedLocked e stride (m, gc))) (snd (insertCoalescedLocked e stride (m, gc)))"
proof -
  let ?s = "fold (insertKey (bl_StartBlock e) (bl_end e) stride) (map fst m) (m, gc)"
  have lt: "bl_StartBlock e < bl_end e" using blm.ext_okD(5) [OF assms(2)] by (simp add: bl_end_eq)
  have r: "refs_exact (fst ?s) (snd ?s)" using insertKeys_refs [OF assms(1) lt assms(3)] .
  have "map_of (fst ?s) (bl_StartBlock e) = None"
    using blm.fracture_key_free [OF assms(1) lt] by (simp add: insertKeys_fst)
  moreover have "keys_ok (fst ?s)" using emap_keys_ok [OF blm.fracture_ok [OF assms(1) lt]] by (simp add: insertKeys_fst)
  ultimately show ?thesis using refs_exact_inc [OF r _ _ start_not_max [OF assms(2)]]
    by (simp add: insertCoalescedLocked_def Let_def)
qed

text \<open>
  C12. The garbage collector's reference counts stay exact: if every counter equals the number of map
  entries that point into its object, the counters that an insertion leaves behind do too, however
  many older entries it deletes, trims or splits, and no counter ever wraps around.
\<close>

theorem insert_keeps_refcounts:
  assumes "blm.emap_ok m" "blm.ext_ok e" "refs_exact m gc"
  shows "refs_exact (fst (insertCoalescedLocked e stride (m, gc))) (snd (insertCoalescedLocked e stride (m, gc)))"
  by (rule insertCoalescedLocked_refs [OF assms])

theorem insert_keeps_refcounts_witness:
  "refs_exact (fst (insertCoalescedLocked (demoRun 5 2 [11]) 4096 (insertCoalescedLocked (demoRun 4 1 [7, 8, 9]) 4096 ([], Some []))))
     (snd (insertCoalescedLocked (demoRun 5 2 [11]) 4096 (insertCoalescedLocked (demoRun 4 1 [7, 8, 9]) 4096 ([], Some []))))"
proof -
  let ?s = "insertCoalescedLocked (demoRun 4 1 [7, 8, 9]) 4096 ([], Some [])"
  have "refs_exact [] (Some [])" by (simp add: refs_exact_def refsTo_def gcount_def)
  then have "refs_exact (fst ?s) (snd ?s)" by (intro insert_keeps_refcounts [OF blm.emap_ok_Nil demoRun_ok(1)])
  moreover have "blm.emap_ok (fst ?s)" by (rule insertCoalescedLocked_spec(1) [OF blm.emap_ok_Nil demoRun_ok(1)])
  ultimately show ?thesis using insert_keeps_refcounts [OF _ demoRun_ok(2), of "fst ?s" "snd ?s" 4096] by simp
qed

section \<open>Coalescing is faithful\<close>

text \<open>
  A flat map as decoded from checkpoint records: keyed by its own block, one block per entry, no block
  at the very end of the number range, and at most 65535 blocks per object (a chunk of the default
  geometry holds 1024).
\<close>

definition flat_ok :: "(u64, BlockLookup) gomap \<Rightarrow> bool" where
  "flat_ok flat \<longleftrightarrow> gomap_ok flat \<and>
     (\<forall>k e. map_of flat k = Some e \<longrightarrow> bl_StartBlock e = k \<and> k \<noteq> 18446744073709551615) \<and>
     (\<forall>obj. refsTo obj flat \<le> 65535)"

definition flat_cell :: "BlockLookup \<Rightarrow> u64 \<times> u32 \<times> u64" where
  "flat_cell e = (bl_ObjectID e, bl_ObjectOffset e, bl_SeqNum e)"

abbreviation flat_at :: "(u64, BlockLookup) gomap \<Rightarrow> u64 \<Rightarrow> BlockLookup" where
  "flat_at flat k \<equiv> (case map_of flat k of Some bl \<Rightarrow> bl | None \<Rightarrow> zeroLookup)"

lemma flat_okD:
  assumes "flat_ok flat" "map_of flat k = Some e"
  shows "bl_StartBlock e = k" "k \<noteq> 18446744073709551615" "flat_at flat k = e"
  using assms by (auto simp: flat_ok_def)

text \<open>What the inner loop collects.\<close>

lemma coalesceRun_spec:
  "\<exists>n \<le> length ks. coalesceRun flat stride first prev sqs ks =
      (sqs @ map (\<lambda>k. bl_SeqNum (flat_at flat k)) (take n ks), drop n ks) \<and>
    (\<forall>i < n. bl_StartBlock (flat_at flat (ks ! i)) = bl_StartBlock prev + of_nat (Suc i) \<and>
       bl_ObjectID (flat_at flat (ks ! i)) = bl_ObjectID first \<and>
       bl_ObjectOffset (flat_at flat (ks ! i)) = bl_ObjectOffset prev + of_nat (Suc i) * stride)"
proof (induction flat stride first prev sqs ks rule: coalesceRun.induct)
  case (1 flat stride first prev sqs)
  then show ?case by simp
next
  case (2 flat stride first prev sqs k ks)
  let ?c = "flat_at flat k"
  show ?case
  proof (cases "bl_StartBlock ?c = bl_StartBlock prev + 1 \<and> bl_ObjectID ?c = bl_ObjectID first \<and>
      bl_ObjectOffset ?c = bl_ObjectOffset prev + stride")
    case False
    then have "coalesceRun flat stride first prev sqs (k # ks) = (sqs, k # ks)"
      unfolding coalesceRun.simps Let_def by (rule if_not_P)
    then show ?thesis by (intro exI [of _ 0]) simp
  next
    case True
    then obtain n where n: "n \<le> length ks"
      and eq: "coalesceRun flat stride first ?c (sqs @ [bl_SeqNum ?c]) ks =
        ((sqs @ [bl_SeqNum ?c]) @ map (\<lambda>k. bl_SeqNum (flat_at flat k)) (take n ks), drop n ks)"
      and run: "\<And>i. i < n \<Longrightarrow> bl_StartBlock (flat_at flat (ks ! i)) = bl_StartBlock ?c + of_nat (Suc i) \<and>
        bl_ObjectID (flat_at flat (ks ! i)) = bl_ObjectID first \<and>
        bl_ObjectOffset (flat_at flat (ks ! i)) = bl_ObjectOffset ?c + of_nat (Suc i) * stride"
      using "2.IH" [OF refl] by blast
    have "coalesceRun flat stride first prev sqs (k # ks) =
        (sqs @ map (\<lambda>k. bl_SeqNum (flat_at flat k)) (take (Suc n) (k # ks)), drop (Suc n) (k # ks))"
      using True eq by (simp add: Let_def)
    moreover have "bl_StartBlock (flat_at flat ((k # ks) ! i)) = bl_StartBlock prev + of_nat (Suc i) \<and>
        bl_ObjectID (flat_at flat ((k # ks) ! i)) = bl_ObjectID first \<and>
        bl_ObjectOffset (flat_at flat ((k # ks) ! i)) = bl_ObjectOffset prev + of_nat (Suc i) * stride"
      if "i < Suc n" for i
    proof (cases i)
      case 0
      then show ?thesis using True by simp
    next
      case (Suc j)
      then show ?thesis using run [of j] True that by (simp add: distrib_right add.assoc)
    qed
    ultimately show ?thesis using n by (intro exI [of _ "Suc n"]) simp
  qed
qed

lemma distinct_keys_bound:
  assumes "distinct ks" "\<And>k. k \<in> set ks \<Longrightarrow> \<exists>e. map_of m k = Some e \<and> bl_ObjectID e = obj"
  shows "length ks \<le> refsTo obj m"
proof -
  let ?f = "filter (\<lambda>p. bl_ObjectID (snd p) = obj) m"
  have "set ks \<subseteq> fst ` set ?f"
    using assms(2) by (force dest: map_of_SomeD)
  then have "card (set ks) \<le> card (fst ` set ?f)" by (simp add: card_mono)
  also have "\<dots> \<le> length ?f" using card_image_le [of "set ?f" fst] card_length [of ?f] by simp
  also have "\<dots> = refsTo obj m" unfolding refsTo_def by (induction m) simp_all
  finally show ?thesis using distinct_card [OF assms(1)] by simp
qed

text \<open>The run the outer loop builds from the keys \<open>k # ks\<close>, of which it takes \<open>n\<close> further ones.\<close>

lemma mergedRun_spec:
  assumes flat: "flat_ok flat" and sorted: "sorted_wrt (<) (k # ks)"
    and keys: "\<And>x. x \<in> set (k # ks) \<Longrightarrow> map_of flat x \<noteq> None" and n: "n \<le> length ks"
    and run: "\<And>i. i < n \<Longrightarrow> bl_StartBlock (flat_at flat (ks ! i)) = bl_StartBlock (flat_at flat k) + of_nat (Suc i) \<and>
       bl_ObjectID (flat_at flat (ks ! i)) = bl_ObjectID (flat_at flat k) \<and>
       bl_ObjectOffset (flat_at flat (ks ! i)) = bl_ObjectOffset (flat_at flat k) + of_nat (Suc i) * stride"
  defines "e \<equiv> mergedRun (flat_at flat k) (map (\<lambda>x. bl_SeqNum (flat_at flat x)) (take (Suc n) (k # ks)))"
  shows "blm.ext_ok e" "blm.covers e b \<longleftrightarrow> b \<in> set (take (Suc n) (k # ks))"
    "b \<in> set (take (Suc n) (k # ks)) \<Longrightarrow>
       bl_cell stride e (unat b - unat (bl_StartBlock e)) = flat_cell (flat_at flat b)"
proof -
  let ?K = "k # ks"
  have at: "map_of flat x = Some (flat_at flat x)" "bl_StartBlock (flat_at flat x) = x" "x \<noteq> 18446744073709551615"
    if "x \<in> set ?K" for x
    using keys [OF that] flat_okD [OF flat] by force+
  have idx: "x \<in> set (take (Suc n) ?K) \<longleftrightarrow> (\<exists>i \<le> n. x = ?K ! i)" for x
    using n by (auto simp: in_set_conv_nth less_Suc_eq_le simp del: take_Suc_Cons)
  have mem: "?K ! i \<in> set ?K" if "i \<le> n" for i using that n by (intro nth_mem) simp
  have step: "?K ! i = k + of_nat i \<and> bl_ObjectID (flat_at flat (?K ! i)) = bl_ObjectID (flat_at flat k) \<and>
      bl_ObjectOffset (flat_at flat (?K ! i)) = bl_ObjectOffset (flat_at flat k) + of_nat i * stride" if "i \<le> n" for i
  proof (cases i)
    case (Suc j)
    then show ?thesis using run [of j] at(2) [OF mem [OF that]] at(2) [of k] that by simp
  qed simp
  have pos: "unat (?K ! i) = unat k + i" if "i \<le> n" for i
    using that
  proof (induction i)
    case (Suc i)
    then have "?K ! Suc i = ?K ! i + 1" using step [of i] step [of "Suc i"] by simp
    then show ?case using Suc unat_Suc_u64 [OF at(3) [OF mem, of i]] by simp
  qed simp
  have start: "bl_StartBlock e = k" using at(2) [of k] by (simp add: e_def mergedRun_def)
  have "Suc n = length (take (Suc n) ?K)" using n by simp
  also have "\<dots> \<le> refsTo (bl_ObjectID (flat_at flat k)) flat"
  proof (rule distinct_keys_bound)
    show "distinct (take (Suc n) ?K)" using sorted by (intro distinct_take) (auto simp: strict_sorted_iff)
    fix x assume "x \<in> set (take (Suc n) ?K)"
    then obtain i where "i \<le> n" "x = ?K ! i" using idx by blast
    then show "\<exists>e. map_of flat x = Some e \<and> bl_ObjectID e = bl_ObjectID (flat_at flat k)"
      using at(1) [OF mem] step by blast
  qed
  also have "\<dots> \<le> 65535" using flat by (simp add: flat_ok_def)
  finally have small: "Suc n \<le> 65535" .
  have num: "unat (bl_NumBlocks e) = Suc n"
    using small n unat_SafeIntToUint16 [of "Suc n"] by (simp add: e_def mergedRun_def)
  have top: "unat k + n < 18446744073709551615"
    using pos [of n] unat_less_max [OF at(3) [OF mem, of n]] by simp
  show ext: "blm.ext_ok e" using num start top by (auto simp: blm.ext_ok_def)
  show "blm.covers e b \<longleftrightarrow> b \<in> set (take (Suc n) ?K)"
  proof
    assume "blm.covers e b"
    then have r: "unat k \<le> unat b" "unat b < unat k + Suc n" using blm.covers_iff [OF ext] num start by auto
    then have i: "unat b - unat k \<le> n" by linarith
    then have "unat (?K ! (unat b - unat k)) = unat b" using pos r(1) by simp
    then show "b \<in> set (take (Suc n) ?K)" using idx i unat_eq_iff by metis
  next
    assume "b \<in> set (take (Suc n) ?K)"
    then obtain i where "i \<le> n" "b = ?K ! i" using idx by blast
    then show "blm.covers e b" using blm.covers_iff [OF ext] num start pos by simp
  qed
  assume "b \<in> set (take (Suc n) ?K)"
  then obtain i where i: "i \<le> n" "b = ?K ! i" using idx by blast
  have "bl_seqNumAt e (int i) = bl_SeqNum (flat_at flat b)"
    using i n by (simp add: e_def mergedRun_def bl_seqNumAt_def del: take_Suc_Cons)
  moreover have "bl_offsetAt e (int i) stride = bl_ObjectOffset (flat_at flat b)" "bl_ObjectID e = bl_ObjectID (flat_at flat b)"
    using step [OF i(1), folded i(2), THEN conjunct2] i(1) small by (simp_all add: bl_offsetAt_nat e_def mergedRun_def)
  moreover have "unat b - unat (bl_StartBlock e) = i" using pos [OF i(1)] i(2) start by simp
  ultimately show "bl_cell stride e (unat b - unat (bl_StartBlock e)) = flat_cell (flat_at flat b)"
    by (simp add: bl_cell_def flat_cell_def)
qed

lemma coalesceLoop_spec:
  assumes "flat_ok flat" "sorted_wrt (<) ks" "\<And>x. x \<in> set ks \<Longrightarrow> map_of flat x \<noteq> None"
    "blm.emap_ok out" "\<And>x. x \<in> set ks \<Longrightarrow> blm.cell_at stride out x = None"
  shows "blm.emap_ok (coalesceLoop flat stride ks out) \<and>
    (\<forall>b. blm.cell_at stride (coalesceLoop flat stride ks out) b =
       (if b \<in> set ks then Some (flat_cell (flat_at flat b)) else blm.cell_at stride out b))"
  using assms
proof (induction flat stride ks out rule: coalesceLoop.induct)
  case (1 flat stride out)
  then show ?case by simp
next
  case (2 flat stride k ks out)
  let ?f = "flat_at flat k"
  obtain n where n: "n \<le> length ks"
    and r: "coalesceRun flat stride ?f ?f [bl_SeqNum ?f] ks =
      ([bl_SeqNum ?f] @ map (\<lambda>x. bl_SeqNum (flat_at flat x)) (take n ks), drop n ks)"
    and run: "\<And>i. i < n \<Longrightarrow> bl_StartBlock (flat_at flat (ks ! i)) = bl_StartBlock ?f + of_nat (Suc i) \<and>
       bl_ObjectID (flat_at flat (ks ! i)) = bl_ObjectID ?f \<and>
       bl_ObjectOffset (flat_at flat (ks ! i)) = bl_ObjectOffset ?f + of_nat (Suc i) * stride"
    using coalesceRun_spec [of ks flat stride ?f ?f "[bl_SeqNum ?f]"] by blast
  let ?e = "mergedRun ?f (map (\<lambda>x. bl_SeqNum (flat_at flat x)) (take (Suc n) (k # ks)))"
  let ?out = "gput (bl_StartBlock ?e) ?e out"
  have r': "coalesceRun flat stride ?f ?f [bl_SeqNum ?f] ks =
      (map (\<lambda>x. bl_SeqNum (flat_at flat x)) (take (Suc n) (k # ks)), drop n ks)"
    using r by simp
  have loop: "coalesceLoop flat stride (k # ks) out = coalesceLoop flat stride (drop n ks) ?out"
    unfolding coalesceLoop.simps Let_def r' fst_conv snd_conv ..
  note e = mergedRun_spec [OF "2.prems"(1-3) n run]
  have taken: "set (take (Suc n) (k # ks)) \<subseteq> set (k # ks)" by (rule set_take_subset)
  have gap: "blm.cell_at stride out b = None" if "blm.covers ?e b" for b
    using that e(2) "2.prems"(5) taken by blast
  note ins = blm.insert_run [where stride = stride, OF "2.prems"(4) e(1) gap]
  have parts: "set (k # ks) = set (take (Suc n) (k # ks)) \<union> set (drop n ks)"
    by (metis append_take_drop_id drop_Suc_Cons set_append)
  have disj: "x \<notin> set (take (Suc n) (k # ks))" if "x \<in> set (drop n ks)" for x
  proof -
    have "distinct (k # ks)" using "2.prems"(2) by (auto simp: strict_sorted_iff)
    then have "distinct (take (Suc n) (k # ks) @ drop (Suc n) (k # ks))" by (simp only: append_take_drop_id)
    then have "set (take (Suc n) (k # ks)) \<inter> set (drop (Suc n) (k # ks)) = {}" unfolding distinct_append by blast
    then show ?thesis using that by (auto simp only: drop_Suc_Cons)
  qed
  have sub: "x \<in> set (drop n ks) \<Longrightarrow> x \<in> set ks" for x by (rule in_set_dropD)
  have "blm.emap_ok (coalesceLoop flat stride (drop n ks) ?out) \<and>
    (\<forall>b. blm.cell_at stride (coalesceLoop flat stride (drop n ks) ?out) b =
       (if b \<in> set (drop n ks) then Some (flat_cell (flat_at flat b)) else blm.cell_at stride ?out b))"
  proof (rule "2.IH" [OF refl refl refl, unfolded r' fst_conv snd_conv])
    show "flat_ok flat" by (rule "2.prems")
    show "sorted_wrt (<) (drop n ks)" using "2.prems"(2) by (simp add: sorted_wrt_drop)
    show "map_of flat x \<noteq> None" if "x \<in> set (drop n ks)" for x using "2.prems"(3) sub [OF that] by simp
    show "blm.emap_ok ?out" by (rule ins(1))
    show "blm.cell_at stride ?out x = None" if "x \<in> set (drop n ks)" for x
      using ins(2) [of x] e(2) [of x] disj [OF that] "2.prems"(5) sub [OF that] by simp
  qed
  moreover have "blm.cell_at stride ?out b =
      (if b \<in> set (take (Suc n) (k # ks)) then Some (flat_cell (flat_at flat b)) else blm.cell_at stride out b)" for b
    using ins(2) [of b] e(2,3) [of b] by simp
  ultimately show ?case unfolding loop using parts by auto
qed

lemma coalesceBlockLookup_spec:
  assumes "flat_ok flat"
  shows "blm.emap_ok (coalesceBlockLookup flat stride)"
    "blm.cell_at stride (coalesceBlockLookup flat stride) b = map_option flat_cell (map_of flat b)"
proof -
  let ?ks = "sort (map fst flat)"
  have ok: "gomap_ok flat" using assms by (simp add: flat_ok_def)
  have sorted: "sorted_wrt (<) ?ks" using ok by (simp add: strict_sorted_iff)
  have keys: "x \<in> set ?ks \<longleftrightarrow> map_of flat x \<noteq> None" for x
    by (simp add: map_of_eq_None_iff)
  have "blm.emap_ok (coalesceLoop flat stride ?ks []) \<and>
      (\<forall>b. blm.cell_at stride (coalesceLoop flat stride ?ks []) b =
        (if b \<in> set ?ks then Some (flat_cell (flat_at flat b)) else blm.cell_at stride [] b))"
    by (rule coalesceLoop_spec [OF assms sorted]) (simp_all only: keys not_False_eq_True blm.emap_ok_Nil blm.cell_at_Nil)
  moreover have "coalesceBlockLookup flat stride = coalesceLoop flat stride ?ks []"
    by (simp add: coalesceBlockLookup_def)
  ultimately show "blm.emap_ok (coalesceBlockLookup flat stride)"
    "blm.cell_at stride (coalesceBlockLookup flat stride) b = map_option flat_cell (map_of flat b)"
    using keys [of b] by (auto split: option.splits)
qed

text \<open>
  C21. Coalescing loses nothing: after the flat one-record-per-block map of a checkpoint is merged
  into runs, every block still resolves to its own object, offset and sequence number, and blocks
  without a record still resolve to nothing.
\<close>

theorem coalesce_resolves:
  assumes "flat_ok flat"
  shows "LookupBlockToObject \<lparr>bto_dirty = d, bto_BlockLookup = coalesceBlockLookup flat stride\<rparr> stride b =
    map_option (\<lambda>e. (bl_ObjectID e, bl_ObjectOffset e, bl_SeqNum e)) (map_of flat b)"
  using coalesceBlockLookup_spec [OF assms, of stride] LookupBlockToObject_eq
  by (simp add: flat_cell_def [abs_def])

definition demoRecord :: "u64 \<Rightarrow> u64 \<Rightarrow> u32 \<Rightarrow> u64 \<Rightarrow> u64 \<times> BlockLookup" where
  "demoRecord b obj off sq = (b, \<lparr>bl_SeqNums = [], bl_StartBlock = b, bl_ObjectID = obj, bl_SeqNum = sq,
     bl_ObjectOffset = off, bl_NumBlocks = 1\<rparr>)"

lemma flat_ok_demo: "flat_ok [demoRecord 8 1 4106 5, demoRecord 7 1 10 3, demoRecord 9 2 10 6]"
proof -
  have "refsTo obj [demoRecord 8 1 4106 5, demoRecord 7 1 10 3, demoRecord 9 2 10 6] \<le> 65535" for obj
    by (rule order_trans [OF refsTo_le]) simp
  then show ?thesis by (auto simp: flat_ok_def demoRecord_def split: if_splits)
qed

theorem coalesce_resolves_witness:
  "LookupBlockToObject \<lparr>bto_dirty = False, bto_BlockLookup =
      coalesceBlockLookup [demoRecord 8 1 4106 5, demoRecord 7 1 10 3, demoRecord 9 2 10 6] 4096\<rparr> 4096 8 = Some (1, 4106, 5)"
  by (subst coalesce_resolves [OF flat_ok_demo]) (simp add: demoRecord_def)

end
