(* ===== verification/Endian.thy ===== *)
theory Endian
  imports VB_Prelude
begin

text \<open>
  \<open>encoding/binary\<close>'s big-endian accessors and \<open>hash/crc32\<close>'s IEEE checksum, as far as the on-disk
  formats use them: writing a word as bytes, reading it back, and the table-driven checksum update.
\<close>

section \<open>Big-endian words\<close>

definition be_put :: "nat \<Rightarrow> 'a::len word \<Rightarrow> bytes" where
  "be_put n w = map (\<lambda>i. ucast (drop_bit (8 * (n - Suc i)) w)) [0..<n]"

definition be_get :: "bytes \<Rightarrow> 'a::len word" where
  "be_get bs = foldl (\<lambda>a b. push_bit 8 a OR ucast b) 0 bs"

abbreviation PutUint64 :: "u64 \<Rightarrow> bytes" where
  "PutUint64 \<equiv> be_put 8"

abbreviation PutUint32 :: "u32 \<Rightarrow> bytes" where
  "PutUint32 \<equiv> be_put 4"

abbreviation PutUint16 :: "u16 \<Rightarrow> bytes" where
  "PutUint16 \<equiv> be_put 2"

abbreviation GetUint64 :: "bytes \<Rightarrow> u64" where
  "GetUint64 \<equiv> be_get"

abbreviation GetUint32 :: "bytes \<Rightarrow> u32" where
  "GetUint32 \<equiv> be_get"

abbreviation GetUint16 :: "bytes \<Rightarrow> u16" where
  "GetUint16 \<equiv> be_get"

lemma be_put_length [simp]: "length (be_put n w) = n"
  by (simp add: be_put_def)

lemma be_get_snoc: "be_get (bs @ [b]) = (push_bit 8 (be_get bs) OR ucast b :: 'a::len word)"
  by (simp add: be_get_def)

lemma bit_be_get:
  "k < LENGTH('a) \<Longrightarrow> bit (be_get bs :: 'a::len word) k \<longleftrightarrow>
     k < 8 * length bs \<and> bit (bs ! (length bs - Suc (k div 8))) (k mod 8)"
proof (induction bs arbitrary: k rule: rev_induct)
  case Nil
  then show ?case by (simp add: be_get_def)
next
  case (snoc b bs)
  show ?case
  proof (cases "k < 8")
    case True
    then show ?thesis using snoc.prems by (simp add: be_get_snoc bit_simps nth_append)
  next
    case False
    then obtain j where j: "k = j + 8" by (metis le_add_diff_inverse2 not_le)
    have "\<not> bit b k" using False bit_imp_le_length [of b k] by auto
    then have "bit (be_get (bs @ [b]) :: 'a word) k \<longleftrightarrow> bit (be_get bs :: 'a word) j"
      using snoc.prems j by (simp add: be_get_snoc bit_simps)
    also have "\<dots> \<longleftrightarrow> j < 8 * length bs \<and> bit (bs ! (length bs - Suc (j div 8))) (j mod 8)"
      using snoc j by simp
    also have "\<dots> \<longleftrightarrow> k < 8 * length (bs @ [b]) \<and> bit ((bs @ [b]) ! (length (bs @ [b]) - Suc (k div 8))) (k mod 8)"
    proof -
      have "k div 8 = Suc (j div 8)" "k mod 8 = j mod 8" using j by simp_all
      then show ?thesis using j by (auto simp: nth_append)
    qed
    finally show ?thesis .
  qed
qed

lemma bit_be_put:
  "\<lbrakk>i < n; k < 8\<rbrakk> \<Longrightarrow> bit (be_put n w ! i) k \<longleftrightarrow> bit w (8 * (n - Suc i) + k)"
  by (simp add: be_put_def bit_simps add.commute)

lemma be_get_put:
  assumes "LENGTH('a) = 8 * n"
  shows "be_get (be_put n w) = (w :: 'a::len word)"
proof (rule bit_word_eqI)
  fix k assume k: "k < LENGTH('a)"
  then have "k div 8 < n" using assms by (simp add: less_mult_imp_div_less mult.commute)
  then have "bit (be_put n w ! (n - Suc (k div 8))) (k mod 8) \<longleftrightarrow> bit w (8 * (n - Suc (n - Suc (k div 8))) + k mod 8)"
    by (intro bit_be_put) simp_all
  moreover have "8 * (n - Suc (n - Suc (k div 8))) + k mod 8 = k" using \<open>k div 8 < n\<close> by simp
  ultimately show "bit (be_get (be_put n w) :: 'a word) k \<longleftrightarrow> bit w k"
    using k assms by (simp add: bit_be_get)
qed

lemma be_put_get:
  assumes "LENGTH('a) = 8 * length bs"
  shows "be_put (length bs) (be_get bs :: 'a::len word) = bs"
proof (rule nth_equalityI)
  fix i assume "i < length (be_put (length bs) (be_get bs :: 'a word))"
  then have i: "i < length bs" by simp
  show "be_put (length bs) (be_get bs :: 'a word) ! i = bs ! i"
  proof (rule bit_word_eqI)
    fix k assume "k < LENGTH(8)"
    then have k: "k < 8" by simp
    let ?p = "8 * (length bs - Suc i) + k"
    have p: "?p < 8 * length bs" "?p div 8 = length bs - Suc i" "?p mod 8 = k" using i k by auto
    have "bit (be_put (length bs) (be_get bs :: 'a word) ! i) k \<longleftrightarrow> bit (be_get bs :: 'a word) ?p"
      by (rule bit_be_put [OF i k])
    also have "\<dots> \<longleftrightarrow> bit (bs ! (length bs - Suc (?p div 8))) (?p mod 8)"
      using p(1) assms by (simp only: bit_be_get simp_thms)
    also have "length bs - Suc (?p div 8) = i" using p(2) i by simp
    finally show "bit (be_put (length bs) (be_get bs :: 'a word) ! i) k \<longleftrightarrow> bit (bs ! i) k"
      using p(3) by simp
  qed
qed simp

lemma Get_Put [simp]:
  "GetUint64 (PutUint64 w) = w" "GetUint32 (PutUint32 v) = v" "GetUint16 (PutUint16 u) = u"
  by (simp_all add: be_get_put)

lemma Put_inj [simp]:
  "PutUint64 w = PutUint64 w' \<longleftrightarrow> w = w'" "PutUint32 v = PutUint32 v' \<longleftrightarrow> v = v'"
  "PutUint16 u = PutUint16 u' \<longleftrightarrow> u = u'"
  by (metis Get_Put(1)) (metis Get_Put(2), metis Get_Put(3))

section \<open>CRC-32\<close>

text \<open>
  The IEEE polynomial, reflected.  Go builds a table of 256 entries by eight single-bit steps each and
  consumes one byte per table lookup.
\<close>

definition crcPoly :: u32 where
  "crcPoly = 0xedb88320"

definition crcBit :: "u32 \<Rightarrow> u32" where
  "crcBit crc = (if bit crc 0 then drop_bit 1 crc XOR crcPoly else drop_bit 1 crc)"

definition crcTable :: "u8 \<Rightarrow> u32" where
  "crcTable i = (crcBit ^^ 8) (ucast i)"

definition crcByte :: "u32 \<Rightarrow> u8 \<Rightarrow> u32" where
  "crcByte crc v = crcTable (ucast crc XOR v) XOR drop_bit 8 crc"

definition crc32_Update :: "u32 \<Rightarrow> bytes \<Rightarrow> u32" where
  "crc32_Update crc data = NOT (foldl crcByte (NOT crc) data)"

definition crc32_ChecksumIEEE :: "bytes \<Rightarrow> u32" where
  "crc32_ChecksumIEEE data = crc32_Update 0 data"

lemma crc32_Update_append: "crc32_Update (crc32_Update crc a) b = crc32_Update crc (a @ b)"
  by (simp add: crc32_Update_def)

lemma crc32_append: "crc32_Update (crc32_ChecksumIEEE a) b = crc32_ChecksumIEEE (a @ b)"
  by (simp add: crc32_ChecksumIEEE_def crc32_Update_append)

lemma xor_cancel_word: "(x :: 'a::len word) XOR z = y XOR z \<longleftrightarrow> x = y"
proof
  assume "x XOR z = y XOR z"
  then have "(x XOR z) XOR z = (y XOR z) XOR z" by simp
  then show "x = y" by (simp add: xor.assoc)
qed simp

text \<open>One bit step can be undone, so the register never forgets a difference.\<close>

lemma bit_crcPoly: "bit crcPoly 31" "\<not> bit crcPoly 32"
  by (simp_all add: crcPoly_def)

lemma crcBit_inj: "inj crcBit"
proof (rule injI)
  fix x y assume eq: "crcBit x = crcBit y"
  have top: "bit (crcBit z) 31 = bit z 0" for z
    using bit_crcPoly bit_imp_le_length [of z 32] by (auto simp: crcBit_def bit_simps)
  have low: "bit x 0 = bit y 0" using eq top by metis
  have "drop_bit 1 x = drop_bit 1 y"
    using eq low by (auto simp: crcBit_def xor_cancel_word split: if_splits)
  have "bit x k = bit y k" for k
  proof (cases k)
    case 0
    then show ?thesis using low by simp
  next
    case (Suc j)
    have "bit (drop_bit 1 x) j = bit (drop_bit 1 y) j" using \<open>drop_bit 1 x = drop_bit 1 y\<close> by simp
    then show ?thesis using Suc by (simp add: bit_simps)
  qed
  then show "x = y" by (simp add: bit_eq_iff)
qed

text \<open>The bit step is linear, and eight of them on a byte-aligned register are a shift.\<close>

lemma crcBit_xor: "crcBit (x XOR y) = crcBit x XOR crcBit y"
  by (rule bit_word_eqI) (auto simp: crcBit_def bit_simps)

lemma crcBits_xor: "(crcBit ^^ n) (x XOR y) = (crcBit ^^ n) x XOR (crcBit ^^ n) y"
  by (induction n) (simp_all add: crcBit_xor)

lemma crcBits_aligned:
  "(\<forall>k < n. \<not> bit x k) \<Longrightarrow> (crcBit ^^ n) x = drop_bit n x"
proof (induction n arbitrary: x)
  case 0
  then show ?case by simp
next
  case (Suc n)
  have "\<not> bit x 0" using Suc.prems by simp
  then have "crcBit x = drop_bit 1 x" by (simp only: crcBit_def if_False)
  moreover have "\<forall>k < n. \<not> bit (drop_bit 1 x) k" using Suc.prems by (simp add: bit_simps)
  ultimately show ?case using Suc.IH [of "drop_bit 1 x"] by (simp add: funpow_swap1 drop_bit_drop_bit)
qed

lemma crcByte_bits: "crcByte crc v = (crcBit ^^ 8) (crc XOR ucast v)"
proof -
  let ?x = "crc XOR ucast v"
  let ?lo = "ucast (ucast crc XOR v) :: u32"
  let ?hi = "push_bit 8 (drop_bit 8 crc)"
  have split: "?x = ?lo XOR ?hi"
  proof (rule bit_word_eqI)
    fix k assume "k < LENGTH(32)"
    then show "bit ?x k \<longleftrightarrow> bit (?lo XOR ?hi) k"
      using bit_imp_le_length [of v k] by (cases "k < 8") (auto simp: bit_simps)
  qed
  have "(crcBit ^^ 8) ?hi = drop_bit 8 ?hi" by (rule crcBits_aligned) (simp add: bit_simps)
  also have "\<dots> = drop_bit 8 crc"
    by (rule bit_word_eqI) (auto simp: bit_simps dest: bit_imp_le_length)
  finally show ?thesis unfolding split crcBits_xor by (simp add: crcByte_def crcTable_def)
qed

lemma crcByte_inj:
  "crcByte c v = crcByte c' v \<Longrightarrow> c = c'" "crcByte c v = crcByte c v' \<Longrightarrow> v = v'"
proof -
  have inj: "inj (crcBit ^^ 8)" by (rule inj_fn [OF crcBit_inj])
  show "crcByte c v = crcByte c' v \<Longrightarrow> c = c'"
    using injD [OF inj, of "c XOR ucast v" "c' XOR ucast v"] by (simp add: crcByte_bits xor_cancel_word)
  assume "crcByte c v = crcByte c v'"
  then have "ucast v XOR c = ucast v' XOR c"
    using injD [OF inj, of "c XOR ucast v" "c XOR ucast v'"] by (simp only: crcByte_bits xor.commute)
  then have "(ucast v :: u32) = ucast v'" by (simp only: xor_cancel_word)
  moreover have "unat (ucast x :: u32) = unat x" for x :: u8
    by (simp add: unsigned_ucast_eq take_bit_nat_eq_self less_trans [OF unat_less_2p8])
  ultimately show "v = v'" by (metis unat_eq_iff)
qed

lemma crcByte_eval: "crcByte c v = crcBit (crcBit (crcBit (crcBit (crcBit (crcBit (crcBit (crcBit (c XOR ucast v))))))))"
  by (simp add: crcByte_bits numeral_eq_Suc)

lemma crcBit_eval:
  "crcBit (numeral (num.Bit0 n)) = drop_bit 1 (numeral (num.Bit0 n))"
  "crcBit (numeral (num.Bit1 n)) = drop_bit 1 (numeral (num.Bit1 n)) XOR crcPoly"
  "crcBit 0 = 0" "crcBit 1 = crcPoly"
  by (simp_all add: crcBit_def)

lemma ones_u32: "(- 1 :: u32) = 0xffffffff"
  by transfer (simp add: take_bit_eq_mod)

lemma crc32_ChecksumIEEE_eval: "crc32_ChecksumIEEE data = NOT (foldl crcByte 0xffffffff data)"
  by (simp add: crc32_ChecksumIEEE_def crc32_Update_def ones_u32)

lemmas crc_eval = crc32_ChecksumIEEE_eval crcByte_eval crcBit_eval crcPoly_def

lemma crc_fold_inj: "foldl crcByte c s = foldl crcByte c' s \<Longrightarrow> c = c'"
  by (induction s arbitrary: c c') (auto dest: crcByte_inj(1))

lemma crc_single_byte:
  assumes "crc32_ChecksumIEEE (p @ v # s) = crc32_ChecksumIEEE (p @ v' # s)"
  shows "v = v'"
proof -
  have "foldl crcByte (crcByte (foldl crcByte (NOT 0) p) v) s = foldl crcByte (crcByte (foldl crcByte (NOT 0) p) v') s"
    using assms by (simp add: crc32_ChecksumIEEE_def crc32_Update_def)
  then show ?thesis using crc_fold_inj crcByte_inj(2) by blast
qed

text \<open>Two messages that differ in exactly one byte have different checksums, wherever the byte stands.\<close>

lemma crc_detects_single_byte:
  assumes "i < length data" "v \<noteq> data ! i"
  shows "crc32_ChecksumIEEE (data[i := v]) \<noteq> crc32_ChecksumIEEE data"
proof
  assume eq: "crc32_ChecksumIEEE (data[i := v]) = crc32_ChecksumIEEE data"
  have "data = take i data @ data ! i # drop (Suc i) data" using assms(1) by (simp add: id_take_nth_drop)
  then have "crc32_ChecksumIEEE (take i data @ v # drop (Suc i) data) =
      crc32_ChecksumIEEE (take i data @ data ! i # drop (Suc i) data)"
    using eq assms(1) by (metis upd_conv_take_nth_drop)
  then show False using crc_single_byte assms(2) by blast
qed

end
