(* ===== verification/Checkpoint.thy ===== *)
theory Checkpoint
  imports Blockmap Endian
begin

text \<open>
  The block checkpoint: the 34-byte record of one block, the header, serialisation of the block map
  (one record per physical block), and the single walker through which every reader decodes it.
  A walker's callback is modelled by the list of records it has been called with.
\<close>

section \<open>Records\<close>

definition blockWalChunkSize :: nat where
  "blockWalChunkSize = 34"

definition blockCheckpointHeaderSize :: nat where
  "blockCheckpointHeaderSize = 14"

definition blockToObjectWALMagic :: bytes where
  "blockToObjectWALMagic = [0x56, 0x42, 0x57, 0x42]"

definition writeBlockWalChunk :: "BlockLookup \<Rightarrow> bytes" where
  "writeBlockWalChunk block =
     (let data = PutUint64 (bl_StartBlock block) @ PutUint16 (bl_NumBlocks block) @
                 PutUint64 (bl_ObjectID block) @ PutUint32 (bl_ObjectOffset block) @ PutUint64 (bl_SeqNum block)
      in data @ PutUint32 (crc32_ChecksumIEEE data))"

datatype CheckpointError =
    ErrRecordSize
  | ErrRecordChecksum
  | ErrShortHeader
  | ErrMagicMismatch
  | ErrVersionMismatch
  | ErrTrailingBytes

definition slice :: "nat \<Rightarrow> nat \<Rightarrow> 'a list \<Rightarrow> 'a list" where
  "slice a b xs = take (b - a) (drop a xs)"

definition decodeBlockWalChunk :: "bytes \<Rightarrow> CheckpointError + BlockLookup" where
  "decodeBlockWalChunk data =
     (if length data \<noteq> blockWalChunkSize then Inl ErrRecordSize
      else if crc32_ChecksumIEEE (take 30 data) \<noteq> GetUint32 (slice 30 34 data) then Inl ErrRecordChecksum
      else Inr \<lparr>bl_SeqNums = [], bl_StartBlock = GetUint64 (slice 0 8 data),
                bl_ObjectID = GetUint64 (slice 10 18 data), bl_SeqNum = GetUint64 (slice 22 30 data),
                bl_ObjectOffset = GetUint32 (slice 18 22 data), bl_NumBlocks = GetUint16 (slice 8 10 data)\<rparr>)"

definition readBlockWalChunk :: "bytes \<Rightarrow> CheckpointError + BlockLookup" where
  "readBlockWalChunk data = decodeBlockWalChunk data"

section \<open>Whole checkpoints\<close>

text \<open>The header carries the wall-clock time, an argument here.\<close>

definition BlockToObjectWALHeader :: "u16 \<Rightarrow> int \<Rightarrow> bytes" where
  "BlockToObjectWALHeader version now =
     blockToObjectWALMagic @ PutUint16 version @ PutUint64 (SafeInt64ToUint64 now)"

definition serializeCheckpoint :: "u16 \<Rightarrow> int \<Rightarrow> u32 \<Rightarrow> (u64, BlockLookup) gomap \<Rightarrow> bytes" where
  "serializeCheckpoint version now stride m =
     BlockToObjectWALHeader version now @
     concat (map (\<lambda>p. concat (map writeBlockWalChunk (expandBlockLookup (snd p) stride))) m)"

fun walkRecords :: "nat \<Rightarrow> bytes \<Rightarrow> CheckpointError option \<times> BlockLookup list" where
  "walkRecords 0 raw = (None, [])"
| "walkRecords (Suc n) raw =
     (if length raw < blockWalChunkSize then (None, [])
      else case decodeBlockWalChunk (take blockWalChunkSize raw) of
             Inl e \<Rightarrow> (Some e, [])
           | Inr block \<Rightarrow> (case walkRecords n (drop blockWalChunkSize raw) of (e, bs) \<Rightarrow> (e, block # bs)))"

text \<open>The loop runs at most once per byte, so the length bounds it.\<close>

definition walkBlockCheckpoint :: "bytes \<Rightarrow> u16 \<Rightarrow> bytes \<Rightarrow> CheckpointError option \<times> BlockLookup list" where
  "walkBlockCheckpoint raw version walMagic =
     (if length raw < blockCheckpointHeaderSize then (Some ErrShortHeader, [])
      else if take 4 raw \<noteq> walMagic then (Some ErrMagicMismatch, [])
      else if GetUint16 (slice 4 6 raw) \<noteq> version then (Some ErrVersionMismatch, [])
      else if (length raw - blockCheckpointHeaderSize) mod blockWalChunkSize \<noteq> 0 then (Some ErrTrailingBytes, [])
      else walkRecords (length raw) (drop blockCheckpointHeaderSize raw))"

definition flatMap :: "BlockLookup list \<Rightarrow> (u64, BlockLookup) gomap" where
  "flatMap bs = foldl (\<lambda>m b. gput (bl_StartBlock b) b m) [] bs"

definition ParseBlockCheckpointBytes :: "bytes \<Rightarrow> u16 \<Rightarrow> CheckpointError + (u64, BlockLookup) gomap" where
  "ParseBlockCheckpointBytes raw version =
     (case walkBlockCheckpoint raw version blockToObjectWALMagic of
        (Some e, _) \<Rightarrow> Inl e
      | (None, bs) \<Rightarrow> Inr (flatMap bs))"

section \<open>Record codec\<close>

lemma slice_append_left: "length xs = a \<Longrightarrow> slice a b (xs @ ys) = take (b - a) ys"
  by (simp add: slice_def)

lemma writeBlockWalChunk_length [simp]: "length (writeBlockWalChunk b) = 34"
  by (simp add: writeBlockWalChunk_def Let_def)

lemma decode_write:
  "decodeBlockWalChunk (writeBlockWalChunk b) = Inr (b\<lparr>bl_SeqNums := []\<rparr>)"
  by (cases b) (simp add: decodeBlockWalChunk_def writeBlockWalChunk_def blockWalChunkSize_def Let_def slice_def)

text \<open>
  C22. A checkpoint record with one corrupted byte is rejected: whichever of its 34 bytes is changed,
  in the fields or in the checksum, decoding fails with a checksum mismatch and never returns a
  location or a sequence number.
\<close>

theorem record_detects_corruption:
  assumes "i < 34" "v \<noteq> writeBlockWalChunk b ! i"
  shows "decodeBlockWalChunk ((writeBlockWalChunk b)[i := v]) = Inl ErrRecordChecksum"
proof -
  let ?r = "writeBlockWalChunk b" and ?r' = "(writeBlockWalChunk b)[i := v]"
  have crc: "crc32_ChecksumIEEE (take 30 ?r) = GetUint32 (slice 30 34 ?r)"
    by (simp add: writeBlockWalChunk_def Let_def slice_def)
  have "crc32_ChecksumIEEE (take 30 ?r') \<noteq> GetUint32 (slice 30 34 ?r')"
  proof (cases "i < 30")
    case True
    then have "take 30 ?r' = (take 30 ?r)[i := v]" "slice 30 34 ?r' = slice 30 34 ?r"
      by (simp_all add: take_update_swap slice_def)
    moreover have "crc32_ChecksumIEEE ((take 30 ?r)[i := v]) \<noteq> crc32_ChecksumIEEE (take 30 ?r)"
      by (rule crc_detects_single_byte) (use True assms(2) in simp_all)
    ultimately show ?thesis using crc by simp
  next
    case False
    then have t: "take 30 ?r' = take 30 ?r" by simp
    have "slice 30 34 ?r' \<noteq> slice 30 34 ?r"
    proof
      assume "slice 30 34 ?r' = slice 30 34 ?r"
      then have "slice 30 34 ?r' ! (i - 30) = slice 30 34 ?r ! (i - 30)" by simp
      then show False using False assms by (simp add: slice_def)
    qed
    moreover have "GetUint32 xs = GetUint32 ys \<Longrightarrow> length xs = 4 \<Longrightarrow> length ys = 4 \<Longrightarrow> xs = ys" for xs ys
      using be_put_get [where ?'a = 32, of xs] be_put_get [where ?'a = 32, of ys] by simp
    ultimately have "GetUint32 (slice 30 34 ?r') \<noteq> GetUint32 (slice 30 34 ?r)" by (force simp: slice_def)
    then show ?thesis using crc t by simp
  qed
  then show ?thesis by (simp add: decodeBlockWalChunk_def blockWalChunkSize_def)
qed

theorem record_detects_corruption_witness:
  "decodeBlockWalChunk ((writeBlockWalChunk zeroLookup)[3 := 1]) = Inl ErrRecordChecksum"
  by (rule record_detects_corruption)
     (simp_all add: writeBlockWalChunk_def zeroLookup_def Let_def nth_append be_put_def)

section \<open>Walking what was serialised\<close>

lemma walkRecords_written:
  "\<lbrakk>\<forall>r \<in> set rs. bl_SeqNums r = []; length (concat (map writeBlockWalChunk rs)) \<le> n\<rbrakk>
     \<Longrightarrow> walkRecords n (concat (map writeBlockWalChunk rs)) = (None, rs)"
proof (induction rs arbitrary: n)
  case Nil
  then show ?case by (cases n) (simp_all add: blockWalChunkSize_def)
next
  case (Cons r rs)
  then obtain n' where n: "n = Suc n'" by (cases n) simp_all
  have "r\<lparr>bl_SeqNums := []\<rparr> = r" using Cons.prems(1) by (cases r) simp
  then show ?case using Cons n by (simp add: blockWalChunkSize_def decode_write)
qed

lemma writeRecords_length: "length (concat (map writeBlockWalChunk rs)) = 34 * length rs"
  by (induction rs) simp_all

definition checkpointRecords :: "u32 \<Rightarrow> (u64, BlockLookup) gomap \<Rightarrow> BlockLookup list" where
  "checkpointRecords stride m = concat (map (\<lambda>p. expandBlockLookup (snd p) stride) m)"

lemma serializeCheckpoint_records:
  "serializeCheckpoint version now stride m =
     BlockToObjectWALHeader version now @ concat (map writeBlockWalChunk (checkpointRecords stride m))"
  unfolding serializeCheckpoint_def checkpointRecords_def by (induction m) simp_all

lemma walk_serialized:
  "walkBlockCheckpoint (serializeCheckpoint version now stride m) version blockToObjectWALMagic =
     (None, checkpointRecords stride m)"
proof -
  let ?rs = "checkpointRecords stride m"
  have plain: "\<forall>r \<in> set ?rs. bl_SeqNums r = []"
    by (auto simp: checkpointRecords_def expandBlockLookup_def)
  have "walkRecords n (concat (map writeBlockWalChunk ?rs)) = (None, ?rs)"
    if "34 * length ?rs \<le> n" for n
    by (rule walkRecords_written [OF plain]) (simp add: writeRecords_length that)
  then show ?thesis
    unfolding serializeCheckpoint_records
    by (simp add: walkBlockCheckpoint_def BlockToObjectWALHeader_def blockToObjectWALMagic_def
        blockCheckpointHeaderSize_def blockWalChunkSize_def writeRecords_length slice_def)
qed

text \<open>The flat map holds, for each block, a record of that block.\<close>

lemma flatMap_snoc: "flatMap (rs @ [r]) = gput (bl_StartBlock r) r (flatMap rs)"
  by (simp add: flatMap_def)

lemma flatMap_ok: "gomap_ok (flatMap rs)"
  by (induction rs rule: rev_induct) (simp_all add: flatMap_snoc, simp add: flatMap_def)

lemma flatMap_get:
  "(map_of (flatMap rs) b = None \<longleftrightarrow> (\<forall>r \<in> set rs. bl_StartBlock r \<noteq> b)) \<and>
   (\<forall>r. map_of (flatMap rs) b = Some r \<longrightarrow> r \<in> set rs \<and> bl_StartBlock r = b)"
  by (induction rs rule: rev_induct) (auto simp: flatMap_snoc, auto simp: flatMap_def)

lemma refsTo_gput_le: "refsTo obj (gput k r m) \<le> refsTo obj m + (if bl_ObjectID r = obj then 1 else 0)"
  unfolding refsTo_def by (induction m) auto

lemma refsTo_flatMap: "refsTo obj (flatMap rs) \<le> length (filter (\<lambda>r. bl_ObjectID r = obj) rs)"
proof (induction rs rule: rev_induct)
  case Nil
  then show ?case by (simp add: flatMap_def refsTo_def)
next
  case (snoc r rs)
  then show ?case using refsTo_gput_le [of obj "bl_StartBlock r" r "flatMap rs"] by (auto simp: flatMap_snoc)
qed

text \<open>A map whose checkpoint fits the geometry: no object holds more than 65535 blocks.\<close>

definition blocksOf :: "u64 \<Rightarrow> (u64, BlockLookup) gomap \<Rightarrow> nat" where
  "blocksOf obj m = gsum (\<lambda>e. if bl_ObjectID e = obj then unat (bl_NumBlocks e) else 0) m"

lemma filter_records:
  "length (filter (\<lambda>r. bl_ObjectID r = obj) (checkpointRecords stride m)) = blocksOf obj m"
proof (induction m)
  case Nil
  then show ?case by (simp add: checkpointRecords_def blocksOf_def)
next
  case (Cons p m)
  have "length (filter (\<lambda>r. bl_ObjectID r = obj) (expandBlockLookup (snd p) stride)) =
      (if bl_ObjectID (snd p) = obj then unat (bl_NumBlocks (snd p)) else 0)"
    by (simp add: expandBlockLookup_def filter_map comp_def)
  then show ?case using Cons by (simp add: checkpointRecords_def blocksOf_def)
qed

lemma record_of_cell:
  assumes "blm.emap_ok m" "r \<in> set (checkpointRecords stride m)"
  shows "blm.cell_at stride m (bl_StartBlock r) = Some (flat_cell r)" "bl_StartBlock r \<noteq> 18446744073709551615"
proof -
  obtain k e where ke: "(k, e) \<in> set m" and r: "r \<in> set (expandBlockLookup e stride)"
    using assms(2) by (auto simp: checkpointRecords_def)
  then have mk: "map_of m k = Some e" using blm.emap_okD(1) [OF assms(1)] by simp
  have ok: "blm.ext_ok e" by (rule blm.emap_okD(3) [OF assms(1) mk])
  obtain i where i: "i < unat (bl_NumBlocks e)" and
    r': "bl_StartBlock r = bl_StartBlock e + of_nat i" "flat_cell r = bl_cell stride e i"
    using r by (auto simp: expandBlockLookup_def flat_cell_def bl_cell_def)
  have top: "unat (bl_StartBlock e) + unat (bl_NumBlocks e) < 18446744073709551616"
    using ok by (simp add: blm.ext_ok_def)
  have "unat (of_nat i :: u64) = i" using i top by (intro unat_of_nat_u64) linarith
  then have u: "unat (bl_StartBlock r) = unat (bl_StartBlock e) + i"
    unfolding r'(1) using i top by (subst unat_plus_nowrap) simp_all
  have "blm.covers e (bl_StartBlock r)" using blm.covers_iff [OF ok] u i by simp
  then show "blm.cell_at stride m (bl_StartBlock r) = Some (flat_cell r)"
    using blm.cell_at_entry [OF assms(1) mk, of "bl_StartBlock r" stride] u r'(2) by simp
  have "unat (bl_StartBlock r) < unat (18446744073709551615 :: u64)" using u i top by simp
  then show "bl_StartBlock r \<noteq> 18446744073709551615" by (metis less_irrefl)
qed

lemma cell_has_record:
  assumes "blm.emap_ok m" "blm.cell_at stride m b \<noteq> None"
  shows "\<exists>r \<in> set (checkpointRecords stride m). bl_StartBlock r = b"
proof -
  obtain k e where mk: "map_of m k = Some e" and cov: "blm.covers e b"
    using assms(2) unfolding blm.cell_at_None_iff [OF assms(1)] by blast
  have ok: "blm.ext_ok e" by (rule blm.emap_okD(3) [OF assms(1) mk])
  let ?i = "unat b - unat (bl_StartBlock e)"
  have i: "?i < unat (bl_NumBlocks e)" "unat (bl_StartBlock e) \<le> unat b"
    using cov blm.covers_iff [OF ok, of b] by linarith+
  have "bl_StartBlock e + of_nat ?i = b"
    using i(2) by (simp add: of_nat_diff)
  moreover have "(k, e) \<in> set m" using mk by (rule map_of_SomeD)
  ultimately show ?thesis using i(1)
    by (force simp: checkpointRecords_def expandBlockLookup_def)
qed

lemma flatMap_cells:
  assumes "blm.emap_ok m"
  shows "\<forall>obj. refsTo obj (flatMap (checkpointRecords stride m)) \<le> 65535 \<Longrightarrow> flat_ok (flatMap (checkpointRecords stride m))"
    "map_option flat_cell (map_of (flatMap (checkpointRecords stride m)) b) = blm.cell_at stride m b"
proof -
  let ?rs = "checkpointRecords stride m"
  have get: "r \<in> set ?rs \<and> bl_StartBlock r = b" if "map_of (flatMap ?rs) b = Some r" for b r
    using flatMap_get [of ?rs b] that by blast
  show "\<forall>obj. refsTo obj (flatMap ?rs) \<le> 65535 \<Longrightarrow> flat_ok (flatMap ?rs)"
    using get record_of_cell(2) [OF assms] flatMap_ok unfolding flat_ok_def by metis
  show "map_option flat_cell (map_of (flatMap ?rs) b) = blm.cell_at stride m b"
  proof (cases "map_of (flatMap ?rs) b")
    case None
    then have "blm.cell_at stride m b = None"
      using flatMap_get [of ?rs b] cell_has_record [OF assms, of stride b] by blast
    then show ?thesis using None by simp
  next
    case (Some r)
    then show ?thesis using get [OF Some] record_of_cell(1) [OF assms, of r stride] by auto
  qed
qed

lemma checkpoint_reload:
  assumes "blm.emap_ok m" "\<forall>obj. blocksOf obj m \<le> 65535"
  shows "flat_ok (flatMap (checkpointRecords stride m))"
    "map_option flat_cell (map_of (flatMap (checkpointRecords stride m)) b) = blm.cell_at stride m b"
proof -
  have "refsTo obj (flatMap (checkpointRecords stride m)) \<le> 65535" for obj
    using refsTo_flatMap [of obj "checkpointRecords stride m"] filter_records [of obj stride m] assms(2) by (metis order_trans)
  then show "flat_ok (flatMap (checkpointRecords stride m))"
    "map_option flat_cell (map_of (flatMap (checkpointRecords stride m)) b) = blm.cell_at stride m b"
    using flatMap_cells [OF assms(1)] by simp_all
qed

text \<open>
  C11. A block map survives a checkpoint: serialising the coalesced map to one record per block,
  parsing the bytes back and coalescing the records again yields a map in which every block resolves
  to exactly the object, offset and sequence number it resolved to before.
\<close>

theorem checkpoint_roundtrip:
  assumes "blm.emap_ok (bto_BlockLookup bto)" "\<forall>obj. blocksOf obj (bto_BlockLookup bto) \<le> 65535"
  shows "\<exists>flat. ParseBlockCheckpointBytes (serializeCheckpoint version now stride (bto_BlockLookup bto)) version = Inr flat \<and>
    LookupBlockToObject (bto\<lparr>bto_BlockLookup := coalesceBlockLookup flat stride\<rparr>) stride b =
      LookupBlockToObject bto stride b"
proof (intro exI conjI)
  let ?flat = "flatMap (checkpointRecords stride (bto_BlockLookup bto))"
  show "ParseBlockCheckpointBytes (serializeCheckpoint version now stride (bto_BlockLookup bto)) version = Inr ?flat"
    by (simp add: ParseBlockCheckpointBytes_def walk_serialized)
  note co = coalesceBlockLookup_spec [OF checkpoint_reload(1) [OF assms], of stride]
  show "LookupBlockToObject (bto\<lparr>bto_BlockLookup := coalesceBlockLookup ?flat stride\<rparr>) stride b =
      LookupBlockToObject bto stride b"
    using co checkpoint_reload(2) [OF assms, of stride b] assms(1) by (simp add: LookupBlockToObject_eq)
qed

theorem checkpoint_roundtrip_witness:
  "\<exists>flat. ParseBlockCheckpointBytes (serializeCheckpoint 1 0 4096 [(4, demoRun 4 1 [7, 8, 9])]) 1 = Inr flat \<and>
    LookupBlockToObject \<lparr>bto_dirty = False, bto_BlockLookup = coalesceBlockLookup flat 4096\<rparr> 4096 5 = Some (1, 4106, 8)"
proof -
  let ?bto = "\<lparr>bto_dirty = False, bto_BlockLookup = [(4, demoRun 4 1 [7, 8, 9])]\<rparr>"
  have "blm.emap_ok (bto_BlockLookup ?bto)"
    using blm.insert_run(1) [OF blm.emap_ok_Nil demoRun_ok(1)] by (simp add: demoRun_def)
  moreover have "\<forall>obj. blocksOf obj (bto_BlockLookup ?bto) \<le> 65535"
    by (simp add: blocksOf_def demoRun_def)
  moreover have "LookupBlockToObject ?bto 4096 5 = Some (1, 4106, 8)"
    by (simp add: LookupBlockToObject_def resolveBlockLookup_def demoRun_def bl_end_def bl_offsetAt_def
        bl_seqNumAt_def SafeUint64ToInt_def SafeIntToUint32_def)
  ultimately show ?thesis using checkpoint_roundtrip [of ?bto 1 0 4096 5] by auto
qed

text \<open>
  C23. A checkpoint that was cut short is refused: removing up to 33 bytes from the end of a
  non-empty serialised checkpoint never yields a shorter block map, only an error.
\<close>

theorem truncated_checkpoint_refused:
  fixes version :: u16 and now :: int
  assumes "0 < c" "c < 34" "checkpointRecords stride m \<noteq> []"
  defines "raw \<equiv> serializeCheckpoint version now stride m"
  shows "ParseBlockCheckpointBytes (take (length raw - c) raw) version = Inl ErrTrailingBytes"
proof -
  let ?n = "34 * length (checkpointRecords stride m)"
  have len: "length raw = 14 + ?n"
    by (simp add: raw_def serializeCheckpoint_records BlockToObjectWALHeader_def blockToObjectWALMagic_def writeRecords_length)
  have n: "34 \<le> ?n" using assms(3) by (cases "checkpointRecords stride m") simp_all
  have "(?n - c) mod 34 \<noteq> 0"
  proof
    assume "(?n - c) mod 34 = 0"
    moreover have "?n mod 34 = 0" by simp
    ultimately have "c mod 34 = 0" using n assms(2) by (metis diff_diff_cancel dvd_diff_nat less_imp_le mod_0_imp_dvd mod_eq_0_iff_dvd order_trans)
    then show False using assms(1,2) by simp
  qed
  moreover have "take 4 raw = blockToObjectWALMagic" "GetUint16 (slice 4 6 raw) = version"
    by (simp_all add: raw_def serializeCheckpoint_def BlockToObjectWALHeader_def blockToObjectWALMagic_def slice_def)
  moreover have "length (take (length raw - c) raw) = 14 + (?n - c)" using len n assms(2) by simp
  moreover have "take 4 (take (length raw - c) raw) = take 4 raw"
    "slice 4 6 (take (length raw - c) raw) = slice 4 6 raw"
  proof -
    have "6 \<le> length raw - c" using len n assms(2) by linarith
    then show "take 4 (take (length raw - c) raw) = take 4 raw"
      "slice 4 6 (take (length raw - c) raw) = slice 4 6 raw"
      by (simp_all add: slice_def drop_take min_def)
  qed
  ultimately show ?thesis
    by (simp add: ParseBlockCheckpointBytes_def walkBlockCheckpoint_def blockCheckpointHeaderSize_def
        blockWalChunkSize_def del: take_take length_take)
qed

theorem truncated_checkpoint_refused_witness:
  "ParseBlockCheckpointBytes (take (length (serializeCheckpoint 1 0 4096 [(4, demoRun 4 1 [7, 8, 9])]) - 5)
      (serializeCheckpoint 1 0 4096 [(4, demoRun 4 1 [7, 8, 9])])) 1 = Inl ErrTrailingBytes"
  by (rule truncated_checkpoint_refused)
     (simp_all add: checkpointRecords_def expandBlockLookup_def demoRun_def)

end
