(* ===== verification/Crypto.thy ===== *)
theory Crypto
  imports Endian
begin

text \<open>
  The nonce, associated-data and metadata-tag helpers of \<open>viperblock/crypto.go\<close>.  AES-GCM itself is
  not part of the repository: it is a pair of functions the definitions take as an argument, with its
  documented behaviour (\<open>aead_ok\<close>) as a hypothesis where a property relies on it.
\<close>

section \<open>Nonces and associated data\<close>

definition DomainChunk :: u8 where "DomainChunk = 0"
definition DomainWAL :: u8 where "DomainWAL = 1"
definition DomainVBStateMeta :: u8 where "DomainVBStateMeta = 2"
definition DomainSnapshotMeta :: u8 where "DomainSnapshotMeta = 3"

definition MaxSeqNum :: u64 where
  "MaxSeqNum = 72057594037927935"

text \<open>\<open>VolumeUUID\<close> is a four-byte array and \<open>volumeNameHash\<close> a thirty-two byte one.\<close>

definition makeNonce :: "u64 \<Rightarrow> bytes \<Rightarrow> u8 \<Rightarrow> bytes" where
  "makeNonce seqNum volumeUUID domain =
     [ucast (drop_bit 48 seqNum AND 0xff), ucast (drop_bit 40 seqNum AND 0xff),
      ucast (drop_bit 32 seqNum AND 0xff), ucast (drop_bit 24 seqNum AND 0xff),
      ucast (drop_bit 16 seqNum AND 0xff), ucast (drop_bit 8 seqNum AND 0xff),
      ucast (seqNum AND 0xff)] @ take 4 volumeUUID @ [domain]"

definition AADLen :: nat where
  "AADLen = 48"

definition makeAAD :: "bytes \<Rightarrow> u64 \<Rightarrow> u64 \<Rightarrow> bytes" where
  "makeAAD volumeNameHash blockNum seqNum = take 32 volumeNameHash @ PutUint64 blockNum @ PutUint64 seqNum"

text \<open>\<open>copy(aad[0:32], hash)\<close> and the two \<open>PutUint64\<close> calls on a 48-byte buffer.\<close>

definition initAAD :: "bytes \<Rightarrow> bytes \<Rightarrow> bytes" where
  "initAAD aad volumeNameHash = take 32 volumeNameHash @ drop 32 aad"

definition updateAAD :: "bytes \<Rightarrow> u64 \<Rightarrow> u64 \<Rightarrow> bytes" where
  "updateAAD aad blockNum seqNum = take 32 aad @ PutUint64 blockNum @ PutUint64 seqNum @ drop 48 aad"

text \<open>Go strings are byte strings.\<close>

definition stringBytes :: "string \<Rightarrow> bytes" where
  "stringBytes s = map (\<lambda>c. of_nat (of_char c)) s"

definition makeMetaAAD :: "bytes \<Rightarrow> string \<Rightarrow> u64 \<Rightarrow> bytes" where
  "makeMetaAAD volumeNameHash domainTag stateSeqNum =
     take 32 volumeNameHash @ stringBytes domainTag @ PutUint64 stateSeqNum"

section \<open>Sealing\<close>

record AEAD =
  aead_Seal :: "bytes \<Rightarrow> bytes \<Rightarrow> bytes \<Rightarrow> bytes"
  aead_Open :: "bytes \<Rightarrow> bytes \<Rightarrow> bytes \<Rightarrow> bytes option"

definition aead_Overhead :: nat where
  "aead_Overhead = 16"

text \<open>
  What the code relies on of AES-GCM: opening a sealed message under the same nonce and associated
  data returns it, the tag costs sixteen bytes, and opening succeeds on no other ciphertext.
\<close>

definition aead_ok :: "AEAD \<Rightarrow> bool" where
  "aead_ok a \<longleftrightarrow> (\<forall>n p d. aead_Open a n (aead_Seal a n p d) d = Some p) \<and>
     (\<forall>n p d. length (aead_Seal a n p d) = length p + aead_Overhead) \<and>
     (\<forall>n c d p. aead_Open a n c d = Some p \<longrightarrow> c = aead_Seal a n p d)"

lemma aead_okD:
  assumes "aead_ok a"
  shows "aead_Open a n (aead_Seal a n p d) d = Some p" "length (aead_Seal a n p d) = length p + 16"
    "aead_Open a n c d = Some p \<Longrightarrow> c = aead_Seal a n p d"
  using assms by (auto simp: aead_ok_def aead_Overhead_def)

text \<open>\<open>base64.StdEncoding\<close>.\<close>

definition base64Char :: "nat \<Rightarrow> u8" where
  "base64Char n = of_nat (if n < 26 then 65 + n else if n < 52 then 97 + (n - 26)
     else if n < 62 then 48 + (n - 52) else if n = 62 then 43 else 47)"

fun base64 :: "bytes \<Rightarrow> bytes" where
  "base64 (a # b # c # r) =
     base64Char (unat a div 4) # base64Char (unat a mod 4 * 16 + unat b div 16) #
     base64Char (unat b mod 16 * 4 + unat c div 64) # base64Char (unat c mod 64) # base64 r"
| "base64 [a, b] =
     [base64Char (unat a div 4), base64Char (unat a mod 4 * 16 + unat b div 16), base64Char (unat b mod 16 * 4), 61]"
| "base64 [a] = [base64Char (unat a div 4), base64Char (unat a mod 4 * 16), 61, 61]"
| "base64 [] = []"

definition metaTag :: "AEAD \<Rightarrow> bytes \<Rightarrow> bytes \<Rightarrow> bytes \<Rightarrow> bytes" where
  "metaTag aead jsonBytes aad nonce = aead_Seal aead nonce [] (aad @ jsonBytes)"

text \<open>The envelope is the verbatim payload between fixed JSON text and the base64 tag.\<close>

definition sealMeta :: "AEAD \<Rightarrow> bytes \<Rightarrow> bytes \<Rightarrow> bytes \<Rightarrow> bytes" where
  "sealMeta aead jsonBytes aad nonce =
     stringBytes (CHR 0x7B # CHR 0x22 # ''v'' @ CHR 0x22 # '':1,'' @ CHR 0x22 # ''payload'' @ CHR 0x22 # '':'') @
     jsonBytes @
     stringBytes ('','' @ CHR 0x22 # ''authtag'' @ CHR 0x22 # '':'' @ [CHR 0x22]) @
     base64 (metaTag aead jsonBytes aad nonce) @ stringBytes [CHR 0x22, CHR 0x7D]"

datatype MetaError =
    ErrTagLength
  | ErrOpen

definition verifyMeta :: "AEAD \<Rightarrow> bytes \<Rightarrow> bytes \<Rightarrow> bytes \<Rightarrow> bytes \<Rightarrow> MetaError option" where
  "verifyMeta aead payload tag aad nonce =
     (if length tag \<noteq> aead_Overhead then Some ErrTagLength
      else case aead_Open aead nonce tag (aad @ payload) of
             None \<Rightarrow> Some ErrOpen
           | Some _ \<Rightarrow> None)"

section \<open>Properties\<close>

lemma makeNonce_length: "length u = 4 \<Longrightarrow> length (makeNonce s u d) = 12"
  by (simp add: makeNonce_def)

lemma nonce_prefix: "take 7 (makeNonce s u d) = drop 1 (PutUint64 s)"
proof -
  have upt8: "[0..<8] = [0, 1, 2, 3, 4, 5, 6, 7]" by (simp add: upt_rec)
  have m: "(0xff :: u64) = mask 8" by (simp add: mask_eq_exp_minus_1)
  have mask: "ucast (x AND 0xff) = (ucast x :: u8)" for x :: u64
    unfolding m by (rule bit_word_eqI) (auto simp: bit_simps)
  show ?thesis by (simp add: makeNonce_def be_put_def upt8 mask)
qed

lemma seqNum_top_byte:
  assumes "s \<le> MaxSeqNum"
  shows "PutUint64 s ! 0 = 0"
proof -
  have "unat s \<le> 72057594037927935" using assms by (simp add: MaxSeqNum_def word_le_nat_alt)
  then have "s < 72057594037927936" by (simp add: word_less_nat_alt)
  then have "s div 72057594037927936 = 0" by (rule div_word_less)
  moreover have "drop_bit 56 s = s div 2 ^ 56" by (rule drop_bit_eq_div)
  moreover have "(2 :: u64) ^ 56 = 72057594037927936" by simp
  ultimately have "drop_bit 56 s = 0" by (simp only:)
  then show ?thesis by (simp add: be_put_def)
qed

lemma makeNonce_inj:
  assumes "s \<le> MaxSeqNum" "s' \<le> MaxSeqNum" "length u = 4" "length u' = 4"
    "makeNonce s u d = makeNonce s' u' d'"
  shows "s = s' \<and> u = u' \<and> d = d'"
proof -
  have "drop 1 (PutUint64 s) = drop 1 (PutUint64 s')"
    using arg_cong [OF assms(5), of "take 7"] by (simp only: nonce_prefix)
  moreover have "PutUint64 x = PutUint64 x ! 0 # drop 1 (PutUint64 x)" for x
    using Cons_nth_drop_Suc [of 0 "PutUint64 x"] by simp
  ultimately have "PutUint64 s = PutUint64 s'" using seqNum_top_byte assms(1,2) by metis
  moreover have "drop 7 (makeNonce s u d) = drop 7 (makeNonce s' u' d')" using assms(5) by simp
  ultimately show ?thesis using assms(3,4) by (simp add: makeNonce_def)
qed

text \<open>
  C14. Nonces never collide: as long as sequence numbers stay within 56 bits, two nonces are equal
  only when sequence number, volume identifier and domain are all equal, so chunk, WAL and metadata
  seals of one volume use disjoint nonce spaces and distinct writes distinct nonces.
\<close>

theorem makeNonce_injective:
  assumes "s \<le> MaxSeqNum" "s' \<le> MaxSeqNum" "length u = 4" "length u' = 4"
    "makeNonce s u d = makeNonce s' u' d'"
  shows "s = s' \<and> u = u' \<and> d = d'"
  by (rule makeNonce_inj [OF assms])

theorem makeNonce_injective_witness: "makeNonce 258 [1, 2, 3, 4] DomainWAL \<noteq> makeNonce 258 [1, 2, 3, 4] DomainChunk"
proof
  assume "makeNonce 258 [1, 2, 3, 4] DomainWAL = makeNonce 258 [1, 2, 3, 4] DomainChunk"
  then show False
    using makeNonce_injective [of 258 258 "[1, 2, 3, 4]" "[1, 2, 3, 4]" DomainWAL DomainChunk]
    by (simp add: MaxSeqNum_def DomainWAL_def DomainChunk_def)
qed

text \<open>
  C29. The reused associated-data buffer of the hot loops is always right: initialising a 48-byte
  buffer once and overwriting its suffix for each block, any number of times, leaves exactly the
  associated data \<open>makeAAD\<close> builds for the last block.
\<close>

theorem aad_buffer_equivalence:
  assumes "length buf = AADLen" "length h = 32" "us \<noteq> []"
  shows "foldl (\<lambda>a (b, s). updateAAD a b s) (initAAD buf h) us = makeAAD h (fst (last us)) (snd (last us))"
proof -
  have "take 32 a = h \<Longrightarrow> length a = 48 \<Longrightarrow>
      foldl (\<lambda>a (b, s). updateAAD a b s) a us = (if us = [] then a else makeAAD h (fst (last us)) (snd (last us)))" for a
  proof (induction us arbitrary: a)
    case (Cons p us)
    obtain b s where p: "p = (b, s)" by (cases p)
    have u: "updateAAD a b s = makeAAD h b s" using Cons.prems assms(2) by (simp add: updateAAD_def makeAAD_def)
    have "take 32 (updateAAD a b s) = h" "length (updateAAD a b s) = 48"
      using u assms(2) by (simp_all add: makeAAD_def)
    then show ?case using Cons.IH [of "updateAAD a b s"] u p by simp
  qed simp
  moreover have "take 32 (initAAD buf h) = h" "length (initAAD buf h) = 48"
    using assms by (simp_all add: initAAD_def AADLen_def)
  ultimately show ?thesis using assms(3) by simp
qed

theorem aad_buffer_equivalence_witness:
  "foldl (\<lambda>a (b, s). updateAAD a b s) (initAAD (replicate 48 0) (replicate 32 7)) [(1, 2), (3, 4)] =
     makeAAD (replicate 32 7) 3 4"
  using aad_buffer_equivalence [of "replicate 48 0" "replicate 32 7" "[(1, 2), (3, 4)]"] by (simp add: AADLen_def)

text \<open>
  C30. Metadata tags authenticate: a payload verifies under the tag that was computed for it, and
  under AES-GCM's guarantees a tag accepted for a payload is the tag of exactly that payload,
  associated data and nonce.
\<close>

theorem verifyMeta_authenticates:
  assumes "aead_ok aead"
  shows "verifyMeta aead payload (metaTag aead payload aad nonce) aad nonce = None \<and>
    (verifyMeta aead payload tag aad nonce = None \<longrightarrow> tag = metaTag aead payload aad nonce)"
proof -
  have "p = []" if "aead_Open aead nonce tag (aad @ payload) = Some p" "length tag = 16" for p
    using aead_okD(2,3) [OF assms] that by (metis add_cancel_left_left length_0_conv)
  then show ?thesis
    using aead_okD [OF assms] by (auto simp: verifyMeta_def metaTag_def aead_Overhead_def split: option.splits if_splits)
qed

definition toyAEAD :: AEAD where
  "toyAEAD = \<lparr>aead_Seal = (\<lambda>n p d. p @ replicate 16 0),
     aead_Open = (\<lambda>n c d. if 16 \<le> length c \<and> drop (length c - 16) c = replicate 16 0
                          then Some (take (length c - 16) c) else None)\<rparr>"

lemma toyAEAD_ok: "aead_ok toyAEAD"
proof -
  have "c = take (length c - 16) c @ replicate 16 0"
    if "drop (length c - 16) c = replicate 16 0" for c :: bytes
    using that append_take_drop_id [of "length c - 16" c] by metis
  then show ?thesis by (auto simp: aead_ok_def toyAEAD_def aead_Overhead_def)
qed

theorem verifyMeta_authenticates_witness:
  "verifyMeta toyAEAD [1] (metaTag toyAEAD [1] [2] []) [2] [] = None"
  using verifyMeta_authenticates [OF toyAEAD_ok] by blast

end
