(* ===== verification/Wal.thy ===== *)
theory Wal
  imports Blockstore Crypto Utils_Types
begin

text \<open>
  The write-ahead log: record layout, the append with roll-back of a torn write (\<open>WriteWAL\<close>), the
  sharded append that has none (\<open>WriteShardedWAL\<close>), and the tolerant reader used for recovery.  A log
  file is its byte contents.  What the operating system does with a call (how many bytes a write
  stores, whether it or the truncation fails, whether a read fails) is an argument.
\<close>

section \<open>Layout\<close>

definition walMagic :: "bool \<Rightarrow> bytes" where
  "walMagic encrypted = (if encrypted then [0x56, 0x42, 0x57, 0x45] else [0x56, 0x42, 0x57, 0x4C])"

text \<open>The parts of the volume the log code reads.\<close>

record WalParams =
  wp_encrypted :: bool
  wp_aead :: AEAD
  wp_uuid :: bytes
  wp_nameHash :: bytes
  wp_version :: u16
  wp_blockSize :: u32

definition WALHeaderSize :: nat where
  "WALHeaderSize = 4 + 2 + 4 + 8"

definition WALHeader :: "WalParams \<Rightarrow> int \<Rightarrow> bytes" where
  "WALHeader wp now = walMagic (wp_encrypted wp) @ PutUint16 (wp_version wp) @ PutUint32 (wp_blockSize wp) @
     PutUint64 (SafeInt64ToUint64 now)"

definition recordHead :: "Block \<Rightarrow> bytes" where
  "recordHead block = PutUint64 (bk_SeqNum block) @ PutUint64 (bk_Block block) @ PutUint64 (bk_Len block)"

definition plainRecord :: "Block \<Rightarrow> bytes" where
  "plainRecord block =
     recordHead block @ PutUint32 (crc32_Update (crc32_ChecksumIEEE (recordHead block)) (bk_Data block)) @
     bk_Data block"

definition sealedRecord :: "WalParams \<Rightarrow> Block \<Rightarrow> bytes" where
  "sealedRecord wp block =
     recordHead block @
     aead_Seal (wp_aead wp) (makeNonce (bk_SeqNum block) (wp_uuid wp) DomainWAL) (bk_Data block)
       (updateAAD (initAAD (replicate AADLen 0) (wp_nameHash wp)) (bk_Block block) (bk_SeqNum block))"

definition walRecord :: "WalParams \<Rightarrow> Block \<Rightarrow> bytes" where
  "walRecord wp block = (if wp_encrypted wp then sealedRecord wp block else plainRecord block)"

section \<open>Appending\<close>

record OsWrite =
  os_statOk :: bool
  os_n :: nat
  os_err :: bool
  os_truncOk :: bool

datatype WalError =
    PanicNoWal
  | ErrWalStat
  | ErrWalTruncate
  | ErrWalWrite
  | ErrWalShort

text \<open>\<open>WriteWAL\<close>: append one record to the current log file; the flag is \<open>WAL.dirty\<close>.\<close>

definition WriteWAL :: "WalParams \<Rightarrow> OsWrite \<Rightarrow> Block \<Rightarrow> bytes \<times> bool \<Rightarrow> WalError option \<times> bytes \<times> bool" where
  "WriteWAL wp os block st =
     (let record = walRecord wp block; file = fst st; preSize = length file;
          n = min (os_n os) (length record); file' = file @ take n record
      in if \<not> os_statOk os then (Some ErrWalStat, st)
         else if os_err os \<or> n \<noteq> length record
         then if \<not> os_truncOk os then (Some ErrWalTruncate, file', True)
              else if os_err os then (Some ErrWalWrite, take preSize file', True)
              else (Some ErrWalShort, take preSize file', True)
         else (None, file', True))"

definition WriteShardedWAL :: "OsWrite \<Rightarrow> Block \<Rightarrow> bytes \<times> bool \<Rightarrow> WalError option \<times> bytes \<times> bool" where
  "WriteShardedWAL os block st =
     (let record = plainRecord block; n = min (os_n os) (length record); file' = fst st @ take n record
      in (if n \<noteq> length record then Some ErrWalShort else if os_err os then Some ErrWalWrite else None,
          file', True))"

section \<open>Recovery\<close>

datatype RecoveryError =
    ErrWalOpen
  | ErrWalHeaderRead
  | ErrPreEncryptionFormat
  | ErrWalMagic
  | ErrWalVersion
  | ErrWalBlockSize
  | ErrWalRead
  | ErrWalIntegrity

definition headBlock :: "bytes \<Rightarrow> bytes \<Rightarrow> Block" where
  "headBlock record data = \<lparr>bk_Data = data, bk_SeqNum = GetUint64 (take 8 record),
     bk_Block = GetUint64 (take 8 (drop 8 record)), bk_Offset = 0, bk_Len = GetUint64 (take 8 (drop 16 record))\<rparr>"

text \<open>
  The record loops.  \<open>io\<close> is the number of records after which a read fails with an error that is not
  end of file, if one does.
\<close>

function readPlainRecords :: "nat \<Rightarrow> nat option \<Rightarrow> bytes \<Rightarrow> Block list" where
  "readPlainRecords bs io rest =
     (if io = Some 0 \<or> length rest < 28 + bs then []
      else let record = take (28 + bs) rest
           in if crc32_Update (crc32_ChecksumIEEE (take 24 record)) (drop 28 record) \<noteq>
                 GetUint32 (take 4 (drop 24 record)) then []
              else headBlock record (drop 28 record) #
                   readPlainRecords bs (map_option (\<lambda>k. k - 1) io) (drop (28 + bs) rest))"
  by pat_completeness auto
termination
  by (relation "measure (\<lambda>(bs, io, rest). length rest)") auto

declare readPlainRecords.simps [simp del]

function readSealedRecords :: "WalParams \<Rightarrow> nat \<Rightarrow> nat option \<Rightarrow> bytes \<Rightarrow> RecoveryError + Block list" where
  "readSealedRecords wp bs io rest =
     (if io = Some 0 then Inl ErrWalRead
      else if length rest < 40 + bs then Inr []
      else let record = take (40 + bs) rest;
               seqNum = GetUint64 (take 8 record);
               blockNum = GetUint64 (take 8 (drop 8 record))
           in case aead_Open (wp_aead wp) (makeNonce seqNum (wp_uuid wp) DomainWAL) (drop 24 record)
                     (updateAAD (initAAD (replicate AADLen 0) (wp_nameHash wp)) blockNum seqNum) of
                None \<Rightarrow> Inl ErrWalIntegrity
              | Some plain \<Rightarrow>
                  (case readSealedRecords wp bs (map_option (\<lambda>k. k - 1) io) (drop (40 + bs) rest) of
                     Inl e \<Rightarrow> Inl e
                   | Inr blocks \<Rightarrow> Inr (headBlock record plain # blocks)))"
  by pat_completeness auto
termination
  by (relation "measure (\<lambda>(wp, bs, io, rest). length rest)") auto

declare readSealedRecords.simps [simp del]

definition maxSeq :: "Block list \<Rightarrow> u64" where
  "maxSeq blocks = foldl (\<lambda>m b. max m (bk_SeqNum b)) 0 blocks"

definition readWALFileForRecovery ::
    "WalParams \<Rightarrow> bytes option \<Rightarrow> nat option \<Rightarrow> RecoveryError + Block list \<times> u64" where
  "readWALFileForRecovery wp file io =
     (case file of
        None \<Rightarrow> Inl ErrWalOpen
      | Some raw \<Rightarrow>
          if length raw < WALHeaderSize then Inl ErrWalHeaderRead
          else if take 4 raw \<noteq> walMagic (wp_encrypted wp)
          then (if wp_encrypted wp \<and> take 4 raw = walMagic False then Inl ErrPreEncryptionFormat else Inl ErrWalMagic)
          else if GetUint16 (take 2 (drop 4 raw)) \<noteq> wp_version wp then Inl ErrWalVersion
          else if GetUint32 (take 4 (drop 6 raw)) \<noteq> wp_blockSize wp then Inl ErrWalBlockSize
          else let bs = unat (wp_blockSize wp); rest = drop WALHeaderSize raw
               in if wp_encrypted wp
                  then (case readSealedRecords wp bs io rest of
                          Inl e \<Rightarrow> Inl e
                        | Inr blocks \<Rightarrow> Inr (blocks, maxSeq blocks))
                  else let blocks = readPlainRecords bs io rest in Inr (blocks, maxSeq blocks))"

text \<open>
  \<open>ReadWAL\<close>: the validating scan of the open log from the current file position.  \<open>maxAlloc\<close> is the
  largest slice \<open>make\<close> can allocate.
\<close>

datatype ReadWALError =
    ErrReadIO
  | ErrReadIncomplete
  | ErrReadChecksum
  | PanicMakeslice

function ReadWAL :: "nat \<Rightarrow> nat option \<Rightarrow> bytes \<Rightarrow> ReadWALError option" where
  "ReadWAL maxAlloc io rest =
     (if io = Some 0 then Some ErrReadIO
      else if rest = [] then None
      else let headers = take 28 (take 28 rest @ replicate 28 0);
               len = GetUint64 (take 8 (drop 16 headers));
               data = (if io = Some 1 then [] else take (unat len) (drop 28 rest))
           in if maxAlloc < unat len then Some PanicMakeslice
              else if int (length data) \<noteq> SafeUint64ToInt len then Some ErrReadIncomplete
              else if crc32_Update (crc32_Update (crc32_Update (crc32_ChecksumIEEE (take 8 headers))
                       (take 8 (drop 8 headers))) (take 8 (drop 16 headers))) data \<noteq>
                     GetUint32 (take 4 (drop 24 headers)) then Some ErrReadChecksum
              else ReadWAL maxAlloc (map_option (\<lambda>k. k - (if len = 0 then 1 else 2)) io)
                     (drop (28 + length data) rest))"
  by pat_completeness auto
termination
  by (relation "measure (\<lambda>(m, io, rest). length rest)") auto

declare ReadWAL.simps [simp del]

section \<open>Reading back what was written\<close>

text \<open>A block as the flush path builds it: full-size data and no offset.\<close>

definition wal_block :: "WalParams \<Rightarrow> Block \<Rightarrow> bool" where
  "wal_block wp b \<longleftrightarrow> length (bk_Data b) = unat (wp_blockSize wp) \<and> bk_Offset b = 0"

definition wal_params_ok :: "WalParams \<Rightarrow> bool" where
  "wal_params_ok wp \<longleftrightarrow> (wp_encrypted wp \<longrightarrow> aead_ok (wp_aead wp))"

lemma recordHead_length [simp]: "length (recordHead b) = 24"
  by (simp add: recordHead_def)

lemma recordHead_fields [simp]:
  "GetUint64 (take 8 (recordHead b @ r)) = bk_SeqNum b"
  "GetUint64 (take 8 (drop 8 (recordHead b @ r))) = bk_Block b"
  "GetUint64 (take 8 (drop 16 (recordHead b @ r))) = bk_Len b"
  "GetUint64 (take 8 (recordHead b)) = bk_SeqNum b"
  "GetUint64 (take 8 (drop 8 (recordHead b))) = bk_Block b"
  "GetUint64 (drop 16 (recordHead b)) = bk_Len b"
  by (simp_all add: recordHead_def)

lemma headBlock_head: "bk_Offset b = 0 \<Longrightarrow> headBlock (recordHead b @ r) (bk_Data b) = b"
  by (cases b) (simp add: headBlock_def recordHead_def)

definition recordSize :: "WalParams \<Rightarrow> nat" where
  "recordSize wp = (if wp_encrypted wp then 40 else 28) + unat (wp_blockSize wp)"

lemma walRecord_length:
  "wal_params_ok wp \<Longrightarrow> wal_block wp b \<Longrightarrow> length (walRecord wp b) = recordSize wp"
  using aead_okD(2) by (auto simp: walRecord_def sealedRecord_def plainRecord_def recordSize_def wal_block_def wal_params_ok_def)

lemma readPlain_record:
  assumes "wal_block wp b" "io \<noteq> Some 0"
  shows "readPlainRecords (unat (wp_blockSize wp)) io (plainRecord b @ rest) =
    b # readPlainRecords (unat (wp_blockSize wp)) (map_option (\<lambda>k. k - 1) io) rest"
proof -
  have len: "length (plainRecord b) = 28 + unat (wp_blockSize wp)"
    using assms(1) by (simp add: plainRecord_def wal_block_def)
  then have t: "take (28 + unat (wp_blockSize wp)) (plainRecord b @ rest) = plainRecord b"
    "drop (28 + unat (wp_blockSize wp)) (plainRecord b @ rest) = rest" by simp_all
  have parts: "take 24 (plainRecord b) = recordHead b" "drop 28 (plainRecord b) = bk_Data b"
    "GetUint32 (take 4 (drop 24 (plainRecord b))) = crc32_Update (crc32_ChecksumIEEE (recordHead b)) (bk_Data b)"
    by (simp_all add: plainRecord_def)
  have "headBlock (plainRecord b) (bk_Data b) = b"
    unfolding plainRecord_def using assms(1) by (intro headBlock_head) (simp add: wal_block_def)
  then show ?thesis using len assms(2) by (subst readPlainRecords.simps) (simp add: t parts Let_def)
qed

lemma readSealed_record:
  assumes "wal_block wp b" "aead_ok (wp_aead wp)" "io \<noteq> Some 0"
  shows "readSealedRecords wp (unat (wp_blockSize wp)) io (sealedRecord wp b @ rest) =
    (case readSealedRecords wp (unat (wp_blockSize wp)) (map_option (\<lambda>k. k - 1) io) rest of Inl e \<Rightarrow> Inl e | Inr bs \<Rightarrow> Inr (b # bs))"
proof -
  have len: "length (sealedRecord wp b) = 40 + unat (wp_blockSize wp)"
    using assms(1,2) aead_okD(2) by (simp add: sealedRecord_def wal_block_def)
  then have t: "take (40 + unat (wp_blockSize wp)) (sealedRecord wp b @ rest) = sealedRecord wp b"
    "drop (40 + unat (wp_blockSize wp)) (sealedRecord wp b @ rest) = rest" by simp_all
  have head: "GetUint64 (take 8 (sealedRecord wp b)) = bk_SeqNum b"
    "GetUint64 (take 8 (drop 8 (sealedRecord wp b))) = bk_Block b"
    "headBlock (sealedRecord wp b) (bk_Data b) = b"
    using assms(1) headBlock_head unfolding sealedRecord_def wal_block_def by simp_all
  have "drop 24 (sealedRecord wp b) =
      aead_Seal (wp_aead wp) (makeNonce (bk_SeqNum b) (wp_uuid wp) DomainWAL) (bk_Data b)
        (updateAAD (initAAD (replicate AADLen 0) (wp_nameHash wp)) (bk_Block b) (bk_SeqNum b))"
    by (simp add: sealedRecord_def)
  then show ?thesis using len assms(3) aead_okD(1) [OF assms(2)]
    by (subst readSealedRecords.simps) (simp add: t head Let_def split: sum.splits)
qed

lemma readPlain_tail: "length t < 28 + bs \<Longrightarrow> readPlainRecords bs io t = []"
  by (subst readPlainRecords.simps) simp

lemma readSealed_tail: "length t < 40 + bs \<Longrightarrow> readSealedRecords wp bs None t = Inr []"
  by (subst readSealedRecords.simps) simp

lemma readPlain_records:
  "\<lbrakk>\<forall>b \<in> set blocks. wal_block wp b; length t < 28 + unat (wp_blockSize wp)\<rbrakk> \<Longrightarrow>
     readPlainRecords (unat (wp_blockSize wp)) None (concat (map plainRecord blocks) @ t) = blocks"
  by (induction blocks) (simp_all add: readPlain_tail readPlain_record)

lemma readSealed_records:
  "\<lbrakk>aead_ok (wp_aead wp); \<forall>b \<in> set blocks. wal_block wp b; length t < 40 + unat (wp_blockSize wp)\<rbrakk> \<Longrightarrow>
     readSealedRecords wp (unat (wp_blockSize wp)) None (concat (map (sealedRecord wp) blocks) @ t) = Inr blocks"
  by (induction blocks) (simp_all add: readSealed_tail readSealed_record)

lemma walMagic_length [simp]: "length (walMagic e) = 4"
  by (simp add: walMagic_def)

lemma WALHeader_length [simp]: "length (WALHeader wp now) = WALHeaderSize"
  by (simp add: WALHeader_def WALHeaderSize_def)

lemma WALHeader_fields:
  "take 4 (WALHeader wp now @ r) = walMagic (wp_encrypted wp)"
  "GetUint16 (take 2 (drop 4 (WALHeader wp now @ r))) = wp_version wp"
  "GetUint32 (take 4 (drop 6 (WALHeader wp now @ r))) = wp_blockSize wp"
  "drop WALHeaderSize (WALHeader wp now @ r) = r"
  by (simp_all add: WALHeader_def WALHeaderSize_def)

lemma recovery_header:
  "readWALFileForRecovery wp (Some (WALHeader wp now @ rest)) io =
     (if wp_encrypted wp
      then (case readSealedRecords wp (unat (wp_blockSize wp)) io rest of
              Inl e \<Rightarrow> Inl e | Inr blocks \<Rightarrow> Inr (blocks, maxSeq blocks))
      else Inr (readPlainRecords (unat (wp_blockSize wp)) io rest,
                maxSeq (readPlainRecords (unat (wp_blockSize wp)) io rest)))"
  by (simp add: readWALFileForRecovery_def WALHeader_fields Let_def del: take_append drop_append)

lemma recovery_reads:
  assumes "wal_params_ok wp" "\<forall>b \<in> set blocks. wal_block wp b" "length t < recordSize wp"
  shows "readWALFileForRecovery wp (Some (WALHeader wp now @ concat (map (walRecord wp) blocks) @ t)) None =
    Inr (blocks, maxSeq blocks)"
proof (cases "wp_encrypted wp")
  case True
  then have "walRecord wp = sealedRecord wp" by (simp add: walRecord_def fun_eq_iff)
  with True assms show ?thesis
    by (simp add: recovery_header readSealed_records recordSize_def wal_params_ok_def)
next
  case False
  then have "walRecord wp = plainRecord" by (simp add: walRecord_def fun_eq_iff)
  with False assms show ?thesis by (simp add: recovery_header readPlain_records recordSize_def)
qed

section \<open>A log that is only appended to\<close>

text \<open>A sequence of append attempts, and the blocks whose append was acknowledged.\<close>

fun walRun :: "WalParams \<Rightarrow> (OsWrite \<times> Block) list \<Rightarrow> bytes \<times> bool \<Rightarrow> (bytes \<times> bool) \<times> Block list" where
  "walRun wp [] st = (st, [])"
| "walRun wp ((os, b) # atts) st =
     (case WriteWAL wp os b st of (err, st') \<Rightarrow>
        (case walRun wp atts st' of (st'', acked) \<Rightarrow> (st'', if err = None then b # acked else acked)))"

lemma WriteWAL_boundary:
  assumes "os_truncOk os" "WriteWAL wp os b (file, d) = (err, file', d')"
  shows "file' = file @ (if err = None then walRecord wp b else [])"
  using assms by (auto simp: WriteWAL_def Let_def split: if_splits)

lemma walRun_file:
  "\<lbrakk>\<forall>(os, b) \<in> set atts. os_truncOk os; walRun wp atts (f, d) = ((f', d'), acked)\<rbrakk> \<Longrightarrow>
     f' = f @ concat (map (walRecord wp) acked) \<and> set acked \<subseteq> snd ` set atts"
proof (induction atts arbitrary: f d f' d' acked)
  case (Cons a atts)
  obtain os b where a: "a = (os, b)" by fastforce
  obtain err f1 d1 where w: "WriteWAL wp os b (f, d) = (err, f1, d1)" by (metis prod_cases3)
  obtain f2 d2 acked2 where r: "walRun wp atts (f1, d1) = ((f2, d2), acked2)" by (metis surj_pair)
  have f1: "f1 = f @ (if err = None then walRecord wp b else [])"
    using WriteWAL_boundary [OF _ w] Cons.prems(1) a by auto
  have "f2 = f1 @ concat (map (walRecord wp) acked2) \<and> set acked2 \<subseteq> snd ` set atts"
    using Cons.IH [OF _ r] Cons.prems(1) by auto
  then show ?case using Cons.prems(2) a w r f1 by (auto split: if_splits)
qed auto

text \<open>
  C9. Durability across a crash: start from a fresh log, attempt any appends, each of which the
  operating system may cut short or fail, and crash in the middle of a further record.  As long as the
  roll-back of a failed append works, recovery returns exactly the acknowledged blocks, in order, in
  both the plain and the encrypted format.\<close>

theorem recovery_returns_acked:
  assumes "wal_params_ok wp" "\<forall>(os, b) \<in> set atts. os_truncOk os \<and> wal_block wp b"
    "length torn < recordSize wp"
    "walRun wp atts (WALHeader wp now, False) = ((file, dirty), acked)"
  shows "readWALFileForRecovery wp (Some (file @ torn)) None = Inr (acked, maxSeq acked)"
proof -
  have run: "file = WALHeader wp now @ concat (map (walRecord wp) acked)" "set acked \<subseteq> snd ` set atts"
    using walRun_file [OF _ assms(4)] assms(2) by fastforce+
  then have "\<forall>b \<in> set acked. wal_block wp b" using assms(2) by fastforce
  then show ?thesis using recovery_reads [OF assms(1) _ assms(3)] run(1) by simp
qed

definition demoWp :: "bool \<Rightarrow> WalParams" where
  "demoWp e = \<lparr>wp_encrypted = e, wp_aead = toyAEAD, wp_uuid = [1, 2, 3, 4], wp_nameHash = replicate 32 7,
     wp_version = 1, wp_blockSize = 1\<rparr>"

definition demoBlock :: "u64 \<Rightarrow> u64 \<Rightarrow> u8 \<Rightarrow> Block" where
  "demoBlock s b v = \<lparr>bk_Data = [v], bk_SeqNum = s, bk_Block = b, bk_Offset = 0, bk_Len = 1\<rparr>"

definition demoOs :: "nat \<Rightarrow> OsWrite" where
  "demoOs n = \<lparr>os_statOk = True, os_n = n, os_err = False, os_truncOk = True\<rparr>"

lemma demoWp_sel [simp]:
  "wp_encrypted (demoWp e) = e" "wp_aead (demoWp e) = toyAEAD" "wp_blockSize (demoWp e) = 1"
  by (simp_all add: demoWp_def)

lemma demoWp_ok: "wal_params_ok (demoWp e)"
  by (simp add: wal_params_ok_def demoWp_def toyAEAD_ok)

lemma demoBlock_ok: "wal_block (demoWp e) (demoBlock s b v)"
  by (simp add: wal_block_def demoWp_def demoBlock_def)

theorem recovery_returns_acked_witness:
  "readWALFileForRecovery (demoWp True)
     (Some (fst (fst (walRun (demoWp True) [(demoOs 5, demoBlock 1 3 9), (demoOs 99, demoBlock 2 4 8)]
        (WALHeader (demoWp True) 7, False))) @ [0, 0, 0])) None = Inr ([demoBlock 2 4 8], 2)"
proof -
  let ?atts = "[(demoOs 5, demoBlock 1 3 9), (demoOs 99, demoBlock 2 4 8)]"
  have size: "recordSize (demoWp True) = 41" by (simp add: recordSize_def demoWp_def)
  then have "length (walRecord (demoWp True) (demoBlock s b v)) = 41" for s b v
    using walRecord_length [OF demoWp_ok demoBlock_ok] by simp
  then have "snd (walRun (demoWp True) ?atts (WALHeader (demoWp True) 7, False)) = [demoBlock 2 4 8]"
    by (simp add: WriteWAL_def demoOs_def Let_def)
  then have run: "walRun (demoWp True) ?atts (WALHeader (demoWp True) 7, False) =
      ((fst (fst (walRun (demoWp True) ?atts (WALHeader (demoWp True) 7, False))),
        snd (fst (walRun (demoWp True) ?atts (WALHeader (demoWp True) 7, False)))), [demoBlock 2 4 8])"
    by (metis prod.collapse)
  have "maxSeq [demoBlock 2 4 8] = 2" by (simp add: maxSeq_def demoBlock_def)
  then show ?thesis
    using recovery_returns_acked [OF demoWp_ok _ _ run, of "[0, 0, 0]"] by (simp add: size demoOs_def demoBlock_ok)
qed

section \<open>What recovery accepts\<close>

lemma split_at: "n \<le> length xs \<Longrightarrow> xs = take n xs @ drop n xs \<and> length (take n xs) = n"
  by simp

lemma head_of_record:
  assumes "24 \<le> length record"
  shows "recordHead (headBlock record data) = take 24 record"
proof -
  have "PutUint64 (GetUint64 x) = x" if "length x = 8" for x :: bytes
    using be_put_get [where 'a = 64, of x] that by simp
  then have "recordHead (headBlock record data) = take 8 record @ take 8 (drop 8 record) @ take 8 (drop 16 record)"
    using assms by (simp add: recordHead_def headBlock_def)
  also have "\<dots> = take 24 record"
    by (simp add: take_add [symmetric] flip: append_assoc)
  finally show ?thesis .
qed

lemma readSealed_exact:
  "\<lbrakk>readSealedRecords wp bs io rest = Inr blocks; aead_ok (wp_aead wp)\<rbrakk> \<Longrightarrow>
    \<exists>tl. rest = concat (map (sealedRecord wp) blocks) @ tl \<and> length tl < 40 + bs"
proof (induction wp bs io rest arbitrary: blocks rule: readSealedRecords.induct)
  case (1 wp bs io rest)
  define rcd where "rcd = take (40 + bs) rest"
  define seqNum where "seqNum = GetUint64 (take 8 rcd)"
  define blockNum where "blockNum = GetUint64 (take 8 (drop 8 rcd))"
  define aad where "aad = updateAAD (initAAD (replicate AADLen 0) (wp_nameHash wp)) blockNum seqNum"
  define plain where "plain = aead_Open (wp_aead wp) (makeNonce seqNum (wp_uuid wp) DomainWAL) (drop 24 rcd) aad"
  note defs = rcd_def seqNum_def blockNum_def aad_def plain_def
  have io: "io \<noteq> Some 0"
    using 1(2) by (subst (asm) readSealedRecords.simps) (simp split: if_splits)
  show ?case
  proof (cases "length rest < 40 + bs")
    case True
    then have "blocks = []" using 1(2) io by (subst (asm) readSealedRecords.simps) simp
    then show ?thesis using True by simp
  next
    case False
    obtain p more where p: "plain = Some p"
      and more: "readSealedRecords wp bs (map_option (\<lambda>k. k - 1) io) (drop (40 + bs) rest) = Inr more"
      and blocks: "blocks = headBlock rcd p # more"
      using 1(2) False io
      by (subst (asm) readSealedRecords.simps) (simp add: Let_def flip: defs split: option.splits sum.splits)
    obtain tl where tl: "drop (40 + bs) rest = concat (map (sealedRecord wp) more) @ tl" "length tl < 40 + bs"
      using 1(1) [OF io False rcd_def seqNum_def blockNum_def p [unfolded plain_def aad_def] more 1(3)]
      by blast
    have "24 \<le> length rcd" using False by (simp add: rcd_def)
    then have "recordHead (headBlock rcd p) = take 24 rcd" by (rule head_of_record)
    moreover have "drop 24 rcd = aead_Seal (wp_aead wp) (makeNonce seqNum (wp_uuid wp) DomainWAL) p aad"
      using p aead_okD(3) [OF 1(3)] unfolding plain_def by blast
    ultimately have "sealedRecord wp (headBlock rcd p) = take 24 rcd @ drop 24 rcd"
      unfolding sealedRecord_def by (simp add: headBlock_def aad_def seqNum_def blockNum_def)
    then have "sealedRecord wp (headBlock rcd p) = rcd" by (simp only: append_take_drop_id)
    then have "rest = sealedRecord wp (headBlock rcd p) @ drop (40 + bs) rest"
      by (simp add: rcd_def)
    then show ?thesis using tl blocks by (intro exI [of _ tl]) simp
  qed
qed

text \<open>
  C16. Authenticity of recovery: when recovery of an encrypted log succeeds, the file after its header
  is exactly the sealed records of the blocks returned, followed by less than one record; nothing that
  was not sealed under the volume's key with its own sequence number and block number is replayed.\<close>

theorem recovery_authentic:
  assumes "wp_encrypted wp" "aead_ok (wp_aead wp)"
    "readWALFileForRecovery wp (Some raw) io = Inr (blocks, m)"
  shows "\<exists>tl. drop WALHeaderSize raw = concat (map (sealedRecord wp) blocks) @ tl \<and>
    length tl < recordSize wp \<and> m = maxSeq blocks"
proof -
  have "readSealedRecords wp (unat (wp_blockSize wp)) io (drop WALHeaderSize raw) = Inr blocks \<and> m = maxSeq blocks"
    using assms(1,3) by (auto simp: readWALFileForRecovery_def Let_def split: if_splits sum.splits)
  then show ?thesis using readSealed_exact assms(1,2) by (fastforce simp: recordSize_def)
qed

theorem recovery_authentic_witness:
  "\<exists>tl. drop WALHeaderSize (WALHeader (demoWp True) 7 @ sealedRecord (demoWp True) (demoBlock 2 4 8)) =
     concat (map (sealedRecord (demoWp True)) [demoBlock 2 4 8]) @ tl \<and>
     length tl < recordSize (demoWp True) \<and> maxSeq [demoBlock 2 4 8] = maxSeq [demoBlock 2 4 8]"
proof (rule recovery_authentic)
  show "wp_encrypted (demoWp True)" "aead_ok (wp_aead (demoWp True))" by (simp_all add: toyAEAD_ok)
  show "readWALFileForRecovery (demoWp True)
      (Some (WALHeader (demoWp True) 7 @ sealedRecord (demoWp True) (demoBlock 2 4 8))) None =
      Inr ([demoBlock 2 4 8], maxSeq [demoBlock 2 4 8])"
    using recovery_reads [OF demoWp_ok, of "[demoBlock 2 4 8]" True "[]" 7]
    by (simp add: demoBlock_ok walRecord_def recordSize_def)
qed

lemma readPlain_corrupt:
  assumes "wal_block wp b" "i < length (plainRecord b)" "v \<noteq> plainRecord b ! i"
  shows "readPlainRecords (unat (wp_blockSize wp)) None ((plainRecord b)[i := v] @ rest) = []"
proof -
  let ?r = "(plainRecord b)[i := v]" and ?crc = "crc32_ChecksumIEEE (recordHead b @ bk_Data b)"
  have len: "length (plainRecord b) = 28 + unat (wp_blockSize wp)"
    using assms(1) by (simp add: plainRecord_def wal_block_def)
  have pr: "plainRecord b = recordHead b @ PutUint32 ?crc @ bk_Data b"
    by (simp add: plainRecord_def crc32_append)
  have "crc32_ChecksumIEEE (take 24 ?r @ drop 28 ?r) \<noteq> GetUint32 (take 4 (drop 24 ?r))"
  proof -
    consider "i < 24" | "24 \<le> i" "i < 28" | "28 \<le> i" by linarith
    then show ?thesis
    proof cases
      case 1
      then have "take 24 ?r @ drop 28 ?r = (recordHead b @ bk_Data b)[i := v]"
        "take 4 (drop 24 ?r) = PutUint32 ?crc" unfolding pr by (simp_all add: list_update_append)
      then show ?thesis using crc_detects_single_byte [of i "recordHead b @ bk_Data b" v] 1 assms(3)
        unfolding pr by (simp add: nth_append)
    next
      case 2
      then have j: "i - 24 < 4" by linarith
      with 2 have t: "take 24 ?r @ drop 28 ?r = recordHead b @ bk_Data b"
        "take 4 (drop 24 ?r) = (PutUint32 ?crc)[i - 24 := v]" unfolding pr by (simp_all add: list_update_append)
      have "(PutUint32 ?crc)[i - 24 := v] ! (i - 24) \<noteq> PutUint32 ?crc ! (i - 24)"
        using assms(3) 2 j unfolding pr by (simp add: nth_append)
      then have "(PutUint32 ?crc)[i - 24 := v] \<noteq> PutUint32 ?crc" by metis
      moreover have "PutUint32 (GetUint32 ((PutUint32 ?crc)[i - 24 := v])) = (PutUint32 ?crc)[i - 24 := v]"
        using be_put_get [where 'a = 32, of "(PutUint32 ?crc)[i - 24 := v]"] by simp
      ultimately show ?thesis unfolding t by metis
    next
      case 3
      then have j: "\<not> i - 24 < 4" "\<not> i - 4 < 24" "i - 24 - 4 = i - 4 - 24" by linarith+
      with 3 have "take 24 ?r @ drop 28 ?r = (recordHead b @ bk_Data b)[i - 4 := v]"
        "take 4 (drop 24 ?r) = PutUint32 ?crc" unfolding pr by (simp_all add: list_update_append)
      moreover have "i - 4 < length (recordHead b @ bk_Data b)" "v \<noteq> (recordHead b @ bk_Data b) ! (i - 4)"
        using 3 j assms(2,3) unfolding pr by (simp_all add: nth_append)
      ultimately show ?thesis using crc_detects_single_byte by (metis Get_Put(2))
    qed
  qed
  then show ?thesis using len by (subst readPlainRecords.simps) (simp add: Let_def crc32_append)
qed

lemma readPlain_prefix:
  assumes "\<forall>b \<in> set pre. wal_block wp b"
  shows "readPlainRecords (unat (wp_blockSize wp)) None (concat (map plainRecord pre) @ rest) =
    pre @ readPlainRecords (unat (wp_blockSize wp)) None rest"
  using assms by (induction pre) (simp_all add: readPlain_record)

text \<open>
  C26. Bit rot in a plain log: whichever single byte of whichever record is changed, recovery returns
  exactly the blocks of the records before it.\<close>

theorem recovery_stops_at_corruption:
  assumes "\<not> wp_encrypted wp" "\<forall>x \<in> set (pre @ b # post). wal_block wp x"
    "i < length (plainRecord b)" "v \<noteq> plainRecord b ! i"
  shows "readWALFileForRecovery wp (Some (WALHeader wp now @ concat (map plainRecord pre) @
    (plainRecord b)[i := v] @ concat (map plainRecord post))) None = Inr (pre, maxSeq pre)"
proof -
  let ?tail = "(plainRecord b)[i := v] @ concat (map plainRecord post)"
  have "readPlainRecords (unat (wp_blockSize wp)) None ?tail = []"
    using assms by (intro readPlain_corrupt) auto
  then show ?thesis using assms(1,2) by (simp add: recovery_header readPlain_prefix)
qed

theorem recovery_stops_at_corruption_witness:
  "readWALFileForRecovery (demoWp False) (Some (WALHeader (demoWp False) 7 @
     concat (map plainRecord [demoBlock 1 3 9]) @ (plainRecord (demoBlock 2 4 8))[28 := 5] @
     concat (map plainRecord [demoBlock 3 4 8]))) None = Inr ([demoBlock 1 3 9], maxSeq [demoBlock 1 3 9])"
  by (rule recovery_stops_at_corruption)
     (simp_all add: demoBlock_ok plainRecord_def nth_append demoBlock_def wal_block_def)

lemma readPlain_io:
  "\<lbrakk>\<forall>b \<in> set blocks. wal_block wp b; k \<le> length blocks\<rbrakk> \<Longrightarrow>
     readPlainRecords (unat (wp_blockSize wp)) (Some k) (concat (map plainRecord blocks)) = take k blocks"
proof (induction blocks arbitrary: k)
  case Nil
  then show ?case by (subst readPlainRecords.simps) simp
next
  case (Cons b blocks)
  show ?case
  proof (cases k)
    case 0
    then show ?thesis by (subst readPlainRecords.simps) simp
  next
    case (Suc j)
    then show ?thesis using Cons by (simp add: readPlain_record)
  qed
qed

lemma readSealed_io:
  "\<lbrakk>aead_ok (wp_aead wp); \<forall>b \<in> set blocks. wal_block wp b; k \<le> length blocks\<rbrakk> \<Longrightarrow>
     readSealedRecords wp (unat (wp_blockSize wp)) (Some k) (concat (map (sealedRecord wp) blocks)) = Inl ErrWalRead"
proof (induction blocks arbitrary: k)
  case Nil
  then show ?case by (subst readSealedRecords.simps) simp
next
  case (Cons b blocks)
  then show ?case
    by (cases k) (simp_all add: readSealed_record, subst readSealedRecords.simps, simp)
qed

text \<open>
  C27. A read error in the middle of a log: the encrypted reader reports it, so the file is kept for a
  retry; the plain reader reports success with the records before the error, as if the log ended
  there.\<close>

theorem recovery_io_error:
  assumes "wal_params_ok wp" "\<forall>b \<in> set blocks. wal_block wp b" "k \<le> length blocks"
  shows "readWALFileForRecovery wp (Some (WALHeader wp now @ concat (map (walRecord wp) blocks))) (Some k) =
    (if wp_encrypted wp then Inl ErrWalRead else Inr (take k blocks, maxSeq (take k blocks)))"
proof (cases "wp_encrypted wp")
  case True
  then have "walRecord wp = sealedRecord wp" by (simp add: walRecord_def fun_eq_iff)
  with True assms show ?thesis by (simp add: recovery_header readSealed_io wal_params_ok_def)
next
  case False
  then have "walRecord wp = plainRecord" by (simp add: walRecord_def fun_eq_iff)
  with False assms show ?thesis by (simp add: recovery_header readPlain_io)
qed

theorem recovery_io_error_witness:
  "readWALFileForRecovery (demoWp False) (Some (WALHeader (demoWp False) 7 @
     concat (map (walRecord (demoWp False)) [demoBlock 1 3 9, demoBlock 2 4 8]))) (Some 1) =
   Inr ([demoBlock 1 3 9], maxSeq [demoBlock 1 3 9])"
  using recovery_io_error [OF demoWp_ok, of "[demoBlock 1 3 9, demoBlock 2 4 8]" False 1 7]
  by (simp add: demoBlock_ok)

lemma recordHead_parts:
  "take 8 (recordHead b) = PutUint64 (bk_SeqNum b)"
  "take 8 (drop 8 (recordHead b)) = PutUint64 (bk_Block b)"
  "drop 16 (recordHead b) = PutUint64 (bk_Len b)"
  "recordHead b \<noteq> []"
  by (simp_all add: recordHead_def be_put_def)

lemma ReadWAL_record:
  assumes "unat (bk_Len b) = length (bk_Data b)" "length (bk_Data b) \<le> maxAlloc" "maxAlloc < 2 ^ 63"
  shows "ReadWAL maxAlloc None (plainRecord b @ rest) = ReadWAL maxAlloc None rest"
proof -
  have si: "SafeUint64ToInt (bk_Len b) = int (length (bk_Data b))"
    using assms by (simp add: SafeUint64ToInt_def word_le_nat_alt word_less_nat_alt uint_nat)
  have crc: "crc32_Update (crc32_Update (crc32_Update (crc32_ChecksumIEEE (PutUint64 (bk_SeqNum b)))
      (PutUint64 (bk_Block b))) (PutUint64 (bk_Len b))) (bk_Data b) = crc32_ChecksumIEEE (recordHead b @ bk_Data b)"
    by (simp add: recordHead_def crc32_append)
  let ?R = "plainRecord b @ rest" and ?h = "recordHead b @ PutUint32 (crc32_ChecksumIEEE (recordHead b @ bk_Data b))"
  have h: "take 28 (take 28 ?R @ replicate 28 0) = ?h" by (simp add: plainRecord_def crc32_append)
  have f: "take 8 ?h = PutUint64 (bk_SeqNum b)" "take 8 (drop 8 ?h) = PutUint64 (bk_Block b)"
    "take 8 (drop 16 ?h) = PutUint64 (bk_Len b)"
    "take 4 (drop 24 ?h) = PutUint32 (crc32_ChecksumIEEE (recordHead b @ bk_Data b))"
    by (simp_all add: recordHead_parts)
  have d: "take (length (bk_Data b)) (drop 28 ?R) = bk_Data b" "drop (28 + length (bk_Data b)) ?R = rest" "?R \<noteq> []"
    by (simp_all add: plainRecord_def recordHead_parts)
  show ?thesis
    unfolding ReadWAL.simps [of maxAlloc None ?R] h Let_def f Get_Put assms(1) si
    using assms(2) by (simp add: d crc del: drop_append take_append append_is_Nil_conv)
qed

lemma ReadWAL_written:
  "\<lbrakk>\<forall>b \<in> set blocks. unat (bk_Len b) = length (bk_Data b) \<and> length (bk_Data b) \<le> maxAlloc;
    maxAlloc < 2 ^ 63\<rbrakk> \<Longrightarrow>
     ReadWAL maxAlloc None (concat (map plainRecord blocks)) = None"
proof (induction blocks)
  case Nil
  then show ?case by (subst ReadWAL.simps) simp
qed (simp add: ReadWAL_record)

text \<open>A sequence of appends to one shard file, and the blocks whose append was acknowledged.\<close>

fun shardRun :: "(OsWrite \<times> Block) list \<Rightarrow> bytes \<times> bool \<Rightarrow> (bytes \<times> bool) \<times> Block list" where
  "shardRun [] st = (st, [])"
| "shardRun ((os, b) # atts) st =
     (case WriteShardedWAL os b st of (err, st') \<Rightarrow>
        (case shardRun atts st' of (st'', acked) \<Rightarrow> (st'', if err = None then b # acked else acked)))"

lemma shardRun_healthy:
  "\<forall>(os, b) \<in> set atts. \<not> os_err os \<and> length (plainRecord b) \<le> os_n os \<Longrightarrow>
     fst (fst (shardRun atts st)) = fst st @ concat (map (plainRecord \<circ> snd) atts) \<and> snd (shardRun atts st) = map snd atts"
  by (induction atts st rule: shardRun.induct) (auto simp: WriteShardedWAL_def Let_def split: prod.splits)

text \<open>The check that the reader makes of the bytes where it expects a record.\<close>

definition checksumOk :: "bytes \<Rightarrow> bool" where
  "checksumOk record \<longleftrightarrow>
     crc32_Update (crc32_ChecksumIEEE (take 24 record)) (drop 28 record) = GetUint32 (take 4 (drop 24 record))"

lemma readPlain_misread:
  assumes "\<not> checksumOk (take (28 + bs) rest)"
  shows "readPlainRecords bs io rest = []"
  using assms by (subst readPlainRecords.simps) (simp add: checksumOk_def Let_def)

text \<open>
  C28. The sharded log has no roll-back.  Take a shard with any records, an append to it that is cut short
  after any number of bytes, and any later appends to the same shard, none of which meets a fault.  All
  the later appends are acknowledged, but the reader now expects a record where the torn bytes begin.
  Unless the four bytes that it finds in the place of a checksum there happen to be the checksum of the
  bytes around them, recovery ends at that point and returns none of the acknowledged blocks.\<close>

theorem sharded_torn_write_hides_acked:
  assumes "\<not> wp_encrypted wp" "\<forall>b \<in> set pre. wal_block wp b" "os_n os < length (plainRecord b)"
    "WriteShardedWAL os b (WALHeader wp now @ concat (map plainRecord pre), d) = (err, st)"
    "\<forall>(os', x) \<in> set atts. \<not> os_err os' \<and> length (plainRecord x) \<le> os_n os'"
    "shardRun atts st = ((file, d'), acked)"
    "\<not> checksumOk (take (28 + unat (wp_blockSize wp)) (take (os_n os) (plainRecord b) @ concat (map plainRecord acked)))"
  shows "err = Some ErrWalShort \<and> acked = map snd atts \<and>
    readWALFileForRecovery wp (Some file) None = Inr (pre, maxSeq pre)"
proof -
  have w: "err = Some ErrWalShort" "fst st = WALHeader wp now @ concat (map plainRecord pre) @ take (os_n os) (plainRecord b)"
    using assms(3,4) by (auto simp: WriteShardedWAL_def Let_def)
  have a: "acked = map snd atts" "file = fst st @ concat (map plainRecord acked)"
    using shardRun_healthy [OF assms(5), of st] assms(6) by simp_all
  then have "readPlainRecords (unat (wp_blockSize wp)) None (take (os_n os) (plainRecord b) @ concat (map plainRecord acked)) = []"
    by (intro readPlain_misread assms(7))
  then show ?thesis
    using w a assms(1) readPlain_prefix [OF assms(2)] by (simp add: recovery_header)
qed

lemma demo_misread: "\<not> checksumOk (take 29 (take 5 (plainRecord (demoBlock 1 3 9)) @ plainRecord (demoBlock 2 3 8)))"
proof -
  have h: "recordHead (demoBlock 2 3 8) = [0,0,0,0,0,0,0,2, 0,0,0,0,0,0,0,3, 0,0,0,0,0,0,0,1]"
    "take 5 (plainRecord (demoBlock 1 3 9)) = [0,0,0,0,0]"
    by (simp_all add: plainRecord_def Let_def recordHead_def demoBlock_def be_put_def upt_rec)
  have "crc32_ChecksumIEEE ([0,0,0,0,0] @ take 19 (recordHead (demoBlock 2 3 8)) @ [1]) \<noteq> 0"
    unfolding h by (simp add: crc_eval)
  then show ?thesis
    unfolding h(2) by (simp add: checksumOk_def plainRecord_def Let_def crc32_append h be_get_def)
qed

theorem sharded_torn_write_hides_acked_witness:
  "readWALFileForRecovery (demoWp False) (Some (fst (fst (shardRun [(demoOs 99, demoBlock 2 3 8)]
     (snd (WriteShardedWAL (demoOs 5) (demoBlock 1 3 9) (WALHeader (demoWp False) 7, False))))))) None = Inr ([], 0)"
proof -
  let ?st = "snd (WriteShardedWAL (demoOs 5) (demoBlock 1 3 9) (WALHeader (demoWp False) 7, False))"
  have len: "length (plainRecord (demoBlock s b v)) = 29" for s b v by (simp add: plainRecord_def demoBlock_def)
  have "snd (shardRun [(demoOs 99, demoBlock 2 3 8)] ?st) = [demoBlock 2 3 8]"
    by (simp add: WriteShardedWAL_def Let_def len demoOs_def)
  then have run: "shardRun [(demoOs 99, demoBlock 2 3 8)] ?st =
     ((fst (fst (shardRun [(demoOs 99, demoBlock 2 3 8)] ?st)), snd (fst (shardRun [(demoOs 99, demoBlock 2 3 8)] ?st))), [demoBlock 2 3 8])"
    by (metis prod.collapse)
  show ?thesis
    using sharded_torn_write_hides_acked [of "demoWp False" "[]" "demoOs 5" "demoBlock 1 3 9" 7 False _ ?st,
        OF _ _ _ _ _ run] demo_misread
    by (simp add: demoOs_def len maxSeq_def prod_eq_iff)
qed

end
