(* ===== verification/Backend.thy ===== *)
theory Backend
  imports Utils_Types
begin

text \<open>
  The storage interface \<open>types.Backend\<close>: the operations the engine calls, as a record of functions over
  a backend state, and the contract the engine relies on, as a locale.
\<close>

text \<open>
  Failures as the callers tell them apart: out of space (\<open>ErrNoSpace\<close>), a missing object, a short read
  and anything else.
\<close>

datatype BackendError =
    BNoSpace
  | BNotExist
  | BShortRead
  | BOther

record 's Backend =
  be_Read :: "'s \<Rightarrow> FileType \<Rightarrow> u64 \<Rightarrow> u32 \<Rightarrow> u32 \<Rightarrow> BackendError + bytes"
  be_Write :: "FileType \<Rightarrow> u64 \<Rightarrow> bytes \<Rightarrow> bytes \<Rightarrow> 's \<Rightarrow> BackendError option \<times> 's"
  be_ReadFrom :: "'s \<Rightarrow> string \<Rightarrow> FileType \<Rightarrow> u64 \<Rightarrow> u32 \<Rightarrow> u32 \<Rightarrow> BackendError + bytes"
  be_WriteTo :: "string \<Rightarrow> FileType \<Rightarrow> u64 \<Rightarrow> bytes \<Rightarrow> bytes \<Rightarrow> 's \<Rightarrow> BackendError option \<times> 's"
  be_Delete :: "FileType \<Rightarrow> u64 \<Rightarrow> 's \<Rightarrow> BackendError option \<times> 's"
  be_ListPrefixes :: "'s \<Rightarrow> string \<Rightarrow> BackendError + string list"
  be_ListObjects :: "'s \<Rightarrow> string \<Rightarrow> BackendError + string list"

text \<open>
  The contract.  \<open>obj\<close> is what is stored under a key, \<open>readable\<close> whether a read of the key can succeed.
  A failed write may leave anything under its own key and must leave every other key alone.
\<close>

locale backend_laws =
  fixes B :: "'s Backend" and vol :: string
    and obj :: "'s \<Rightarrow> string \<Rightarrow> bytes option" and readable :: "'s \<Rightarrow> string \<Rightarrow> bool"
  assumes Write_ok: "be_Write B ft i h d s = (None, s') \<Longrightarrow> obj s' = (obj s)(GetFilePath ft i vol \<mapsto> h @ d)"
    and Write_fail: "be_Write B ft i h d s = (Some e, s') \<Longrightarrow> k \<noteq> GetFilePath ft i vol \<Longrightarrow> obj s' k = obj s k"
    and Write_readable: "be_Write B ft i h d s = (r, s') \<Longrightarrow> readable s' = readable s"
    and WriteTo_ok: "be_WriteTo B v ft i h d s = (None, s') \<Longrightarrow> obj s' = (obj s)(GetFilePath ft i v \<mapsto> h @ d)"
    and WriteTo_fail: "be_WriteTo B v ft i h d s = (Some e, s') \<Longrightarrow> k \<noteq> GetFilePath ft i v \<Longrightarrow> obj s' k = obj s k"
    and Read_sound: "be_ReadFrom B s v ft i off len = Inr data \<Longrightarrow> len \<noteq> 0 \<Longrightarrow>
      \<exists>c. obj s (GetFilePath ft i v) = Some c \<and> unat off + unat len \<le> length c \<and>
          data = take (unat len) (drop (unat off) c)"
    and Read_complete: "readable s (GetFilePath ft i v) \<Longrightarrow> obj s (GetFilePath ft i v) = Some c \<Longrightarrow>
      unat off + unat len \<le> length c \<Longrightarrow> len \<noteq> 0 \<Longrightarrow>
      be_ReadFrom B s v ft i off len = Inr (take (unat len) (drop (unat off) c))"
    and Read_whole: "readable s (GetFilePath ft i v) \<Longrightarrow> obj s (GetFilePath ft i v) = Some c \<Longrightarrow>
      length c < 4294967296 \<Longrightarrow> be_ReadFrom B s v ft i 0 0 = Inr c"
    and Read_missing: "obj s (GetFilePath ft i v) = None \<Longrightarrow> \<exists>e. be_ReadFrom B s v ft i off len = Inl e"
    and Read_cong: "obj s (GetFilePath ft i v) = obj s' (GetFilePath ft i v) \<Longrightarrow>
      readable s (GetFilePath ft i v) = readable s' (GetFilePath ft i v) \<Longrightarrow>
      be_ReadFrom B s v ft i off len = be_ReadFrom B s' v ft i off len"
    and Read_own: "be_Read B s ft i off len = be_ReadFrom B s vol ft i off len"
    and Delete_ok: "be_Delete B ft i s = (None, s') \<Longrightarrow> obj s' = (obj s)(GetFilePath ft i vol := None)"
    and Delete_fail: "be_Delete B ft i s = (Some e, s') \<Longrightarrow> obj s' = obj s"
    and Delete_readable: "be_Delete B ft i s = (r, s') \<Longrightarrow> readable s' = readable s"
begin

lemma Write_then_Read:
  assumes "be_Write B ft i h d s = (None, s')" "readable s (GetFilePath ft i vol)"
    "unat off + unat len \<le> length (h @ d)" "len \<noteq> 0"
  shows "be_Read B s' ft i off len = Inr (take (unat len) (drop (unat off) (h @ d)))"
proof -
  have "obj s' (GetFilePath ft i vol) = Some (h @ d)" using Write_ok [OF assms(1)] by simp
  moreover have "readable s' (GetFilePath ft i vol)" using Write_readable [OF assms(1)] assms(2) by simp
  ultimately show ?thesis using Read_complete assms(3,4) by (simp add: Read_own)
qed

lemma Write_frame:
  assumes "be_Write B ft i h d s = (r, s')" "GetFilePath ft' i' v \<noteq> GetFilePath ft i vol"
  shows "obj s' (GetFilePath ft' i' v) = obj s (GetFilePath ft' i' v)"
    "be_ReadFrom B s' v ft' i' off len = be_ReadFrom B s v ft' i' off len"
proof -
  show same: "obj s' (GetFilePath ft' i' v) = obj s (GetFilePath ft' i' v)"
    using Write_ok [of ft i h d s s'] Write_fail [of ft i h d s _ s'] assms by (cases r) auto
  show "be_ReadFrom B s' v ft' i' off len = be_ReadFrom B s v ft' i' off len"
    using Read_cong [OF same] Write_readable [OF assms(1)] by simp
qed

end

text \<open>Keys of different chunks, and of chunks and everything else, are different.\<close>

lemma chunk_key_inj [simp]:
  "GetFilePath FileTypeChunk i v = GetFilePath FileTypeChunk j v \<longleftrightarrow> i = j"
proof
  assume eq: "GetFilePath FileTypeChunk i v = GetFilePath FileTypeChunk j v"
  have "parseChunkObjectID (GetFilePath FileTypeChunk x v) = Some x" for x
    using chunkKeyPattern_key [OF padNat_digits padNat_nonempty, of v 8 "unat x"]
    by (simp add: parseChunkObjectID_def GetFilePath.simps)
  then show "i = j" using eq by (metis option.inject)
qed simp

lemma chunk_key_other:
  "ft \<noteq> FileTypeChunk \<Longrightarrow> GetFilePath ft j v \<noteq> GetFilePath FileTypeChunk i v"
  by (cases ft) (auto simp: GetFilePath.simps)

end
