(* ===== verification/Packing.thy ===== *)
theory Packing
  imports Blockstore
begin

text \<open>
  From log records to chunks: deduplication by highest sequence number, sorting by block number and
  packing into chunk-sized buffers, as \<open>WriteWALToChunkCtx\<close>, \<open>WriteShardedWALToChunkCtx\<close> and
  \<open>RecoverLocalWALs\<close> all do it.
\<close>

section \<open>Deduplication\<close>

record BlockOptimised =
  bo_SeqNum :: u64
  bo_Index :: nat

definition dedupStep :: "(u64, BlockOptimised) gomap \<Rightarrow> nat \<times> Block \<Rightarrow> (u64, BlockOptimised) gomap" where
  "dedupStep m ib =
     (case ib of (index, block) \<Rightarrow>
        (case map_of m (bk_Block block) of
           Some existing \<Rightarrow>
             if bo_SeqNum existing < bk_SeqNum block
             then gput (bk_Block block) \<lparr>bo_SeqNum = bk_SeqNum block, bo_Index = index\<rparr> m else m
         | None \<Rightarrow> gput (bk_Block block) \<lparr>bo_SeqNum = bk_SeqNum block, bo_Index = index\<rparr> m))"

definition dedupMap :: "Block list \<Rightarrow> (u64, BlockOptimised) gomap" where
  "dedupMap blocks = foldl dedupStep [] (enumerate 0 blocks)"

definition sortedBlocks :: "Block list \<Rightarrow> Block list" where
  "sortedBlocks blocks = sort_key bk_Block (map (\<lambda>e. blocks ! bo_Index (snd e)) (dedupMap blocks))"

text \<open>What the map holds after the first records.\<close>

definition newest_at :: "Block list \<Rightarrow> u64 \<Rightarrow> BlockOptimised \<Rightarrow> bool" where
  "newest_at blocks b e \<longleftrightarrow> bo_Index e < length blocks \<and>
     bk_Block (blocks ! bo_Index e) = b \<and> bk_SeqNum (blocks ! bo_Index e) = bo_SeqNum e \<and>
     (\<forall>x \<in> set blocks. bk_Block x = b \<longrightarrow> bk_SeqNum x \<le> bo_SeqNum e)"

definition dedup_ok :: "Block list \<Rightarrow> (u64, BlockOptimised) gomap \<Rightarrow> bool" where
  "dedup_ok blocks m \<longleftrightarrow> gomap_ok m \<and> fst ` set m = bk_Block ` set blocks \<and>
     (\<forall>b e. map_of m b = Some e \<longrightarrow> newest_at blocks b e)"

lemma newest_at_snoc:
  "newest_at blocks b e \<Longrightarrow> (bk_Block x = b \<Longrightarrow> bk_SeqNum x \<le> bo_SeqNum e) \<Longrightarrow> newest_at (blocks @ [x]) b e"
  by (auto simp: newest_at_def nth_append)

lemma newest_at_new:
  "(\<And>y. y \<in> set blocks \<Longrightarrow> bk_Block y = bk_Block x \<Longrightarrow> bk_SeqNum y \<le> bk_SeqNum x) \<Longrightarrow>
     newest_at (blocks @ [x]) (bk_Block x) \<lparr>bo_SeqNum = bk_SeqNum x, bo_Index = length blocks\<rparr>"
  by (auto simp: newest_at_def)

lemma dedup_ok_step:
  assumes "dedup_ok blocks m"
  shows "dedup_ok (blocks @ [x]) (dedupStep m (length blocks, x))"
proof -
  let ?b = "bk_Block x" and ?e = "\<lparr>bo_SeqNum = bk_SeqNum x, bo_Index = length blocks\<rparr>"
  have ok: "gomap_ok m" "fst ` set m = bk_Block ` set blocks" "\<And>b e. map_of m b = Some e \<Longrightarrow> newest_at blocks b e"
    using assms unfolding dedup_ok_def by blast+
  have key: "(\<exists>e. map_of m ?b = Some e) \<longleftrightarrow> ?b \<in> bk_Block ` set blocks"
    using ok(2) by (metis map_of_eq_None_iff not_None_eq)
  show ?thesis
  proof (cases "\<exists>e. map_of m ?b = Some e \<and> bk_SeqNum x \<le> bo_SeqNum e")
    case True
    then obtain e where e: "map_of m ?b = Some e" "bk_SeqNum x \<le> bo_SeqNum e" by blast
    then have "bk_Block ` set (blocks @ [x]) = bk_Block ` set blocks" using key by auto
    moreover have "newest_at (blocks @ [x]) b e'" if "map_of m b = Some e'" for b e'
      using newest_at_snoc [OF ok(3) [OF that]] e that by (cases "b = ?b") auto
    ultimately have "dedup_ok (blocks @ [x]) m" using ok(1,2) unfolding dedup_ok_def by simp
    then show ?thesis using e by (simp add: dedupStep_def leD del: map_of_eq_Some_iff)
  next
    case False
    then have lt: "bo_SeqNum e < bk_SeqNum x" if "map_of m ?b = Some e" for e
      using that by (meson not_le)
    have "bk_SeqNum y \<le> bk_SeqNum x" if y: "y \<in> set blocks" "bk_Block y = ?b" for y
    proof -
      obtain e where e: "map_of m ?b = Some e" using key y by (metis image_eqI)
      then show ?thesis using ok(3) [OF e] lt [OF e] y unfolding newest_at_def by fastforce
    qed
    then have new: "newest_at (blocks @ [x]) ?b ?e" by (rule newest_at_new)
    have "newest_at (blocks @ [x]) b e'" if "map_of (gput ?b ?e m) b = Some e'" for b e'
      using that new newest_at_snoc [OF ok(3)] by (auto split: if_splits)
    then have "dedup_ok (blocks @ [x]) (gput ?b ?e m)"
      using ok(1,2) unfolding dedup_ok_def by (simp add: gput_keys)
    then show ?thesis using lt by (auto simp: dedupStep_def simp del: map_of_eq_Some_iff split: option.split)
  qed
qed

lemma dedupMap_ok: "dedup_ok blocks (dedupMap blocks)"
proof (induction blocks rule: rev_induct)
  case Nil
  then show ?case by (simp add: dedup_ok_def dedupMap_def)
next
  case (snoc x blocks)
  then show ?case using dedup_ok_step by (simp add: dedupMap_def enumerate_append_eq)
qed

lemma strict_sort_key: "distinct (map f xs) \<Longrightarrow> sorted_wrt (<) (map f (sort_key f xs))"
  by (simp add: strict_sorted_iff distinct_map)

lemma sortedBlocks_sorted: "sorted_wrt (<) (map bk_Block (sortedBlocks blocks))"
proof -
  let ?xs = "map (\<lambda>e. blocks ! bo_Index (snd e)) (dedupMap blocks)"
  note ok = dedupMap_ok [of blocks, unfolded dedup_ok_def]
  have "map bk_Block ?xs = map fst (dedupMap blocks)" using ok by (auto simp: newest_at_def)
  then have "distinct (map bk_Block ?xs)" using ok by (simp only:)
  then show ?thesis unfolding sortedBlocks_def by (rule strict_sort_key)
qed

lemma sortedBlocks_set:
  "x \<in> set (sortedBlocks blocks) \<Longrightarrow>
     x \<in> set blocks \<and> (\<forall>y \<in> set blocks. bk_Block y = bk_Block x \<longrightarrow> bk_SeqNum y \<le> bk_SeqNum x)"
proof -
  assume "x \<in> set (sortedBlocks blocks)"
  then obtain b e where m: "(b, e) \<in> set (dedupMap blocks)" and x: "x = blocks ! bo_Index e"
    by (auto simp: sortedBlocks_def)
  note ok = dedupMap_ok [of blocks, unfolded dedup_ok_def]
  have "map_of (dedupMap blocks) b = Some e" using m ok by simp
  then show ?thesis using ok x by (metis newest_at_def nth_mem)
qed

lemma sortedBlocks_cover:
  assumes "y \<in> set blocks"
  shows "\<exists>x \<in> set (sortedBlocks blocks). bk_Block x = bk_Block y \<and> bk_SeqNum y \<le> bk_SeqNum x"
proof -
  note ok = dedupMap_ok [of blocks, unfolded dedup_ok_def]
  have "bk_Block y \<in> fst ` set (dedupMap blocks)" using assms ok by simp
  then obtain e where e: "(bk_Block y, e) \<in> set (dedupMap blocks)" by auto
  then have "map_of (dedupMap blocks) (bk_Block y) = Some e" using ok by simp
  then have "bk_Block (blocks ! bo_Index e) = bk_Block y" "bk_SeqNum y \<le> bk_SeqNum (blocks ! bo_Index e)"
    using ok assms by (auto simp: newest_at_def)
  moreover have "blocks ! bo_Index e \<in> set (sortedBlocks blocks)"
    using e by (force simp: sortedBlocks_def)
  ultimately show ?thesis by blast
qed

section \<open>Packing\<close>

record chunkJob =
  cj_buf :: bytes
  cj_blocks :: "Block list"

definition matchedBlock :: "Block \<Rightarrow> Block" where
  "matchedBlock b = \<lparr>bk_Data = [], bk_SeqNum = bk_SeqNum b, bk_Block = bk_Block b, bk_Offset = 0, bk_Len = 0\<rparr>"

fun packLoop :: "nat \<Rightarrow> bytes \<Rightarrow> Block list \<Rightarrow> Block list \<Rightarrow> chunkJob list" where
  "packLoop objBlockSize chunkBuffer matchedBlocks [] =
     (if length chunkBuffer > 0 then [\<lparr>cj_buf = chunkBuffer, cj_blocks = matchedBlocks\<rparr>] else [])"
| "packLoop objBlockSize chunkBuffer matchedBlocks (block # rest) =
     (let chunkBuffer = chunkBuffer @ bk_Data block; matchedBlocks = matchedBlocks @ [matchedBlock block]
      in if objBlockSize \<le> length chunkBuffer
         then \<lparr>cj_buf = chunkBuffer, cj_blocks = matchedBlocks\<rparr> # packLoop objBlockSize [] [] rest
         else packLoop objBlockSize chunkBuffer matchedBlocks rest)"

definition packChunks :: "nat \<Rightarrow> Block list \<Rightarrow> chunkJob list" where
  "packChunks objBlockSize blocks = packLoop objBlockSize [] [] blocks"

text \<open>
  What a list of jobs must be: in order, the blocks cut into consecutive groups, the buffer of each job
  the concatenation of its blocks' data, no job empty, none larger than the chunk size by a block or
  more, and only the last one smaller than the chunk size.
\<close>

definition job_of :: "Block list \<Rightarrow> chunkJob" where
  "job_of bs = \<lparr>cj_buf = concat (map bk_Data bs), cj_blocks = map matchedBlock bs\<rparr>"

lemma packLoop_groups:
  assumes "\<forall>b \<in> set (acc @ bs). length (bk_Data b) = n" "0 < n" "length acc * n < obs"
  shows "\<exists>groups. packLoop obs (concat (map bk_Data acc)) (map matchedBlock acc) bs = map job_of groups \<and>
    concat groups = acc @ bs \<and> [] \<notin> set groups \<and>
    (\<forall>g \<in> set groups. length g * n < obs + n) \<and> (\<forall>g \<in> set (butlast groups). obs \<le> length g * n)"
  using assms
proof (induction bs arbitrary: acc)
  case Nil
  have len: "length (concat (map bk_Data acc)) = length acc * n"
    using Nil.prems(1) by (induction acc) auto
  show ?case
  proof (cases "acc = []")
    case True
    then show ?thesis by (intro exI [of _ "[]"]) simp
  next
    case False
    then show ?thesis using len Nil.prems
      by (intro exI [of _ "[acc]"]) (auto simp: job_of_def)
  qed
next
  case (Cons b bs)
  let ?acc = "acc @ [b]"
  have len: "length (concat (map bk_Data ?acc)) = length ?acc * n"
    using Cons.prems(1) by (induction acc) auto
  show ?case
  proof (cases "obs \<le> length ?acc * n")
    case True
    have "\<forall>x \<in> set ([] @ bs). length (bk_Data x) = n" "length ([] :: Block list) * n < obs"
      using Cons.prems by auto
    from Cons.IH [OF this(1) Cons.prems(2) this(2)] obtain groups where g:
      "packLoop obs [] [] bs = map job_of groups" "concat groups = bs" "[] \<notin> set groups"
      "\<forall>g \<in> set groups. length g * n < obs + n" "\<forall>g \<in> set (butlast groups). obs \<le> length g * n"
      by auto
    show ?thesis using g True len Cons.prems
      by (intro exI [of _ "?acc # groups"]) (auto simp: job_of_def Let_def)
  next
    case False
    have "\<forall>x \<in> set (?acc @ bs). length (bk_Data x) = n" using Cons.prems by auto
    from Cons.IH [OF this Cons.prems(2)] False obtain groups where
      "packLoop obs (concat (map bk_Data ?acc)) (map matchedBlock ?acc) bs = map job_of groups"
      "concat groups = ?acc @ bs" "[] \<notin> set groups"
      "\<forall>g \<in> set groups. length g * n < obs + n" "\<forall>g \<in> set (butlast groups). obs \<le> length g * n"
      by (auto simp: not_le)
    then show ?thesis using False len by (intro exI [of _ groups]) (simp add: Let_def)
  qed
qed

lemma packChunks_groups:
  assumes "\<forall>b \<in> set bs. length (bk_Data b) = n" "0 < n" "0 < obs"
  shows "\<exists>groups. packChunks obs bs = map job_of groups \<and> concat groups = bs \<and> [] \<notin> set groups \<and>
    (\<forall>g \<in> set groups. length g * n < obs + n) \<and> (\<forall>g \<in> set (butlast groups). obs \<le> length g * n)"
  using packLoop_groups [of "[]" bs n obs] assms by (simp add: packChunks_def)

end
