(* ===== verification/Engine.thy ===== *)
theory Engine
  imports Checkpoint Wal Backend Packing
begin

text \<open>
  The state of an open volume (\<open>VB\<close> in \<open>viperblock.go\<close>) and the small operations every other part
  uses.  Files of the local directory are part of the state; the backend is a state of its own behind
  the operations of \<open>Backend\<close>.  The least-recently-used cache is a library of its own: its operations are
  a parameter.
\<close>

definition DefaultBlockSize :: u32 where "DefaultBlockSize = 4096"
definition DefaultObjBlockSize :: u32 where "DefaultObjBlockSize = 4194304"
definition DefaultFlushSize :: u32 where "DefaultFlushSize = 67108864"
definition DefaultMaxPendingBytes :: u64 where "DefaultMaxPendingBytes = 268435456"
definition DefaultUploadWorkers :: int where "DefaultUploadWorkers = 16"
definition seqNumReservation :: u64 where "seqNumReservation = 1048576"

record 'l LruOps =
  lru_Get :: "u64 \<Rightarrow> 'l \<Rightarrow> bytes option \<times> 'l"
  lru_Add :: "u64 \<Rightarrow> bytes \<Rightarrow> 'l \<Rightarrow> 'l"
  lru_Purge :: "'l \<Rightarrow> 'l"

record snapshotAncestor =
  anc_blocks :: BlocksToObject
  anc_sourceVolumeName :: string
  anc_sourceVolumeUUID :: bytes
  anc_sourceVolumeNameHash :: bytes

text \<open>
  \<open>WAL\<close>: the numbered log files on disk, the last entry of \<open>DB\<close> (the number of its file and whether the
  handle is still open), the dirty flag.
\<close>

record WAL =
  wal_files :: "(u64, bytes) gomap"
  wal_cur :: "(u64 \<times> bool) option"
  wal_dirty :: bool
  wal_WallNum :: u64

text \<open>\<open>ShardedWAL\<close>: the shard files by generation and shard, and for each shard whether it is open.\<close>

record ShardedWAL =
  sw_files :: "(u64 \<times> nat, bytes) gomap"
  sw_open :: "nat list"
  sw_dirty :: "nat list"
  sw_WallNum :: u64

record ('s, 'l) VB =
  VolumeName :: string
  VolumeSize :: u64
  BlockSize :: u32
  ObjBlockSize :: u32
  FlushSize :: u32
  MaxPendingBytes :: u64
  UploadWorkers :: int
  Version :: u16
  SeqNum :: u64
  ObjectNum :: u64
  vb_BlocksToObject :: BlocksToObject
  Writes :: "Block list"
  PendingBackendWrites :: "Block list"
  pendingBytes :: int
  backendFull :: bool
  vb_WAL :: WAL
  vb_ShardedWAL :: "ShardedWAL"
  UseShardedWAL :: bool
  BlockToObjectWallNum :: u64
  checkpointFiles :: "(u64, bytes) gomap"
  CacheSize :: int
  vb_lru :: 'l
  BlockStore :: UnifiedBlockStore
  UseBlockStore :: bool
  vb_Backend :: 's
  BaseBlockMap :: "BlocksToObject option"
  SourceVolumeName :: string
  SnapshotID :: string
  ancestors :: "snapshotAncestor list"
  EncryptionEnabled :: bool
  vb_aead :: AEAD
  volumeNameHash :: bytes
  VolumeUUID :: bytes
  SourceVolumeUUID :: bytes
  sourceVolumeNameHash :: bytes
  chunkMagicChecked :: "(string \<times> u64) list"
  seqNumHighWater :: u64
  nextStateSeqNum :: u64
  GCEnabled :: bool
  vb_gcRefcount :: "(u64, u64) gomap"
  gcReconciled :: bool
  gcFloor :: u64
  gcFloorReady :: bool
  gcSnapshotSafe :: bool
  gcSnapshotChecked :: bool
  gcMarkerBaseline :: "bytes option"
  gcLatchedOff :: bool

definition walParams :: "('s, 'l) VB \<Rightarrow> WalParams" where
  "walParams vb = \<lparr>wp_encrypted = EncryptionEnabled vb, wp_aead = vb_aead vb, wp_uuid = VolumeUUID vb,
     wp_nameHash = volumeNameHash vb, wp_version = Version vb, wp_blockSize = BlockSize vb\<rparr>"

definition blockStride :: "('s, 'l) VB \<Rightarrow> u32" where
  "blockStride vb = (if EncryptionEnabled vb then BlockSize vb + 16 else BlockSize vb)"

lemma blockStride_keeps [simp]:
  "blockStride (vb\<lparr>vb_WAL := w\<rparr>) = blockStride vb" "blockStride (vb\<lparr>vb_Backend := s\<rparr>) = blockStride vb"
  "blockStride (vb\<lparr>backendFull := f\<rparr>) = blockStride vb" "blockStride (vb\<lparr>ObjectNum := n\<rparr>) = blockStride vb"
  "blockStride (vb\<lparr>BlockStore := st\<rparr>) = blockStride vb" "blockStride (vb\<lparr>vb_BlocksToObject := m\<rparr>) = blockStride vb"
  "blockStride (vb\<lparr>vb_gcRefcount := rc\<rparr>) = blockStride vb" "blockStride (vb\<lparr>SeqNum := q\<rparr>) = blockStride vb"
  "blockStride (vb\<lparr>Writes := ws\<rparr>) = blockStride vb" "blockStride (vb\<lparr>PendingBackendWrites := ws\<rparr>) = blockStride vb"
  "blockStride (vb\<lparr>pendingBytes := i\<rparr>) = blockStride vb" "blockStride (vb\<lparr>vb_lru := l\<rparr>) = blockStride vb"
  "blockStride (vb\<lparr>MaxPendingBytes := z\<rparr>) = blockStride vb" "blockStride (vb\<lparr>UseBlockStore := t\<rparr>) = blockStride vb"
  "blockStride (vb\<lparr>vb_ShardedWAL := sw\<rparr>) = blockStride vb" "blockStride (vb\<lparr>seqNumHighWater := q\<rparr>) = blockStride vb"
  "blockStride (vb\<lparr>nextStateSeqNum := q\<rparr>) = blockStride vb" "blockStride (vb\<lparr>chunkMagicChecked := cs\<rparr>) = blockStride vb"
  "blockStride (vb\<lparr>gcReconciled := t\<rparr>) = blockStride vb" "blockStride (vb\<lparr>gcFloor := q\<rparr>) = blockStride vb"
  "blockStride (vb\<lparr>gcFloorReady := t\<rparr>) = blockStride vb" "blockStride (vb\<lparr>gcSnapshotSafe := t\<rparr>) = blockStride vb"
  "blockStride (vb\<lparr>gcSnapshotChecked := t\<rparr>) = blockStride vb" "blockStride (vb\<lparr>gcMarkerBaseline := mb\<rparr>) = blockStride vb"
  "blockStride (vb\<lparr>gcLatchedOff := t\<rparr>) = blockStride vb" "blockStride (vb\<lparr>checkpointFiles := cf\<rparr>) = blockStride vb"
  "blockStride (vb\<lparr>BlockToObjectWallNum := q\<rparr>) = blockStride vb" "blockStride (vb\<lparr>Version := vs\<rparr>) = blockStride vb"
  "blockStride (vb\<lparr>ancestors := an\<rparr>) = blockStride vb" "blockStride (vb\<lparr>BaseBlockMap := bm\<rparr>) = blockStride vb"
  "blockStride (vb\<lparr>CacheSize := cz\<rparr>) = blockStride vb"
  by (simp_all add: blockStride_def)

definition ChunkMagic :: "bool \<Rightarrow> bytes" where
  "ChunkMagic encrypted = (if encrypted then [0x56, 0x42, 0x43, 0x45] else [0x56, 0x42, 0x43, 0x48])"

definition ChunkHeaderSize :: nat where
  "ChunkHeaderSize = 4 + 2 + 4"

definition ChunkHeader :: "('s, 'l) VB \<Rightarrow> bytes" where
  "ChunkHeader vb = ChunkMagic (EncryptionEnabled vb) @ PutUint16 (Version vb) @ PutUint32 (BlockSize vb)"

text \<open>The sixty-four bit reading of the backpressure counter.\<close>

definition PendingBytes :: "('s, 'l) VB \<Rightarrow> u64" where
  "PendingBytes vb = word_of_int (pendingBytes vb)"

definition maxPendingBytes :: "('s, 'l) VB \<Rightarrow> u64" where
  "maxPendingBytes vb = (if MaxPendingBytes vb = 0 then DefaultMaxPendingBytes else MaxPendingBytes vb)"

definition gcMap :: "('s, 'l) VB \<Rightarrow> gcRefcount" where
  "gcMap vb = (if GCEnabled vb then Some (vb_gcRefcount vb) else None)"

lemma ChunkHeader_length [simp]: "length (ChunkHeader vb) = ChunkHeaderSize"
  by (simp add: ChunkHeader_def ChunkMagic_def ChunkHeaderSize_def)

text \<open>A small volume for concrete instances: one-byte blocks, two to a chunk, log number zero open.\<close>

definition demoLru :: "unit LruOps" where
  "demoLru = \<lparr>lru_Get = (\<lambda>k l. (None, l)), lru_Add = (\<lambda>k v l. l), lru_Purge = (\<lambda>l. l)\<rparr>"

definition demoVB :: "bool \<Rightarrow> 's \<Rightarrow> ('s, unit) VB" where
  "demoVB e s =
     \<lparr>VolumeName = ''v'', VolumeSize = 64, BlockSize = 1, ObjBlockSize = 2, FlushSize = 64, MaxPendingBytes = 64,
      UploadWorkers = 1, Version = 1, SeqNum = 0, ObjectNum = 0,
      vb_BlocksToObject = \<lparr>bto_dirty = False, bto_BlockLookup = []\<rparr>, Writes = [], PendingBackendWrites = [],
      pendingBytes = 0, backendFull = False,
      vb_WAL = \<lparr>wal_files = [(0, WALHeader (demoWp e) 7)], wal_cur = Some (0, True), wal_dirty = False, wal_WallNum = 0\<rparr>,
      vb_ShardedWAL = \<lparr>sw_files = [], sw_open = [], sw_dirty = [], sw_WallNum = 0\<rparr>, UseShardedWAL = False,
      BlockToObjectWallNum = 0, checkpointFiles = [], CacheSize = 0, vb_lru = (),
      BlockStore = NewUnifiedBlockStore 1, UseBlockStore = True, vb_Backend = s, BaseBlockMap = None,
      SourceVolumeName = [], SnapshotID = [], ancestors = [], EncryptionEnabled = e, vb_aead = toyAEAD,
      volumeNameHash = replicate 32 7, VolumeUUID = [1, 2, 3, 4], SourceVolumeUUID = [0, 0, 0, 0],
      sourceVolumeNameHash = replicate 32 0, chunkMagicChecked = [], seqNumHighWater = 0, nextStateSeqNum = 0,
      GCEnabled = False, vb_gcRefcount = [], gcReconciled = False, gcFloor = 0, gcFloorReady = False,
      gcSnapshotSafe = False, gcSnapshotChecked = False, gcMarkerBaseline = None, gcLatchedOff = False\<rparr>"

lemma demoVB_walParams: "walParams (demoVB e s) = demoWp e"
  by (simp add: walParams_def demoVB_def demoWp_def)

end
