(* ===== verification/Chunks.thy ===== *)
theory Chunks
  imports Engine
begin

text \<open>
  Chunk creation (\<open>createChunkFile\<close>): sealing the blocks of a chunk, writing the object, releasing the
  pending buffer and entering the chunk's runs into the block map and the block store.
\<close>

section \<open>Definitions\<close>

datatype ChunkError =
    ErrChunkLength
  | ErrChunkBackend BackendError

definition chunkAAD :: "bytes \<Rightarrow> u64 \<Rightarrow> u64 \<Rightarrow> bytes" where
  "chunkAAD nameHash blockNum seqNum = updateAAD (initAAD (replicate AADLen 0) nameHash) blockNum seqNum"

fun sealBlocks :: "('s, 'l) VB \<Rightarrow> nat \<Rightarrow> bytes \<Rightarrow> Block list \<Rightarrow> ChunkError + bytes" where
  "sealBlocks vb i chunkBuffer [] = Inr []"
| "sealBlocks vb i chunkBuffer (mb # mbs) =
     (let bs = unat (BlockSize vb); start = i * bs; end' = start + bs
      in if end' > length chunkBuffer then Inl ErrChunkLength
         else case sealBlocks vb (Suc i) chunkBuffer mbs of
                Inl e \<Rightarrow> Inl e
              | Inr rest \<Rightarrow>
                  Inr (aead_Seal (vb_aead vb) (makeNonce (bk_SeqNum mb) (VolumeUUID vb) DomainChunk)
                         (take bs (drop start chunkBuffer)) (chunkAAD (volumeNameHash vb) (bk_Block mb) (bk_SeqNum mb)) @
                       rest))"

definition chunkBody :: "('s, 'l) VB \<Rightarrow> bytes \<Rightarrow> Block list \<Rightarrow> ChunkError + bytes" where
  "chunkBody vb chunkBuffer matchedBlocks =
     (if EncryptionEnabled vb then sealBlocks vb 0 chunkBuffer matchedBlocks else Inr chunkBuffer)"

text \<open>The pending buffer after the upload: blocks of the chunk leave it, the cache gets their data.\<close>

definition releasePending :: "'l LruOps \<Rightarrow> Block list \<Rightarrow> ('s, 'l) VB \<Rightarrow> ('s, 'l) VB" where
  "releasePending L matchedBlocks vb =
     (let matched = (\<lambda>b. bk_Block b \<in> bk_Block ` set matchedBlocks);
          gone = filter matched (PendingBackendWrites vb)
      in vb\<lparr>PendingBackendWrites := filter (\<lambda>b. \<not> matched b) (PendingBackendWrites vb),
            vb_lru := (if CacheSize vb > 0 then fold (\<lambda>b. lru_Add L (bk_Block b) (bk_Data b)) gone (vb_lru vb)
                       else vb_lru vb),
            pendingBytes := pendingBytes vb - int (sum_list (map (\<lambda>b. length (bk_Data b)) gone))\<rparr>)"

fun runLen :: "Block list \<Rightarrow> nat" where
  "runLen [] = 0"
| "runLen [b] = 1"
| "runLen (b # c # rest) = (if bk_Block c = bk_Block b + 1 then Suc (runLen (c # rest)) else 1)"

definition runLookup :: "u32 \<Rightarrow> u64 \<Rightarrow> nat \<Rightarrow> Block list \<Rightarrow> BlockLookup" where
  "runLookup stride chunkIndex runStart run =
     \<lparr>bl_SeqNums = map bk_SeqNum run, bl_StartBlock = bk_Block (hd run), bl_ObjectID = chunkIndex,
      bl_SeqNum = bk_SeqNum (hd run),
      bl_ObjectOffset = SafeIntToUint32 (int (ChunkHeaderSize + runStart * unat stride)),
      bl_NumBlocks = SafeIntToUint16 (int (length run))\<rparr>"

text \<open>The stale-run test compares with the first block of the entry that covers the run's first block.\<close>

definition staleRun :: "(u64, BlockLookup) gomap \<Rightarrow> BlockLookup \<Rightarrow> bool" where
  "staleRun m newBlock =
     (case resolveBlockLookup m (bl_StartBlock newBlock) of
        None \<Rightarrow> False
      | Some (oldBlock, pos) \<Rightarrow> bl_SeqNum newBlock \<le> bl_SeqNum oldBlock)"

definition indexRun :: "u64 \<Rightarrow> nat \<Rightarrow> Block list \<Rightarrow> ('s, 'l) VB \<Rightarrow> ('s, 'l) VB" where
  "indexRun chunkIndex runStart run vb =
     (let stride = blockStride vb; newBlock = runLookup stride chunkIndex runStart run;
          m = bto_BlockLookup (vb_BlocksToObject vb)
      in if staleRun m newBlock
         then (if GCEnabled vb \<and> map_of (vb_gcRefcount vb) chunkIndex = None
               then vb\<lparr>vb_gcRefcount := gput chunkIndex 0 (vb_gcRefcount vb)\<rparr> else vb)
         else (case insertCoalescedLocked newBlock stride (m, gcMap vb) of
                 (m', gc') \<Rightarrow>
                   vb\<lparr>vb_BlocksToObject := (vb_BlocksToObject vb)\<lparr>bto_BlockLookup := m'\<rparr>,
                      vb_gcRefcount := (case gc' of Some rc \<Rightarrow> rc | None \<Rightarrow> vb_gcRefcount vb),
                      BlockStore :=
                        (if UseBlockStore vb
                         then snd (MarkPersistedRange (BlockStore vb)
                                (map (\<lambda>i. bk_Block (hd run) + of_nat i) [0..<length run]) chunkIndex
                                (bl_ObjectOffset newBlock) stride (map bk_SeqNum run))
                         else BlockStore vb)\<rparr>))"

lemma runLen_pos: "0 < runLen (mb # mbs)"
  by (cases mbs) auto

function indexRuns :: "u64 \<Rightarrow> nat \<Rightarrow> Block list \<Rightarrow> ('s, 'l) VB \<Rightarrow> ('s, 'l) VB" where
  "indexRuns chunkIndex runStart [] vb = vb"
| "indexRuns chunkIndex runStart (mb # mbs) vb =
     (let n = runLen (mb # mbs)
      in indexRuns chunkIndex (runStart + n) (drop n (mb # mbs))
           (indexRun chunkIndex runStart (take n (mb # mbs)) vb))"
  by pat_completeness auto

termination
  by (relation "measure (\<lambda>(c, i, mbs, vb). length mbs)") (use runLen_pos in \<open>fastforce simp: Let_def\<close>)+

definition createChunkFile ::
    "'s Backend \<Rightarrow> 'l LruOps \<Rightarrow> chunkJob \<Rightarrow> ('s, 'l) VB \<Rightarrow> ChunkError option \<times> ('s, 'l) VB" where
  "createChunkFile B L job vb =
     (let chunkIndex = ObjectNum vb; vb = vb\<lparr>ObjectNum := ObjectNum vb + 1\<rparr>
      in case chunkBody vb (cj_buf job) (cj_blocks job) of
           Inl e \<Rightarrow> (Some e, vb)
         | Inr body \<Rightarrow>
             (case be_Write B FileTypeChunk chunkIndex (ChunkHeader vb) body (vb_Backend vb) of
                (Some e, s) \<Rightarrow> (Some (ErrChunkBackend e), vb\<lparr>vb_Backend := s\<rparr>)
              | (None, s) \<Rightarrow>
                  let vb = releasePending L (cj_blocks job) (vb\<lparr>vb_Backend := s\<rparr>);
                      vb = indexRuns chunkIndex 0 (cj_blocks job) vb
                  in (None, vb\<lparr>vb_BlocksToObject := (vb_BlocksToObject vb)\<lparr>bto_dirty := True\<rparr>\<rparr>)))"

text \<open>
  The upload pool.  A schedule says in which order the \<open>createChunkFile\<close> calls complete, and which jobs are
  submitted late: a job whose submission comes after the first failure is dropped.  Jobs already handed to
  a worker still run, and the first error is the one reported.
\<close>

record UploadSched =
  us_order :: "chunkJob list \<Rightarrow> chunkJob list"
  us_late :: "chunkJob \<Rightarrow> bool"

fun uploadJobs ::
    "'s Backend \<Rightarrow> 'l LruOps \<Rightarrow> (chunkJob \<Rightarrow> bool) \<Rightarrow> bool \<Rightarrow> chunkJob list \<Rightarrow> ('s, 'l) VB \<Rightarrow> ChunkError option \<times> ('s, 'l) VB" where
  "uploadJobs B L late failed [] vb = (None, vb)"
| "uploadJobs B L late failed (job # jobs) vb =
     (if failed \<and> late job then uploadJobs B L late failed jobs vb
      else case createChunkFile B L job vb of
             (e, vb) \<Rightarrow> (case uploadJobs B L late (failed \<or> e \<noteq> None) jobs vb of
                           (e', vb) \<Rightarrow> (if e = None then e' else e, vb)))"

section \<open>Runs\<close>

lemma runLen_le: "runLen mbs \<le> length mbs"
  by (induction mbs rule: runLen.induct) auto

lemma runLen_blocks: "i < runLen mbs \<Longrightarrow> bk_Block (mbs ! i) = bk_Block (hd mbs) + of_nat i"
proof (induction mbs arbitrary: i rule: runLen.induct)
  case (3 b c rest)
  then show ?case by (cases i) (auto split: if_splits)
qed auto

definition run_ok :: "Block list \<Rightarrow> bool" where
  "run_ok run \<longleftrightarrow> run \<noteq> [] \<and> length run \<le> 65535 \<and> unat (bk_Block (hd run)) + length run < 2 ^ 64 \<and>
     (\<forall>i < length run. bk_Block (run ! i) = bk_Block (hd run) + of_nat i)"

lemma run_block_unat:
  assumes "run_ok run" "i < length run"
  shows "unat (bk_Block (run ! i)) = unat (bk_Block (hd run)) + i"
  using assms by (simp add: run_ok_def unat_plus_nowrap unat_of_nat_u64)

lemma sorted_unat_ge:
  assumes "sorted_wrt (<) (map bk_Block mbs)" "i < length mbs"
  shows "unat (bk_Block (hd mbs)) + i \<le> unat (bk_Block (mbs ! i))"
  using assms(2)
proof (induction i)
  case 0
  then show ?case by (simp add: hd_conv_nth)
next
  case (Suc i)
  have "bk_Block (mbs ! i) < bk_Block (mbs ! Suc i)"
    using sorted_wrt_nth_less [OF assms(1), of i "Suc i"] Suc.prems by simp
  then show ?case using Suc by (simp add: word_less_nat_alt)
qed

lemma run_ok_prefix:
  assumes "sorted_wrt (<) (map bk_Block mbs)" "\<forall>mb \<in> set mbs. bk_Block mb \<noteq> 18446744073709551615"
    "mbs \<noteq> []" "length mbs \<le> 65535"
  shows "run_ok (take (runLen mbs) mbs)"
proof -
  let ?n = "runLen mbs"
  have n: "0 < ?n" "?n \<le> length mbs" using runLen_le runLen_pos assms(3) by (metis list.exhaust, metis)
  have "unat (bk_Block (hd mbs)) + (?n - 1) \<le> unat (bk_Block (mbs ! (?n - 1)))"
    using n by (intro sorted_unat_ge [OF assms(1)]) simp
  moreover have "unat (bk_Block (mbs ! (?n - 1))) < 18446744073709551615"
    using assms(2) n by (intro unat_less_max) auto
  ultimately have "unat (bk_Block (hd mbs)) + ?n < 2 ^ 64" using n(1) by simp
  moreover have "hd (take ?n mbs) = hd mbs" using n by (simp add: hd_take)
  ultimately show ?thesis using n assms(3,4) runLen_blocks [of _ mbs] unfolding run_ok_def by simp
qed

lemma runLookup_spec:
  fixes c :: u64
  assumes "run_ok run" "ChunkHeaderSize + (runStart + length run) * unat stride < 4294967296"
  defines "e \<equiv> runLookup stride c runStart run"
  shows "blm.ext_ok e" "blm.covers e b \<longleftrightarrow> (\<exists>i < length run. b = bk_Block (run ! i))"
    "i < length run \<Longrightarrow> bl_cell stride e (unat (bk_Block (run ! i)) - unat (bl_StartBlock e)) =
       (c, of_nat (ChunkHeaderSize + (runStart + i) * unat stride), bk_SeqNum (run ! i))"
    "bl_StartBlock e = bk_Block (hd run)" "bl_SeqNum e = bk_SeqNum (hd run)" "bl_seqNumAt e 0 = bl_SeqNum e"
proof -
  have len: "0 < length run" "length run < 65536" using assms(1) by (auto simp: run_ok_def)
  have num: "unat (bl_NumBlocks e) = length run" unfolding e_def runLookup_def using len unat_SafeIntToUint16 by simp
  show st: "bl_StartBlock e = bk_Block (hd run)" "bl_SeqNum e = bk_SeqNum (hd run)"
    by (simp_all add: e_def runLookup_def)
  show "bl_seqNumAt e 0 = bl_SeqNum e"
    using len by (simp add: e_def runLookup_def bl_seqNumAt_def hd_conv_nth hd_map)
  show ok: "blm.ext_ok e"
    using assms(1) num len by (auto simp: blm.ext_ok_def st run_ok_def unat_gt_0 [symmetric])
  show "blm.covers e b \<longleftrightarrow> (\<exists>i < length run. b = bk_Block (run ! i))"
  proof
    assume "blm.covers e b"
    then have *: "unat (bk_Block (hd run)) \<le> unat b" "unat b < unat (bk_Block (hd run)) + length run"
      using blm.covers_iff [OF ok] num st by auto
    define i where "i = unat b - unat (bk_Block (hd run))"
    have "i < length run" using * by (simp add: i_def)
    moreover from this have "unat (bk_Block (run ! i)) = unat b" using run_block_unat [OF assms(1)] * by (simp add: i_def)
    ultimately show "\<exists>i < length run. b = bk_Block (run ! i)" by (metis unat_eq_iff)
  next
    assume "\<exists>i < length run. b = bk_Block (run ! i)"
    then show "blm.covers e b" using run_block_unat [OF assms(1)] blm.covers_iff [OF ok] num st by auto
  qed
  assume i: "i < length run"
  have pos: "unat (bk_Block (run ! i)) - unat (bl_StartBlock e) = i" using run_block_unat [OF assms(1) i] st by simp
  have "(runStart + i) * unat stride \<le> (runStart + length run) * unat stride"
    "runStart * unat stride \<le> (runStart + length run) * unat stride" using i by (intro mult_le_mono1; simp)+
  then have bound: "ChunkHeaderSize + (runStart + i) * unat stride < 4294967296" "i < 4294967296"
    "ChunkHeaderSize + runStart * unat stride < 4294967296"
    using assms(2) i len by linarith+
  have "bl_offsetAt e (int i) stride = of_nat (ChunkHeaderSize + (runStart + i) * unat stride)"
  proof -
    have "bl_ObjectOffset e = of_nat (ChunkHeaderSize + runStart * unat stride)"
      unfolding e_def runLookup_def BlockLookup.simps by (rule SafeIntToUint32_nat [OF bound(3)])
    then show ?thesis using bound(2) by (simp add: bl_offsetAt_nat algebra_simps)
  qed
  moreover have "bl_seqNumAt e (int i) = bk_SeqNum (run ! i)"
    using i by (simp add: e_def runLookup_def bl_seqNumAt_def)
  ultimately show "bl_cell stride e (unat (bk_Block (run ! i)) - unat (bl_StartBlock e)) =
      (c, of_nat (ChunkHeaderSize + (runStart + i) * unat stride), bk_SeqNum (run ! i))"
    unfolding pos by (simp add: bl_cell_def e_def runLookup_def)
qed

section \<open>The stale-run test on a well-formed map\<close>

definition heads_ok :: "(u64, BlockLookup) gomap \<Rightarrow> bool" where
  "heads_ok m \<longleftrightarrow> (\<forall>k e. map_of m k = Some e \<longrightarrow> bl_seqNumAt e 0 = bl_SeqNum e)"

lemma sliceSeqNums_hd:
  "bl_SeqNums e = sliceSeqNums bl from to \<Longrightarrow> bl_SeqNum e = bl_seqNumAt bl from \<Longrightarrow> bl_seqNumAt e 0 = bl_SeqNum e"
  by (auto simp: bl_seqNumAt_def [of e] sliceSeqNums_def nth_upto split: if_splits)

lemma heads_ok_pieces: "bl_seqNumAt (bl_head s e) 0 = bl_SeqNum (bl_head s e)"
  "bl_seqNumAt (bl_tail stride s e) 0 = bl_SeqNum (bl_tail stride s e)"
  unfolding bl_head_def bl_tail_def Let_def by (rule sliceSeqNums_hd, simp, simp)+

lemma heads_ok_gput: "heads_ok m \<Longrightarrow> bl_seqNumAt e 0 = bl_SeqNum e \<Longrightarrow> heads_ok (gput k e m)"
  by (simp add: heads_ok_def)

lemma heads_ok_gdel: "heads_ok m \<Longrightarrow> heads_ok (gdel k m)"
  by (simp add: heads_ok_def)

lemma insertKey_heads: "heads_ok (fst st) \<Longrightarrow> heads_ok (fst (insertKey ns ne stride k st))"
  by (auto simp: insertKey_def Let_def heads_ok_pieces intro!: heads_ok_gput heads_ok_gdel split: option.splits)

lemma insertKeys_heads: "heads_ok (fst st) \<Longrightarrow> heads_ok (fst (fold (insertKey ns ne stride) ks st))"
  by (induction ks arbitrary: st) (simp_all add: insertKey_heads)

lemma insertCoalescedLocked_heads:
  "heads_ok m \<Longrightarrow> bl_seqNumAt e 0 = bl_SeqNum e \<Longrightarrow> heads_ok (fst (insertCoalescedLocked e stride (m, gc)))"
  using insertKeys_heads [of "(m, gc)"] by (simp add: insertCoalescedLocked_def Let_def heads_ok_gput)

text \<open>
  The chunks of the current drain are \<open>C\<close>: their cells are left out of the comparison, and the blocks
  still to be entered are in none of them.
\<close>

definition newer_than_map :: "u32 \<Rightarrow> u64 set \<Rightarrow> (u64, BlockLookup) gomap \<Rightarrow> Block list \<Rightarrow> bool" where
  "newer_than_map stride C m mbs \<longleftrightarrow>
     (\<forall>b obj off q. blm.cell_at stride m b = Some (obj, off, q) \<longrightarrow> obj \<in> C \<or> (\<forall>mb \<in> set mbs. q < bk_SeqNum mb)) \<and>
     (\<forall>mb \<in> set mbs. \<forall>obj off q. blm.cell_at stride m (bk_Block mb) = Some (obj, off, q) \<longrightarrow> obj \<notin> C)"

lemma not_stale:
  assumes "blm.emap_ok m" "heads_ok m" "newer_than_map stride C m mbs" "mb \<in> set mbs"
    "bl_StartBlock e = bk_Block mb" "bl_SeqNum e = bk_SeqNum mb"
  shows "\<not> staleRun m e"
proof (cases "resolveBlockLookup m (bk_Block mb)")
  case None
  then show ?thesis using assms(5) by (simp add: staleRun_def)
next
  case (Some r)
  obtain old pos where r: "r = (old, pos)" by fastforce
  then have "blm.entry_at m (bk_Block mb) = Some old" using Some resolveBlockLookup_eq [OF assms(1)] by auto
  then obtain k where k: "map_of m k = Some old" "blm.covers old (bk_Block mb)"
    using blm.entry_at_iff [OF assms(1)] by blast
  have ok: "blm.ext_ok old" using blm.emap_okD [OF assms(1)] k by blast
  have "bl_ObjectID old \<notin> C"
    using blm.cell_at_entry [OF assms(1) k, of stride] assms(3,4) by (auto simp: newer_than_map_def bl_cell_def)
  moreover have "blm.cell_at stride m (bl_StartBlock old) = Some (bl_ObjectID old, bl_offsetAt old 0 stride, bl_SeqNum old)"
    using blm.cell_at_entry [OF assms(1) k(1) blm.covers_start [OF ok], of stride] assms(2) k(1)
    by (simp add: bl_cell_def heads_ok_def)
  ultimately have "bl_SeqNum old < bk_SeqNum mb" using assms(3,4) unfolding newer_than_map_def by blast
  then show ?thesis using Some r assms(5,6) by (simp add: staleRun_def)
qed

section \<open>Entering a chunk into the indexes\<close>

abbreviation vbMap :: "('s, 'l) VB \<Rightarrow> (u64, BlockLookup) gomap" where
  "vbMap vb \<equiv> bto_BlockLookup (vb_BlocksToObject vb)"

lemma indexRun_frame:
  "\<exists>m gc st. indexRun c i run vb = vb\<lparr>vb_BlocksToObject := (vb_BlocksToObject vb)\<lparr>bto_BlockLookup := m\<rparr>,
     vb_gcRefcount := gc, BlockStore := st\<rparr>"
proof (cases "staleRun (vbMap vb) (runLookup (blockStride vb) c i run)")
  case True
  then show ?thesis
    by (intro exI [of _ "vbMap vb"] exI [of _ "vb_gcRefcount (indexRun c i run vb)"] exI [of _ "BlockStore vb"])
       (simp add: indexRun_def Let_def)
next
  case False
  obtain m' gc' where ins: "insertCoalescedLocked (runLookup (blockStride vb) c i run) (blockStride vb) (vbMap vb, gcMap vb) = (m', gc')"
    by fastforce
  show ?thesis unfolding indexRun_def Let_def by (simp only: False if_False ins prod.case) blast
qed

lemma indexRuns_frame:
  "\<exists>m gc st. indexRuns c i mbs vb = vb\<lparr>vb_BlocksToObject := (vb_BlocksToObject vb)\<lparr>bto_BlockLookup := m\<rparr>,
     vb_gcRefcount := gc, BlockStore := st\<rparr>"
proof (induction c i mbs vb rule: indexRuns.induct)
  case (1 c i vb)
  then show ?case
    by (intro exI [of _ "vbMap vb"] exI [of _ "vb_gcRefcount vb"] exI [of _ "BlockStore vb"]) simp
next
  case (2 c i mb mbs vb)
  obtain m gc st where r: "indexRun c i (take (runLen (mb # mbs)) (mb # mbs)) vb =
      vb\<lparr>vb_BlocksToObject := (vb_BlocksToObject vb)\<lparr>bto_BlockLookup := m\<rparr>, vb_gcRefcount := gc, BlockStore := st\<rparr>"
    using indexRun_frame by blast
  show ?case using 2 [OF refl] unfolding indexRuns.simps Let_def r by simp
qed

definition map_inv :: "('s, 'l) VB \<Rightarrow> bool" where
  "map_inv vb \<longleftrightarrow> blm.emap_ok (vbMap vb) \<and> heads_ok (vbMap vb) \<and> refs_exact (vbMap vb) (gcMap vb)"

lemma insertKeys_counts:
  "snd st \<noteq> None \<Longrightarrow> snd (fold (insertKey ns ne stride) ks st) \<noteq> None"
proof (induction ks arbitrary: st)
  case (Cons k ks)
  have "snd (insertKey ns ne stride k st) \<noteq> None"
    using Cons.prems by (auto simp: insertKey_def Let_def gcInc_def gcDec_def split: option.splits if_splits)
  then show ?case using Cons.IH by simp
qed simp

lemma insertCoalescedLocked_counts:
  "gc \<noteq> None \<Longrightarrow> snd (insertCoalescedLocked e stride (m, gc)) \<noteq> None"
  using insertKeys_counts [of "(m, gc)"] by (auto simp: insertCoalescedLocked_def Let_def gcInc_def split: option.splits)

lemma indexRun_not_stale:
  assumes "\<not> staleRun (vbMap vb) (runLookup (blockStride vb) c i run)"
  shows "vbMap (indexRun c i run vb) =
      fst (insertCoalescedLocked (runLookup (blockStride vb) c i run) (blockStride vb) (vbMap vb, gcMap vb))"
    "gcMap (indexRun c i run vb) = (if GCEnabled vb then
      snd (insertCoalescedLocked (runLookup (blockStride vb) c i run) (blockStride vb) (vbMap vb, gcMap vb)) else None)"
    "BlockStore (indexRun c i run vb) = (if UseBlockStore vb then snd (MarkPersistedRange (BlockStore vb)
       (map (\<lambda>i. bk_Block (hd run) + of_nat i) [0..<length run]) c
       (bl_ObjectOffset (runLookup (blockStride vb) c i run)) (blockStride vb) (map bk_SeqNum run)) else BlockStore vb)"
proof -
  obtain m' gc' where ins: "insertCoalescedLocked (runLookup (blockStride vb) c i run) (blockStride vb) (vbMap vb, gcMap vb) = (m', gc')"
    by fastforce
  have "GCEnabled vb \<Longrightarrow> gc' \<noteq> None"
    using insertCoalescedLocked_counts [of "gcMap vb" "runLookup (blockStride vb) c i run" "blockStride vb" "vbMap vb"] ins
    by (simp add: gcMap_def)
  then show "vbMap (indexRun c i run vb) =
      fst (insertCoalescedLocked (runLookup (blockStride vb) c i run) (blockStride vb) (vbMap vb, gcMap vb))"
    "gcMap (indexRun c i run vb) = (if GCEnabled vb then
      snd (insertCoalescedLocked (runLookup (blockStride vb) c i run) (blockStride vb) (vbMap vb, gcMap vb)) else None)"
    "BlockStore (indexRun c i run vb) = (if UseBlockStore vb then snd (MarkPersistedRange (BlockStore vb)
       (map (\<lambda>i. bk_Block (hd run) + of_nat i) [0..<length run]) c
       (bl_ObjectOffset (runLookup (blockStride vb) c i run)) (blockStride vb) (map bk_SeqNum run)) else BlockStore vb)"
    unfolding ins indexRun_def Let_def by (auto simp: assms ins gcMap_def)
qed

lemma indexRun_map:
  assumes "map_inv vb" "\<not> staleRun (vbMap vb) (runLookup (blockStride vb) c i run)" "run_ok run"
    "ChunkHeaderSize + (i + length run) * unat (blockStride vb) < 4294967296"
  shows "map_inv (indexRun c i run vb)"
    "k < length run \<Longrightarrow> blm.cell_at (blockStride vb) (vbMap (indexRun c i run vb)) (bk_Block (run ! k)) =
       Some (c, of_nat (ChunkHeaderSize + (i + k) * unat (blockStride vb)), bk_SeqNum (run ! k))"
    "b \<notin> bk_Block ` set run \<Longrightarrow>
       blm.cell_at (blockStride vb) (vbMap (indexRun c i run vb)) b = blm.cell_at (blockStride vb) (vbMap vb) b"
proof -
  let ?e = "runLookup (blockStride vb) c i run"
  note e = runLookup_spec [OF assms(3,4), where c = c]
  note vb' = indexRun_not_stale [OF assms(2)]
  have inv: "blm.emap_ok (vbMap vb)" "heads_ok (vbMap vb)" "refs_exact (vbMap vb) (gcMap vb)"
    using assms(1) by (simp_all add: map_inv_def)
  note spec = insertCoalescedLocked_spec [OF inv(1) e(1), of "blockStride vb" "gcMap vb"]
  show "map_inv (indexRun c i run vb)"
    unfolding map_inv_def vb' using spec(1) insertCoalescedLocked_heads [OF inv(2) e(6)]
      insertCoalescedLocked_refs [OF inv(1) e(1) inv(3)]
    by (auto simp: refs_exact_def)
  show "k < length run \<Longrightarrow> blm.cell_at (blockStride vb) (vbMap (indexRun c i run vb)) (bk_Block (run ! k)) =
       Some (c, of_nat (ChunkHeaderSize + (i + k) * unat (blockStride vb)), bk_SeqNum (run ! k))"
    unfolding vb' spec(2) using e(2,3) by auto
  show "b \<notin> bk_Block ` set run \<Longrightarrow>
       blm.cell_at (blockStride vb) (vbMap (indexRun c i run vb)) b = blm.cell_at (blockStride vb) (vbMap vb) b"
    unfolding vb' spec(2) using e(2) by (metis image_eqI nth_mem)
qed

lemma newer_than_map_sub:
  "newer_than_map stride C m mbs \<Longrightarrow> set mbs' \<subseteq> set mbs \<Longrightarrow> newer_than_map stride C m mbs'"
  unfolding newer_than_map_def by blast

lemma newer_than_map_step:
  assumes "newer_than_map stride C m mbs" "c \<in> C" "bk_Block ` set mbs \<inter> bk_Block ` set run = {}"
    "\<And>mb. mb \<in> set run \<Longrightarrow> \<exists>off q. blm.cell_at stride m' (bk_Block mb) = Some (c, off, q)"
    "\<And>b. b \<notin> bk_Block ` set run \<Longrightarrow> blm.cell_at stride m' b = blm.cell_at stride m b"
  shows "newer_than_map stride C m' mbs"
  unfolding newer_than_map_def
proof (intro conjI allI ballI impI)
  fix b obj off q assume cell: "blm.cell_at stride m' b = Some (obj, off, q)"
  show "obj \<in> C \<or> (\<forall>mb \<in> set mbs. q < bk_SeqNum mb)"
  proof (cases "b \<in> bk_Block ` set run")
    case True
    then show ?thesis using assms(2,4) cell by fastforce
  next
    case False
    then show ?thesis using assms(1,5) cell unfolding newer_than_map_def by metis
  qed
next
  fix mb obj off q assume mb: "mb \<in> set mbs" and cell: "blm.cell_at stride m' (bk_Block mb) = Some (obj, off, q)"
  have "bk_Block mb \<notin> bk_Block ` set run" using assms(3) mb by blast
  then have "blm.cell_at stride m (bk_Block mb) = Some (obj, off, q)" using assms(5) cell by simp
  then show "obj \<notin> C" using assms(1) mb unfolding newer_than_map_def by blast
qed

definition matched_ok :: "Block list \<Rightarrow> bool" where
  "matched_ok mbs \<longleftrightarrow> sorted_wrt (<) (map bk_Block mbs) \<and> (\<forall>mb \<in> set mbs. bk_Block mb \<noteq> 18446744073709551615) \<and>
     length mbs \<le> 65535"

lemma matched_ok_split:
  assumes "matched_ok mbs" "mbs \<noteq> []"
  defines "n \<equiv> runLen mbs"
  shows "run_ok (take n mbs)" "matched_ok (drop n mbs)" "bk_Block ` set (drop n mbs) \<inter> bk_Block ` set (take n mbs) = {}"
proof -
  show "run_ok (take n mbs)" unfolding n_def using assms(1,2) by (intro run_ok_prefix) (simp_all add: matched_ok_def)
  have s: "sorted_wrt (<) (map bk_Block (take n mbs) @ map bk_Block (drop n mbs))"
    using assms(1) by (simp add: matched_ok_def flip: map_append)
  then show "matched_ok (drop n mbs)"
    using assms(1) in_set_dropD by (fastforce simp: matched_ok_def sorted_wrt_append)
  show "bk_Block ` set (drop n mbs) \<inter> bk_Block ` set (take n mbs) = {}"
    using s by (fastforce simp: sorted_wrt_append)
qed

lemma indexRuns_map:
  assumes "map_inv vb" "newer_than_map (blockStride vb) C (vbMap vb) mbs" "c \<in> C" "matched_ok mbs"
    "ChunkHeaderSize + (i + length mbs) * unat (blockStride vb) < 4294967296"
  shows "map_inv (indexRuns c i mbs vb) \<and>
    (\<forall>k < length mbs. blm.cell_at (blockStride vb) (vbMap (indexRuns c i mbs vb)) (bk_Block (mbs ! k)) =
       Some (c, of_nat (ChunkHeaderSize + (i + k) * unat (blockStride vb)), bk_SeqNum (mbs ! k))) \<and>
    (\<forall>b. b \<notin> bk_Block ` set mbs \<longrightarrow>
       blm.cell_at (blockStride vb) (vbMap (indexRuns c i mbs vb)) b = blm.cell_at (blockStride vb) (vbMap vb) b)"
  using assms
proof (induction c i mbs vb rule: indexRuns.induct)
  case (1 c i vb)
  then show ?case by simp
next
  case (2 c i mb mbs vb)
  let ?all = "mb # mbs"
  let ?n = "runLen ?all"
  let ?run = "take ?n ?all" and ?rest = "drop ?n ?all" and ?vb = "indexRun c i (take (runLen (mb # mbs)) (mb # mbs)) vb"
  let ?st = "blockStride vb"
  have n: "0 < ?n" "?n \<le> length ?all" using runLen_pos runLen_le by blast+
  note split = matched_ok_split [OF "2.prems"(4)]
  have run: "run_ok ?run" "matched_ok ?rest" "bk_Block ` set ?rest \<inter> bk_Block ` set ?run = {}" using split by auto
  have len: "length ?run = ?n" "length ?rest = length ?all - ?n" using n(2) by simp_all
  have "?n * unat ?st \<le> length ?all * unat ?st" using n(2) by (rule mult_le_mono1)
  then have bound: "ChunkHeaderSize + (i + length ?run) * unat ?st < 4294967296"
    using "2.prems"(5) len(1) by (simp add: add_mult_distrib)
  have hd: "hd ?run = mb" using n(1) by (simp add: hd_take)
  have "\<not> staleRun (vbMap vb) (runLookup ?st c i ?run)"
    using not_stale [of "vbMap vb" ?st C ?all mb] "2.prems"(1,2) hd by (simp add: map_inv_def runLookup_def)
  note step = indexRun_map [OF "2.prems"(1) this run(1) bound]
  obtain m gc st where "?vb = vb\<lparr>vb_BlocksToObject := (vb_BlocksToObject vb)\<lparr>bto_BlockLookup := m\<rparr>,
      vb_gcRefcount := gc, BlockStore := st\<rparr>" using indexRun_frame by blast
  then have stride: "blockStride ?vb = ?st" by (simp add: blockStride_def)
  have cells: "\<exists>off q. blm.cell_at ?st (vbMap ?vb) (bk_Block x) = Some (c, off, q)" if "x \<in> set ?run" for x
    using that step(2) by (auto simp: in_set_conv_nth)
  have "newer_than_map ?st C (vbMap ?vb) ?rest"
    using newer_than_map_step [OF newer_than_map_sub [OF "2.prems"(2) set_drop_subset] "2.prems"(3) run(3) cells step(3)] .
  moreover have "ChunkHeaderSize + (i + ?n + length ?rest) * unat ?st < 4294967296"
    using "2.prems"(5) n(2) len(2) by simp
  ultimately have IH: "map_inv (indexRuns c (i + ?n) ?rest ?vb) \<and>
    (\<forall>k < length ?rest. blm.cell_at ?st (vbMap (indexRuns c (i + ?n) ?rest ?vb)) (bk_Block (?rest ! k)) =
       Some (c, of_nat (ChunkHeaderSize + (i + ?n + k) * unat ?st), bk_SeqNum (?rest ! k))) \<and>
    (\<forall>b. b \<notin> bk_Block ` set ?rest \<longrightarrow>
       blm.cell_at ?st (vbMap (indexRuns c (i + ?n) ?rest ?vb)) b = blm.cell_at ?st (vbMap ?vb) b)"
    using "2.IH" [OF refl step(1)] "2.prems"(3) run(2) unfolding stride by blast
  let ?m = "vbMap (indexRuns c (i + ?n) ?rest ?vb)"
  have res: "indexRuns c i ?all vb = indexRuns c (i + ?n) ?rest ?vb" by (simp add: Let_def)
  have "blm.cell_at ?st ?m (bk_Block (?all ! k)) =
      Some (c, of_nat (ChunkHeaderSize + (i + k) * unat ?st), bk_SeqNum (?all ! k))" if k: "k < length ?all" for k
  proof (cases "k < ?n")
    case True
    then have nth: "?run ! k = ?all ! k" and mem: "bk_Block (?all ! k) \<in> bk_Block ` set ?run"
      using n(2) by (simp, metis image_eqI len(1) nth_mem nth_take)
    then have "bk_Block (?all ! k) \<notin> bk_Block ` set ?rest" using run(3) by blast
    then have "blm.cell_at ?st ?m (bk_Block (?all ! k)) = blm.cell_at ?st (vbMap ?vb) (bk_Block (?all ! k))"
      using IH by blast
    then show ?thesis using step(2) [of k, unfolded nth] True len(1) by (simp only:)
  next
    case False
    then have "?rest ! (k - ?n) = ?all ! k" "i + ?n + (k - ?n) = i + k" "k - ?n < length ?rest" using k n(2) by auto
    then show ?thesis using IH by metis
  qed
  moreover have "blm.cell_at ?st ?m b = blm.cell_at ?st (vbMap vb) b" if "b \<notin> bk_Block ` set ?all" for b
  proof -
    have "set ?run \<subseteq> set ?all" "set ?rest \<subseteq> set ?all" by (rule set_take_subset, rule set_drop_subset)
    then have "b \<notin> bk_Block ` set ?run" "b \<notin> bk_Block ` set ?rest" using that by (meson image_mono subsetD)+
    then show ?thesis using IH [THEN conjunct2, THEN conjunct2, rule_format] step(3) by metis
  qed
  ultimately show ?case unfolding res using IH by blast
qed

section \<open>What a chunk object holds\<close>

lemma concat_slot:
  "\<lbrakk>\<forall>x \<in> set xs. length x = n; k < length xs\<rbrakk> \<Longrightarrow> take n (drop (k * n) (concat xs)) = xs ! k"
proof (induction xs arbitrary: k)
  case (Cons x xs)
  then show ?case by (cases k) simp_all
qed simp

lemma concat_length: "\<forall>x \<in> set xs. length x = n \<Longrightarrow> length (concat xs) = length xs * n"
  by (induction xs) simp_all

definition storedForm :: "('s, 'l) VB \<Rightarrow> Block \<Rightarrow> bytes" where
  "storedForm vb b = (if EncryptionEnabled vb
     then aead_Seal (vb_aead vb) (makeNonce (bk_SeqNum b) (VolumeUUID vb) DomainChunk) (bk_Data b)
            (chunkAAD (volumeNameHash vb) (bk_Block b) (bk_SeqNum b))
     else bk_Data b)"

definition geometry_ok :: "('s, 'l) VB \<Rightarrow> bool" where
  "geometry_ok vb \<longleftrightarrow> 0 < unat (BlockSize vb) \<and> unat (BlockSize vb) + 16 < 4294967296 \<and>
     (EncryptionEnabled vb \<longrightarrow> aead_ok (vb_aead vb))"

definition full_blocks :: "('s, 'l) VB \<Rightarrow> Block list \<Rightarrow> bool" where
  "full_blocks vb g \<longleftrightarrow> (\<forall>b \<in> set g. length (bk_Data b) = unat (BlockSize vb))"

lemma stride_unat: "geometry_ok vb \<Longrightarrow>
    unat (blockStride vb) = unat (BlockSize vb) + (if EncryptionEnabled vb then 16 else 0)"
  by (simp add: geometry_ok_def blockStride_def unat_plus_nowrap32)

lemma stride_pos: "geometry_ok vb \<Longrightarrow> blockStride vb \<noteq> 0"
  using stride_unat [of vb] by (auto simp: geometry_ok_def unat_eq_0 [symmetric])

lemma storedForm_length:
  "geometry_ok vb \<Longrightarrow> length (bk_Data b) = unat (BlockSize vb) \<Longrightarrow> length (storedForm vb b) = unat (blockStride vb)"
  by (simp add: stride_unat storedForm_def geometry_ok_def aead_okD(2))

lemma sealBlocks_concat:
  "\<lbrakk>EncryptionEnabled vb; full_blocks vb (pre @ g)\<rbrakk> \<Longrightarrow>
     sealBlocks vb (length pre) (concat (map bk_Data (pre @ g))) (map matchedBlock g) =
     Inr (concat (map (storedForm vb) g))"
proof (induction g arbitrary: pre)
  case (Cons b g)
  let ?n = "unat (BlockSize vb)" and ?buf = "concat (map bk_Data (pre @ b # g))"
  have len: "\<forall>x \<in> set (map bk_Data (pre @ b # g)). length x = ?n" using Cons.prems(2) by (auto simp: full_blocks_def)
  have "length ?buf = length (pre @ b # g) * ?n" using concat_length [OF len] by simp
  then have fits: "\<not> length pre * ?n + ?n > length ?buf" by (simp add: algebra_simps)
  have slot: "take ?n (drop (length pre * ?n) ?buf) = bk_Data b"
    using concat_slot [OF len, of "length pre"] by (simp add: nth_append)
  have "sealBlocks vb (Suc (length pre)) ?buf (map matchedBlock g) = Inr (concat (map (storedForm vb) g))"
    using Cons.IH [of "pre @ [b]"] Cons.prems by simp
  then show ?case using fits slot Cons.prems(1)
    unfolding list.map sealBlocks.simps Let_def by (simp add: matchedBlock_def storedForm_def)
qed simp

lemma chunkBody_job:
  "full_blocks vb g \<Longrightarrow> chunkBody vb (cj_buf (job_of g)) (cj_blocks (job_of g)) = Inr (concat (map (storedForm vb) g))"
proof (cases "EncryptionEnabled vb")
  case True
  assume "full_blocks vb g"
  then show ?thesis using sealBlocks_concat [of vb "[]" g] True by (simp add: chunkBody_def job_of_def)
next
  case False
  then have "storedForm vb = bk_Data" by (simp add: storedForm_def fun_eq_iff)
  then show ?thesis using False by (simp add: chunkBody_def job_of_def)
qed

text \<open>
  What a reader finds for a block in the backend: the place the map gives it, read from the chunk and
  opened under the sequence number of the map.
\<close>

definition openStored :: "('s, 'l) VB \<Rightarrow> u64 \<Rightarrow> u64 \<Rightarrow> bytes \<Rightarrow> bytes option" where
  "openStored vb b q raw = (if EncryptionEnabled vb
     then aead_Open (vb_aead vb) (makeNonce q (VolumeUUID vb) DomainChunk) raw (chunkAAD (volumeNameHash vb) b q)
     else Some raw)"

definition blockOnBackend :: "'s Backend \<Rightarrow> ('s, 'l) VB \<Rightarrow> u64 \<Rightarrow> bytes option" where
  "blockOnBackend B vb b =
     (case LookupBlockToObject (vb_BlocksToObject vb) (blockStride vb) b of
        None \<Rightarrow> None
      | Some (obj, off, q) \<Rightarrow>
          (case be_Read B (vb_Backend vb) FileTypeChunk obj off (blockStride vb) of
             Inl e \<Rightarrow> None
           | Inr raw \<Rightarrow> openStored vb b q raw))"

lemma openStored_form:
  "geometry_ok vb \<Longrightarrow> openStored vb (bk_Block b) (bk_SeqNum b) (storedForm vb b) = Some (bk_Data b)"
  by (simp add: openStored_def storedForm_def geometry_ok_def aead_okD(1))

section \<open>Chunk creation\<close>

lemma releasePending_frame:
  "\<exists>p l n. releasePending L mbs vb = vb\<lparr>PendingBackendWrites := p, vb_lru := l, pendingBytes := n\<rparr>"
  unfolding releasePending_def Let_def by blast

lemma releasePending_keeps [simp]:
  "vb_BlocksToObject (releasePending L mbs vb) = vb_BlocksToObject vb"
  "blockStride (releasePending L mbs vb) = blockStride vb" "gcMap (releasePending L mbs vb) = gcMap vb"
  "vb_Backend (releasePending L mbs vb) = vb_Backend vb" "ObjectNum (releasePending L mbs vb) = ObjectNum vb"
  "BlockStore (releasePending L mbs vb) = BlockStore vb" "UseBlockStore (releasePending L mbs vb) = UseBlockStore vb"
  using releasePending_frame [of L mbs vb] by (auto simp: blockStride_def gcMap_def)

lemma matchedBlock_simps [simp]: "bk_Block (matchedBlock b) = bk_Block b" "bk_SeqNum (matchedBlock b) = bk_SeqNum b"
  by (simp_all add: matchedBlock_def)

lemma matched_ok_map [simp]: "matched_ok (map matchedBlock g) = matched_ok g"
  by (simp add: matched_ok_def comp_def)

lemma newer_than_map_map [simp]: "newer_than_map stride C m (map matchedBlock g) = newer_than_map stride C m g"
  by (simp add: newer_than_map_def)

text \<open>What a successful call leaves behind, and what it does not touch.\<close>

definition same_volume :: "('s, 'l) VB \<Rightarrow> ('s, 'l) VB \<Rightarrow> bool" where
  "same_volume vb vb' \<longleftrightarrow> EncryptionEnabled vb' = EncryptionEnabled vb \<and> vb_aead vb' = vb_aead vb \<and>
     VolumeUUID vb' = VolumeUUID vb \<and> volumeNameHash vb' = volumeNameHash vb \<and> BlockSize vb' = BlockSize vb \<and>
     Version vb' = Version vb \<and> ObjBlockSize vb' = ObjBlockSize vb \<and> UseBlockStore vb' = UseBlockStore vb \<and>
     GCEnabled vb' = GCEnabled vb \<and> SeqNum vb' = SeqNum vb \<and> Writes vb' = Writes vb \<and> vb_WAL vb' = vb_WAL vb \<and>
     UseShardedWAL vb' = UseShardedWAL vb \<and> MaxPendingBytes vb' = MaxPendingBytes vb"

lemma same_volume_refl [simp]: "same_volume vb vb"
  and same_volume_trans: "same_volume a b \<Longrightarrow> same_volume b c \<Longrightarrow> same_volume a c"
  by (simp_all add: same_volume_def)

lemma same_volume_simps:
  assumes "same_volume vb vb'"
  shows "blockStride vb' = blockStride vb" "geometry_ok vb' = geometry_ok vb" "full_blocks vb' g = full_blocks vb g"
    "storedForm vb' = storedForm vb" "openStored vb' = openStored vb" "ChunkHeader vb' = ChunkHeader vb"
  using assms by (simp_all add: same_volume_def blockStride_def geometry_ok_def full_blocks_def storedForm_def
      openStored_def ChunkHeader_def fun_eq_iff)

definition blocksIn :: "u32 \<Rightarrow> (u64, BlockLookup) gomap \<Rightarrow> u64 \<Rightarrow> u64 set" where
  "blocksIn stride m i = {b. \<exists>off q. blm.cell_at stride m b = Some (i, off, q)}"

definition objs_below :: "u64 \<Rightarrow> u32 \<Rightarrow> (u64, BlockLookup) gomap \<Rightarrow> bool" where
  "objs_below n stride m \<longleftrightarrow> (\<forall>i. blocksIn stride m i \<noteq> {} \<longrightarrow> i < n) \<and> (\<forall>i. card (blocksIn stride m i) \<le> 65535)"

lemma objs_belowD: "objs_below n stride m \<Longrightarrow> blm.cell_at stride m b = Some (i, off, q) \<Longrightarrow> i < n"
  unfolding objs_below_def blocksIn_def by blast

lemma objs_below_step:
  assumes "objs_below n stride m"
    "\<And>k. k < length g \<Longrightarrow> blm.cell_at stride m' (bk_Block (g ! k)) = Some (n, off k, sq k)"
    "\<And>b. b \<notin> bk_Block ` set g \<Longrightarrow> blm.cell_at stride m' b = blm.cell_at stride m b"
    "unat n' = unat n + 1" "length g \<le> 65535"
  shows "objs_below n' stride m'"
proof -
  have new: "\<exists>off q. blm.cell_at stride m' b = Some (n, off, q)" if "b \<in> bk_Block ` set g" for b
    using that assms(2) by (force simp: in_set_conv_nth)
  have at_n: "blocksIn stride m n = {} \<Longrightarrow> blocksIn stride m' n \<subseteq> bk_Block ` set g"
  proof (intro subsetI)
    fix b assume e: "blocksIn stride m n = {}" and "b \<in> blocksIn stride m' n"
    then obtain off q where c: "blm.cell_at stride m' b = Some (n, off, q)" by (auto simp: blocksIn_def)
    show "b \<in> bk_Block ` set g" using e c assms(3) by (rule_tac ccontr) (auto simp: blocksIn_def)
  qed
  have other: "blocksIn stride m' i \<subseteq> blocksIn stride m i" if "i \<noteq> n" for i
  proof
    fix b assume "b \<in> blocksIn stride m' i"
    then obtain off q where c: "blm.cell_at stride m' b = Some (i, off, q)" by (auto simp: blocksIn_def)
    then have "b \<notin> bk_Block ` set g" using new that by force
    then show "b \<in> blocksIn stride m i" using assms(3) c by (auto simp: blocksIn_def)
  qed
  have "blocksIn stride m n = {}" using assms(1) unfolding objs_below_def by blast
  then have "card (blocksIn stride m' n) \<le> card (bk_Block ` set g)" using at_n by (intro card_mono) simp_all
  also have "\<dots> \<le> length g" by (metis card_length length_map set_map)
  finally have "card (blocksIn stride m' n) \<le> 65535" using assms(5) by simp
  moreover have "card (blocksIn stride m' i) \<le> card (blocksIn stride m i)" if "i \<noteq> n" for i
    using other [OF that] by (intro card_mono) simp_all
  ultimately have small: "card (blocksIn stride m' i) \<le> 65535" for i
    using assms(1) unfolding objs_below_def by (metis order_trans)
  have "i < n'" if "blocksIn stride m' i \<noteq> {}" for i
  proof (cases "i = n")
    case True
    then show ?thesis using assms(4) by (simp add: word_less_nat_alt)
  next
    case False
    then have "i < n" using other [OF False] that assms(1) unfolding objs_below_def by blast
    then show ?thesis using assms(4) by (simp add: word_less_nat_alt)
  qed
  then show ?thesis using small unfolding objs_below_def by blast
qed

context backend_laws
begin

lemma createChunk_ok:
  assumes "createChunkFile B L (job_of g) vb = (None, vb')" "map_inv vb" "full_blocks vb g" "matched_ok g"
    "newer_than_map (blockStride vb) C (vbMap vb) g" "ObjectNum vb \<in> C"
    "ChunkHeaderSize + length g * unat (blockStride vb) < 4294967296"
  shows "same_volume vb vb'" "ObjectNum vb' = ObjectNum vb + 1" "map_inv vb'"
    "obj (vb_Backend vb') = (obj (vb_Backend vb))(GetFilePath FileTypeChunk (ObjectNum vb) vol \<mapsto>
       ChunkHeader vb @ concat (map (storedForm vb) g))"
    "readable (vb_Backend vb') = readable (vb_Backend vb)"
    "k < length g \<Longrightarrow> blm.cell_at (blockStride vb) (vbMap vb') (bk_Block (g ! k)) =
       Some (ObjectNum vb, of_nat (ChunkHeaderSize + k * unat (blockStride vb)), bk_SeqNum (g ! k))"
    "b \<notin> bk_Block ` set g \<Longrightarrow> blm.cell_at (blockStride vb) (vbMap vb') b = blm.cell_at (blockStride vb) (vbMap vb) b"
proof -
  let ?c = "ObjectNum vb" and ?vb0 = "vb\<lparr>ObjectNum := ObjectNum vb + 1\<rparr>" and ?mbs = "cj_blocks (job_of g)"
  let ?body = "concat (map (storedForm vb) g)"
  have sv0: "same_volume vb ?vb0" by (simp add: same_volume_def)
  have body: "chunkBody ?vb0 (cj_buf (job_of g)) ?mbs = Inr ?body"
    using chunkBody_job [of ?vb0 g] assms(3) by (simp add: same_volume_simps [OF sv0])
  have hdr: "ChunkHeader ?vb0 = ChunkHeader vb" by (rule same_volume_simps(6) [OF sv0])
  obtain s where w: "be_Write B FileTypeChunk ?c (ChunkHeader vb) ?body (vb_Backend vb) = (None, s)"
    and vb': "vb' = (let v = indexRuns ?c 0 ?mbs (releasePending L ?mbs (?vb0\<lparr>vb_Backend := s\<rparr>))
       in v\<lparr>vb_BlocksToObject := (vb_BlocksToObject v)\<lparr>bto_dirty := True\<rparr>\<rparr>)"
    using assms(1) body hdr by (auto simp: createChunkFile_def Let_def split: prod.splits option.splits)
  define v1 where "v1 = releasePending L ?mbs (?vb0\<lparr>vb_Backend := s\<rparr>)"
  define v2 where "v2 = indexRuns ?c 0 ?mbs v1"
  obtain p l n where v1': "v1 = ?vb0\<lparr>vb_Backend := s, PendingBackendWrites := p, vb_lru := l, pendingBytes := n\<rparr>"
    unfolding v1_def using releasePending_frame [of L ?mbs "?vb0\<lparr>vb_Backend := s\<rparr>"] by auto
  have v1: "vbMap v1 = vbMap vb" "blockStride v1 = blockStride vb" "gcMap v1 = gcMap vb"
    unfolding v1' by (simp_all add: blockStride_def gcMap_def)
  have mbs: "?mbs = map matchedBlock g" by (simp add: job_of_def)
  have run: "map_inv v2 \<and>
    (\<forall>k < length ?mbs. blm.cell_at (blockStride vb) (vbMap v2) (bk_Block (?mbs ! k)) =
       Some (?c, of_nat (ChunkHeaderSize + (0 + k) * unat (blockStride vb)), bk_SeqNum (?mbs ! k))) \<and>
    (\<forall>b. b \<notin> bk_Block ` set ?mbs \<longrightarrow>
       blm.cell_at (blockStride vb) (vbMap v2) b = blm.cell_at (blockStride vb) (vbMap vb) b)"
    unfolding v2_def using indexRuns_map [of v1 C ?mbs ?c 0] assms(2,4-7) by (simp add: v1 mbs map_inv_def)
  obtain m gc st where v2: "v2 = v1\<lparr>vb_BlocksToObject := (vb_BlocksToObject v1)\<lparr>bto_BlockLookup := m\<rparr>,
      vb_gcRefcount := gc, BlockStore := st\<rparr>" unfolding v2_def using indexRuns_frame by blast
  have fin: "vb' = v2\<lparr>vb_BlocksToObject := (vb_BlocksToObject v2)\<lparr>bto_dirty := True\<rparr>\<rparr>"
    using vb' by (simp add: v2_def v1_def Let_def)
  show "same_volume vb vb'" "ObjectNum vb' = ObjectNum vb + 1" unfolding fin v2 v1' by (simp_all add: same_volume_def)
  have "vb_Backend vb' = s" unfolding fin v2 v1' by simp
  then show "obj (vb_Backend vb') = (obj (vb_Backend vb))(GetFilePath FileTypeChunk ?c vol \<mapsto> ChunkHeader vb @ ?body)"
    "readable (vb_Backend vb') = readable (vb_Backend vb)"
    using Write_ok [OF w] Write_readable [OF w] by simp_all
  have "gcMap vb' = gcMap v2" "vbMap vb' = vbMap v2" unfolding fin by (simp_all add: gcMap_def)
  then show "map_inv vb'"
    "k < length g \<Longrightarrow> blm.cell_at (blockStride vb) (vbMap vb') (bk_Block (g ! k)) =
       Some (ObjectNum vb, of_nat (ChunkHeaderSize + k * unat (blockStride vb)), bk_SeqNum (g ! k))"
    "b \<notin> bk_Block ` set g \<Longrightarrow> blm.cell_at (blockStride vb) (vbMap vb') b = blm.cell_at (blockStride vb) (vbMap vb) b"
    using run by (simp_all add: mbs map_inv_def image_image)
qed

lemma createChunk_readable:
  assumes "createChunkFile B L (job_of g) vb = (None, vb')" "map_inv vb" "full_blocks vb g" "matched_ok g"
    "newer_than_map (blockStride vb) C (vbMap vb) g" "ObjectNum vb \<in> C"
    "ChunkHeaderSize + length g * unat (blockStride vb) < 4294967296"
    "geometry_ok vb" "readable (vb_Backend vb) (GetFilePath FileTypeChunk (ObjectNum vb) vol)"
  shows "x \<in> set g \<Longrightarrow> blockOnBackend B vb' (bk_Block x) = Some (bk_Data x)"
    "b \<notin> bk_Block ` set g \<Longrightarrow> (\<And>o' off q. blm.cell_at (blockStride vb) (vbMap vb) b = Some (o', off, q) \<Longrightarrow> o' \<noteq> ObjectNum vb) \<Longrightarrow>
       blockOnBackend B vb' b = blockOnBackend B vb b"
proof -
  note ok = createChunk_ok [OF assms(1-7)]
  note sv = same_volume_simps [OF ok(1)]
  let ?st = "blockStride vb" and ?body = "concat (map (storedForm vb) g)"
  have look: "LookupBlockToObject (vb_BlocksToObject v) ?st y = blm.cell_at ?st (vbMap v) y" if "map_inv v" for v :: "('s, 'a) VB" and y
    using that LookupBlockToObject_eq by (simp add: map_inv_def)
  {
    assume "x \<in> set g"
    then obtain k where k: "k < length g" "g ! k = x" by (auto simp: in_set_conv_nth)
    have len: "\<forall>y \<in> set (map (storedForm vb) g). length y = unat ?st"
      using assms(3) storedForm_length [OF assms(8)] by (simp add: full_blocks_def)
    then have body: "length ?body = length g * unat ?st" using concat_length [OF len] by simp
    have "(Suc k) * unat ?st \<le> length g * unat ?st" using k(1) by (intro mult_le_mono1) simp
    then have fits: "k * unat ?st + unat ?st \<le> length g * unat ?st" by simp
    let ?off = "of_nat (ChunkHeaderSize + k * unat ?st) :: u32"
    have off: "unat ?off = ChunkHeaderSize + k * unat ?st" using fits assms(7) by (intro unat_of_nat_u32) simp
    have "be_Read B (vb_Backend vb') FileTypeChunk (ObjectNum vb) ?off ?st =
        Inr (take (unat ?st) (drop (unat ?off) (ChunkHeader vb @ ?body)))"
      unfolding Read_own
      by (rule Read_complete) (use ok(4,5) assms(9) off fits body stride_pos [OF assms(8)] in simp_all)
    also have "take (unat ?st) (drop (unat ?off) (ChunkHeader vb @ ?body)) = storedForm vb x"
      unfolding off using concat_slot [OF len, of k] k by simp
    finally show "blockOnBackend B vb' (bk_Block x) = Some (bk_Data x)"
      using ok(6) [OF k(1)] look [OF ok(3)] openStored_form [OF assms(8), of x] k(2)
      by (simp add: blockOnBackend_def sv)
  }
  assume b: "b \<notin> bk_Block ` set g" and fresh: "\<And>o' off q. blm.cell_at ?st (vbMap vb) b = Some (o', off, q) \<Longrightarrow> o' \<noteq> ObjectNum vb"
  show "blockOnBackend B vb' b = blockOnBackend B vb b"
  proof (cases "blm.cell_at ?st (vbMap vb) b")
    case None
    then show ?thesis using ok(7) [OF b] look [OF ok(3)] look [OF assms(2)] by (simp add: blockOnBackend_def sv)
  next
    case (Some c)
    obtain o' off q where c: "c = (o', off, q)" by (cases c)
    have "o' \<noteq> ObjectNum vb" using fresh Some c by blast
    then have "be_Read B (vb_Backend vb') FileTypeChunk o' off ?st = be_Read B (vb_Backend vb) FileTypeChunk o' off ?st"
      unfolding Read_own using ok(4,5) by (intro Read_cong) simp_all
    then show ?thesis using ok(7) [OF b] Some c look [OF ok(3)] look [OF assms(2)] by (simp add: blockOnBackend_def sv split: sum.split)
  qed
qed

lemma uploadJobs_ok:
  assumes "uploadJobs B L late False (map job_of gs) vb = (None, vb')" "map_inv vb" "geometry_ok vb"
    "\<forall>g \<in> set gs. full_blocks vb g \<and> matched_ok g \<and> ChunkHeaderSize + length g * unat (blockStride vb) < 4294967296"
    "distinct (map bk_Block (concat gs))" "newer_than_map (blockStride vb) C (vbMap vb) (concat gs)"
    "\<forall>i. ObjectNum vb \<le> i \<longrightarrow> i \<in> C" "objs_below (ObjectNum vb) (blockStride vb) (vbMap vb)"
    "unat (ObjectNum vb) + length gs < 2 ^ 64"
    "\<forall>i. readable (vb_Backend vb) (GetFilePath FileTypeChunk i vol)"
  shows "same_volume vb vb' \<and> map_inv vb' \<and> ObjectNum vb' = ObjectNum vb + of_nat (length gs) \<and>
    objs_below (ObjectNum vb') (blockStride vb) (vbMap vb') \<and> readable (vb_Backend vb') = readable (vb_Backend vb) \<and>
    (\<forall>x \<in> set (concat gs). blockOnBackend B vb' (bk_Block x) = Some (bk_Data x)) \<and>
    (\<forall>b. b \<notin> bk_Block ` set (concat gs) \<longrightarrow> blockOnBackend B vb' b = blockOnBackend B vb b) \<and>
    (\<forall>b. b \<notin> bk_Block ` set (concat gs) \<longrightarrow>
       blm.cell_at (blockStride vb) (vbMap vb') b = blm.cell_at (blockStride vb) (vbMap vb) b)"
  using assms
proof (induction gs arbitrary: vb)
  case Nil
  then show ?case by simp
next
  case (Cons g gs)
  let ?st = "blockStride vb"
  obtain v1 where c: "createChunkFile B L (job_of g) vb = (None, v1)" and u: "uploadJobs B L late False (map job_of gs) v1 = (None, vb')"
    using Cons.prems(1) by (auto split: prod.splits if_splits)
  have g: "full_blocks vb g" "matched_ok g" "ChunkHeaderSize + length g * unat ?st < 4294967296"
    using Cons.prems(4) by auto
  have newer: "newer_than_map ?st C (vbMap vb) g" "newer_than_map ?st C (vbMap vb) (concat gs)"
    using newer_than_map_sub [OF Cons.prems(6)] by auto
  have inC: "ObjectNum vb \<in> C" using Cons.prems(7) by simp
  note ok = createChunk_ok [OF c Cons.prems(2) g(1,2) newer(1) inC g(3)]
  note rd = createChunk_readable [OF c Cons.prems(2) g(1,2) newer(1) inC g(3) Cons.prems(3)]
  note sv = same_volume_simps [OF ok(1)]
  have next_obj: "unat (ObjectNum v1) = unat (ObjectNum vb) + 1"
    unfolding ok(2) using Cons.prems(9) by (simp add: unat_plus_nowrap)
  have disj: "bk_Block ` set (concat gs) \<inter> bk_Block ` set g = {}" using Cons.prems(5) by auto
  have "newer_than_map ?st C (vbMap v1) (concat gs)"
    by (rule newer_than_map_step [OF newer(2) inC disj _ ok(7)]) (auto simp: in_set_conv_nth ok(6))
  moreover have "objs_below (ObjectNum v1) ?st (vbMap v1)"
    using objs_below_step [OF Cons.prems(8) ok(6,7) next_obj] g(2) by (simp add: matched_ok_def)
  moreover have "\<forall>i. ObjectNum v1 \<le> i \<longrightarrow> i \<in> C" using Cons.prems(7) next_obj by (auto simp: word_le_nat_alt)
  ultimately have p: "geometry_ok v1"
      "\<forall>g \<in> set gs. full_blocks v1 g \<and> matched_ok g \<and> ChunkHeaderSize + length g * unat (blockStride v1) < 4294967296"
      "distinct (map bk_Block (concat gs))" "newer_than_map (blockStride v1) C (vbMap v1) (concat gs)"
      "\<forall>i. ObjectNum v1 \<le> i \<longrightarrow> i \<in> C" "objs_below (ObjectNum v1) (blockStride v1) (vbMap v1)"
      "unat (ObjectNum v1) + length gs < 2 ^ 64" "\<forall>i. readable (vb_Backend v1) (GetFilePath FileTypeChunk i vol)"
    using Cons.prems(3,4,5,9,10) next_obj ok(5) by (simp_all add: sv)
  have "same_volume v1 vb' \<and> map_inv vb' \<and> ObjectNum vb' = ObjectNum v1 + of_nat (length gs) \<and>
      objs_below (ObjectNum vb') ?st (vbMap vb') \<and> readable (vb_Backend vb') = readable (vb_Backend v1) \<and>
      (\<forall>x \<in> set (concat gs). blockOnBackend B vb' (bk_Block x) = Some (bk_Data x)) \<and>
      (\<forall>b. b \<notin> bk_Block ` set (concat gs) \<longrightarrow> blockOnBackend B vb' b = blockOnBackend B v1 b) \<and>
      (\<forall>b. b \<notin> bk_Block ` set (concat gs) \<longrightarrow> blm.cell_at ?st (vbMap vb') b = blm.cell_at ?st (vbMap v1) b)"
    using Cons.IH [OF u ok(3) p] unfolding sv .
  then have IH: "same_volume v1 vb'" "map_inv vb'" "ObjectNum vb' = ObjectNum v1 + of_nat (length gs)"
      "objs_below (ObjectNum vb') ?st (vbMap vb')" "readable (vb_Backend vb') = readable (vb_Backend v1)"
      "\<forall>x \<in> set (concat gs). blockOnBackend B vb' (bk_Block x) = Some (bk_Data x)"
      "\<forall>b. b \<notin> bk_Block ` set (concat gs) \<longrightarrow> blockOnBackend B vb' b = blockOnBackend B v1 b"
      "\<forall>b. b \<notin> bk_Block ` set (concat gs) \<longrightarrow> blm.cell_at ?st (vbMap vb') b = blm.cell_at ?st (vbMap v1) b"
    by meson+
  have "blockOnBackend B vb' (bk_Block x) = Some (bk_Data x)" if "x \<in> set g" for x
    using IH(7) rd(1) Cons.prems(10) disj that by (metis IntI emptyE image_eqI)
  moreover have "blockOnBackend B vb' b = blockOnBackend B vb b" if "b \<notin> bk_Block ` set (concat (g # gs))" for b
  proof -
    have "o' \<noteq> ObjectNum vb" if "blm.cell_at ?st (vbMap vb) b = Some (o', off, q)" for o' off q
      using objs_belowD [OF Cons.prems(8) that] by auto
    moreover have "b \<notin> bk_Block ` set g" "b \<notin> bk_Block ` set (concat gs)" using that by auto
    ultimately show ?thesis using IH(7) rd(2) Cons.prems(10) by metis
  qed
  moreover have "blm.cell_at ?st (vbMap vb') b = blm.cell_at ?st (vbMap vb) b" if "b \<notin> bk_Block ` set (concat (g # gs))" for b
  proof -
    have "b \<notin> bk_Block ` set g" "b \<notin> bk_Block ` set (concat gs)" using that by auto
    then show ?thesis using IH(8) ok(7) by simp
  qed
  ultimately show ?case using same_volume_trans [OF ok(1) IH(1)] IH ok(2,5) by auto
qed

end

end
