(* ===== verification/Flush.thy ===== *)
theory Flush
  imports Engine
begin

text \<open>
  Flushing hot writes to the log: \<open>flushLocked\<close>, its sharded variant, \<open>Flush2\<close> and \<open>FlushBlockStore\<close>.
  The outcome of the \<open>i\<close>-th append of a call is given by the argument \<open>os\<close>.
\<close>

section \<open>Definitions\<close>

definition walFile :: "u64 \<Rightarrow> WAL \<Rightarrow> bytes" where
  "walFile n w = (case map_of (wal_files w) n of None \<Rightarrow> [] | Some f \<Rightarrow> f)"

text \<open>\<open>WriteWAL\<close> on the engine: the last handle of \<open>DB\<close>, whether or not it is still open.\<close>

definition vbWriteWAL :: "OsWrite \<Rightarrow> Block \<Rightarrow> ('s, 'l) VB \<Rightarrow> WalError option \<times> ('s, 'l) VB" where
  "vbWriteWAL os block vb =
     (case wal_cur (vb_WAL vb) of
        None \<Rightarrow> (Some PanicNoWal, vb)
      | Some (n, isOpen) \<Rightarrow>
          if \<not> isOpen then (Some ErrWalStat, vb)
          else (case WriteWAL (walParams vb) os block (walFile n (vb_WAL vb), wal_dirty (vb_WAL vb)) of
                  (e, file, dirty) \<Rightarrow>
                    (e, vb\<lparr>vb_WAL := (vb_WAL vb)\<lparr>wal_files := gput n file (wal_files (vb_WAL vb)), wal_dirty := dirty\<rparr>\<rparr>)))"

definition markPending :: "u64 \<Rightarrow> ('s, 'l) VB \<Rightarrow> ('s, 'l) VB" where
  "markPending b vb = (if UseBlockStore vb then vb\<lparr>BlockStore := snd (MarkPending (BlockStore vb) b)\<rparr> else vb)"

fun flushLoop :: "(nat \<Rightarrow> OsWrite) \<Rightarrow> nat \<Rightarrow> Block list \<Rightarrow> (u64, u64) gomap \<Rightarrow> ('s, 'l) VB \<Rightarrow>
    nat \<times> (u64, u64) gomap \<times> ('s, 'l) VB" where
  "flushLoop os i [] flushed vb = (i, flushed, vb)"
| "flushLoop os i (block # blocks) flushed vb =
     (case vbWriteWAL (os i) block vb of
        (Some e, vb) \<Rightarrow> (i, flushed, vb)
      | (None, vb) \<Rightarrow>
          flushLoop os (Suc i) blocks (gput (bk_Block block) (bk_SeqNum block) flushed) (markPending (bk_Block block) vb))"

datatype FlushError =
    ErrPartialFlush nat nat

text \<open>The blocks of \<open>flushed\<close> leave \<open>Writes\<close>; the records whose block was flushed enter the pending buffer.\<close>

definition settleFlush :: "Block list \<Rightarrow> (u64, u64) gomap \<Rightarrow> ('s, 'l) VB \<Rightarrow> ('s, 'l) VB" where
  "settleFlush flushBlocks flushed vb =
     vb\<lparr>Writes := (if flushed \<noteq> [] then filter (\<lambda>b. map_of flushed (bk_Block b) = None) (Writes vb) else Writes vb),
        PendingBackendWrites := PendingBackendWrites vb @
          filter (\<lambda>b. map_of flushed (bk_Block b) \<noteq> None) flushBlocks\<rparr>"

definition flushLocked :: "(nat \<Rightarrow> OsWrite) \<Rightarrow> ('s, 'l) VB \<Rightarrow> FlushError option \<times> ('s, 'l) VB" where
  "flushLocked os vb =
     (let flushBlocks = Writes vb
      in case flushLoop os 0 flushBlocks [] vb of
           (successCount, flushed, vb) \<Rightarrow>
             (if successCount < length flushBlocks then Some (ErrPartialFlush successCount (length flushBlocks)) else None,
              settleFlush flushBlocks flushed vb))"

text \<open>The sharded flush: one sequence of appends per shard, each ending at its first failure.\<close>

definition shardFile :: "u64 \<Rightarrow> nat \<Rightarrow> ShardedWAL \<Rightarrow> bytes" where
  "shardFile g i sw = (case map_of (sw_files sw) (g, i) of None \<Rightarrow> [] | Some f \<Rightarrow> f)"

definition vbWriteShardedWAL :: "OsWrite \<Rightarrow> Block \<Rightarrow> ('s, 'l) VB \<Rightarrow> WalError option \<times> ('s, 'l) VB" where
  "vbWriteShardedWAL os block vb =
     (let sw = vb_ShardedWAL vb; i = shardIndex (bk_Block block);
          dirty = (if i \<in> set (sw_dirty sw) then sw_dirty sw else i # sw_dirty sw)
      in if i \<notin> set (sw_open sw) then (Some ErrWalShort, vb\<lparr>vb_ShardedWAL := sw\<lparr>sw_dirty := dirty\<rparr>\<rparr>)
         else (case WriteShardedWAL os block (shardFile (sw_WallNum sw) i sw, True) of
                 (e, file, d) \<Rightarrow>
                   (e, vb\<lparr>vb_ShardedWAL := sw\<lparr>sw_files := gput (sw_WallNum sw, i) file (sw_files sw), sw_dirty := dirty\<rparr>\<rparr>)))"

fun shardLoop :: "(nat \<Rightarrow> OsWrite) \<Rightarrow> nat \<Rightarrow> Block list \<Rightarrow> (u64, u64) gomap \<Rightarrow> ('s, 'l) VB \<Rightarrow>
    WalError option \<times> nat \<times> (u64, u64) gomap \<times> ('s, 'l) VB" where
  "shardLoop os i [] flushed vb = (None, i, flushed, vb)"
| "shardLoop os i (block # blocks) flushed vb =
     (case vbWriteShardedWAL (os i) block vb of
        (Some e, vb) \<Rightarrow> (Some e, i, flushed, vb)
      | (None, vb) \<Rightarrow>
          shardLoop os (Suc i) blocks (gput (bk_Block block) (bk_SeqNum block) flushed) (markPending (bk_Block block) vb))"

fun shardsLoop :: "(nat \<Rightarrow> nat \<Rightarrow> OsWrite) \<Rightarrow> nat list \<Rightarrow> Block list \<Rightarrow> (u64, u64) gomap \<Rightarrow> nat \<Rightarrow> WalError option \<Rightarrow>
    ('s, 'l) VB \<Rightarrow> WalError option \<times> nat \<times> (u64, u64) gomap \<times> ('s, 'l) VB" where
  "shardsLoop os [] blocks flushed totalSuccess firstErr vb = (firstErr, totalSuccess, flushed, vb)"
| "shardsLoop os (s # ss) blocks flushed totalSuccess firstErr vb =
     (case shardLoop (os s) 0 (filter (\<lambda>b. shardIndex (bk_Block b) = s) blocks) [] vb of
        (e, n, fl, vb) \<Rightarrow>
          shardsLoop os ss blocks (fold (\<lambda>(k, v). gput k v) fl flushed) (totalSuccess + n)
            (if firstErr = None then e else firstErr) vb)"

definition flushLockedSharded :: "(nat \<Rightarrow> nat \<Rightarrow> OsWrite) \<Rightarrow> ('s, 'l) VB \<Rightarrow> FlushError option \<times> ('s, 'l) VB" where
  "flushLockedSharded os vb =
     (let flushBlocks = Writes vb
      in if flushBlocks = [] then (None, vb)
         else case shardsLoop os [0..<NumShards] flushBlocks [] 0 None vb of
                (firstErr, totalSuccess, flushed, vb) \<Rightarrow>
                  (if firstErr \<noteq> None then Some (ErrPartialFlush totalSuccess (length flushBlocks)) else None,
                   settleFlush flushBlocks flushed vb))"

definition Flush :: "(nat \<Rightarrow> OsWrite) \<Rightarrow> (nat \<Rightarrow> nat \<Rightarrow> OsWrite) \<Rightarrow> ('s, 'l) VB \<Rightarrow> FlushError option \<times> ('s, 'l) VB" where
  "Flush os oss vb = (if UseShardedWAL vb then flushLockedSharded oss vb else flushLocked os vb)"

fun flush2Loop :: "(nat \<Rightarrow> OsWrite) \<Rightarrow> nat \<Rightarrow> Block list \<Rightarrow> ('s, 'l) VB \<Rightarrow> WalError option \<times> ('s, 'l) VB" where
  "flush2Loop os i [] vb = (None, vb)"
| "flush2Loop os i (block # blocks) vb =
     (case vbWriteWAL (os i) block vb of
        (Some e, vb) \<Rightarrow> (Some e, vb)
      | (None, vb) \<Rightarrow> flush2Loop os (Suc i) blocks vb)"

definition Flush2 :: "(nat \<Rightarrow> OsWrite) \<Rightarrow> ('s, 'l) VB \<Rightarrow> WalError option \<times> ('s, 'l) VB" where
  "Flush2 os vb = flush2Loop os 0 (Writes vb) (vb\<lparr>Writes := []\<rparr>)"

definition FlushBlockStore :: "(nat \<Rightarrow> OsWrite) \<Rightarrow> ('s, 'l) VB \<Rightarrow> FlushError option \<times> ('s, 'l) VB" where
  "FlushBlockStore os vb =
     (let hotBlocks = GetHotBlocks (BlockStore vb)
      in if hotBlocks = [] then (None, vb)
         else case flushLoop os 0 hotBlocks [] (vb\<lparr>UseBlockStore := True\<rparr>) of
                (successCount, flushed, vb') \<Rightarrow>
                  let vb1 = vb'\<lparr>UseBlockStore := UseBlockStore vb\<rparr>;
                      vb2 = (if flushed \<noteq> []
                             then vb1\<lparr>Writes := filter (\<lambda>b. map_of flushed (bk_Block b) = None) (Writes vb1),
                                      PendingBackendWrites := PendingBackendWrites vb1 @ hotBlocks\<rparr>
                             else vb1)
                  in (if successCount < length hotBlocks
                      then Some (ErrPartialFlush successCount (length hotBlocks)) else None, vb2))"

section \<open>What a flush does\<close>

lemma vbWriteWAL_spec:
  assumes "vbWriteWAL os block vb = (r, vb')" "wal_cur (vb_WAL vb) = Some (n, True)" "os_truncOk os"
  obtains w where "vb' = vb\<lparr>vb_WAL := w\<rparr>" "wal_cur w = wal_cur (vb_WAL vb)" "wal_WallNum w = wal_WallNum (vb_WAL vb)"
    "walFile n w = walFile n (vb_WAL vb) @ (if r = None then walRecord (walParams vb) block else [])"
    "\<And>m. m \<noteq> n \<Longrightarrow> map_of (wal_files w) m = map_of (wal_files (vb_WAL vb)) m"
proof -
  obtain ct d where w: "WriteWAL (walParams vb) os block (walFile n (vb_WAL vb), wal_dirty (vb_WAL vb)) = (r, ct, d)"
    and vb': "vb' = vb\<lparr>vb_WAL := (vb_WAL vb)\<lparr>wal_files := gput n ct (wal_files (vb_WAL vb)), wal_dirty := d\<rparr>\<rparr>"
    using assms(1,2) by (auto simp: vbWriteWAL_def split: prod.splits)
  have "ct = walFile n (vb_WAL vb) @ (if r = None then walRecord (walParams vb) block else [])"
    by (rule WriteWAL_boundary [OF assms(3) w])
  then show ?thesis using that [OF vb'] by (simp add: walFile_def)
qed

text \<open>The state a loop may not touch.\<close>

definition flush_frame :: "u64 \<Rightarrow> ('s, 'l) VB \<Rightarrow> ('s, 'l) VB \<Rightarrow> bool" where
  "flush_frame n vb vb' \<longleftrightarrow> (\<exists>w st. vb' = vb\<lparr>vb_WAL := w, BlockStore := st\<rparr> \<and> wal_cur w = wal_cur (vb_WAL vb) \<and>
     wal_WallNum w = wal_WallNum (vb_WAL vb) \<and> (\<forall>m. m \<noteq> n \<longrightarrow> map_of (wal_files w) m = map_of (wal_files (vb_WAL vb)) m))"

lemma flush_frame_refl: "flush_frame n vb vb"
  unfolding flush_frame_def by (intro exI [of _ "vb_WAL vb"] exI [of _ "BlockStore vb"]) simp

lemma flush_frame_trans:
  assumes "flush_frame n a b" "flush_frame n b c"
  shows "flush_frame n a c"
proof -
  obtain w st where b: "b = a\<lparr>vb_WAL := w, BlockStore := st\<rparr>" "wal_cur w = wal_cur (vb_WAL a)"
    "wal_WallNum w = wal_WallNum (vb_WAL a)" "\<forall>m. m \<noteq> n \<longrightarrow> map_of (wal_files w) m = map_of (wal_files (vb_WAL a)) m"
    using assms(1) unfolding flush_frame_def by blast
  obtain w' st' where c: "c = b\<lparr>vb_WAL := w', BlockStore := st'\<rparr>" "wal_cur w' = wal_cur (vb_WAL b)"
    "wal_WallNum w' = wal_WallNum (vb_WAL b)" "\<forall>m. m \<noteq> n \<longrightarrow> map_of (wal_files w') m = map_of (wal_files (vb_WAL b)) m"
    using assms(2) unfolding flush_frame_def by blast
  show ?thesis unfolding flush_frame_def using b c by (intro exI [of _ w'] exI [of _ st']) simp
qed

lemma flush_frame_step:
  assumes "vbWriteWAL os block vb = (r, vb')" "wal_cur (vb_WAL vb) = Some (n, True)" "os_truncOk os"
  shows "flush_frame n vb vb'" "flush_frame n vb (markPending b vb')"
    "walFile n (vb_WAL (markPending b vb')) = walFile n (vb_WAL vb')"
    "walFile n (vb_WAL vb') = walFile n (vb_WAL vb) @ (if r = None then walRecord (walParams vb) block else [])"
proof -
  obtain w where w: "vb' = vb\<lparr>vb_WAL := w\<rparr>" "wal_cur w = wal_cur (vb_WAL vb)" "wal_WallNum w = wal_WallNum (vb_WAL vb)"
    "walFile n w = walFile n (vb_WAL vb) @ (if r = None then walRecord (walParams vb) block else [])"
    "\<And>m. m \<noteq> n \<Longrightarrow> map_of (wal_files w) m = map_of (wal_files (vb_WAL vb)) m"
    using vbWriteWAL_spec [OF assms] by blast
  show f: "flush_frame n vb vb'" unfolding flush_frame_def using w
    by (intro exI [of _ w] exI [of _ "BlockStore vb"]) simp
  have "flush_frame n vb' (markPending b vb')"
    unfolding flush_frame_def markPending_def
    by (intro exI [of _ "vb_WAL vb'"] exI [of _ "if UseBlockStore vb' then snd (MarkPending (BlockStore vb') b) else BlockStore vb'"]) simp
  then show "flush_frame n vb (markPending b vb')" using f flush_frame_trans by blast
  show "walFile n (vb_WAL (markPending b vb')) = walFile n (vb_WAL vb')" by (simp add: markPending_def)
  show "walFile n (vb_WAL vb') = walFile n (vb_WAL vb) @ (if r = None then walRecord (walParams vb) block else [])"
    using w(1,4) by simp
qed

lemma flush_frame_simps:
  assumes "flush_frame n vb vb'"
  shows "Writes vb' = Writes vb" "PendingBackendWrites vb' = PendingBackendWrites vb" "walParams vb' = walParams vb"
    "wal_cur (vb_WAL vb') = wal_cur (vb_WAL vb)" "UseBlockStore vb' = UseBlockStore vb"
    "vb_BlocksToObject vb' = vb_BlocksToObject vb" "vb_Backend vb' = vb_Backend vb" "pendingBytes vb' = pendingBytes vb"
    "ObjectNum vb' = ObjectNum vb"
  using assms by (auto simp: flush_frame_def walParams_def)

lemma flushLoop_spec:
  assumes "wal_cur (vb_WAL vb) = Some (n, True)" "\<forall>j. os_truncOk (os j)"
    "flushLoop os i blocks flushed vb = (i', flushed', vb')"
  shows "\<exists>k \<le> length blocks. i' = i + k \<and> flush_frame n vb vb' \<and>
    (\<forall>b. map_of flushed' b = None \<longleftrightarrow> map_of flushed b = None \<and> b \<notin> bk_Block ` set (take k blocks)) \<and>
    (flushed' = [] \<longleftrightarrow> flushed = [] \<and> k = 0) \<and>
    walFile n (vb_WAL vb') = walFile n (vb_WAL vb) @ concat (map (walRecord (walParams vb)) (take k blocks))"
  using assms(1,3)
proof (induction blocks arbitrary: i flushed vb)
  case Nil
  then show ?case by (simp add: flush_frame_refl)
next
  case (Cons block blocks)
  obtain r v where w: "vbWriteWAL (os i) block vb = (r, v)" by fastforce
  note step = flush_frame_step [OF w Cons.prems(1) assms(2) [rule_format]]
  show ?case
  proof (cases r)
    case (Some e)
    then show ?thesis using Cons.prems(2) w step(1,4) by (intro exI [of _ 0]) auto
  next
    case None
    let ?v = "markPending (bk_Block block) v" and ?fl = "gput (bk_Block block) (bk_SeqNum block) flushed"
    have rec: "flushLoop os (Suc i) blocks ?fl ?v = (i', flushed', vb')" using Cons.prems(2) w None by simp
    have cur: "wal_cur (vb_WAL ?v) = Some (n, True)" using flush_frame_simps(4) [OF step(2)] Cons.prems(1) by simp
    obtain k where k: "k \<le> length blocks" "i' = Suc i + k" "flush_frame n ?v vb'"
      "\<forall>b. map_of flushed' b = None \<longleftrightarrow> map_of ?fl b = None \<and> b \<notin> bk_Block ` set (take k blocks)"
      "flushed' = [] \<longleftrightarrow> ?fl = [] \<and> k = 0"
      "walFile n (vb_WAL vb') = walFile n (vb_WAL ?v) @ concat (map (walRecord (walParams ?v)) (take k blocks))"
      using Cons.IH [OF cur rec] by blast
    have ne: "?fl \<noteq> []" by (cases flushed) auto
    show ?thesis
    proof (intro exI [of _ "Suc k"] conjI)
      show "flush_frame n vb vb'" by (rule flush_frame_trans [OF step(2) k(3)])
      show "walFile n (vb_WAL vb') = walFile n (vb_WAL vb) @ concat (map (walRecord (walParams vb)) (take (Suc k) (block # blocks)))"
        using k(6) step(3,4) None flush_frame_simps(3) [OF step(2)] by simp
    qed (use k(1,2,4,5) ne in auto)
  qed
qed

lemma flushLocked_spec:
  assumes "wal_cur (vb_WAL vb) = Some (n, True)" "\<forall>j. os_truncOk (os j)" "flushLocked os vb = (err, vb')"
  shows "\<exists>k \<le> length (Writes vb). err = (if k < length (Writes vb) then Some (ErrPartialFlush k (length (Writes vb))) else None) \<and>
    walFile n (vb_WAL vb') = walFile n (vb_WAL vb) @ concat (map (walRecord (walParams vb)) (take k (Writes vb))) \<and>
    Writes vb' = filter (\<lambda>b. bk_Block b \<notin> bk_Block ` set (take k (Writes vb))) (Writes vb) \<and>
    PendingBackendWrites vb' = PendingBackendWrites vb @
      filter (\<lambda>b. bk_Block b \<in> bk_Block ` set (take k (Writes vb))) (Writes vb)"
proof -
  obtain i flushed v where l: "flushLoop os 0 (Writes vb) [] vb = (i, flushed, v)" by (metis prod_cases3)
  obtain k where k: "k \<le> length (Writes vb)" "i = k" "flush_frame n vb v"
    "\<forall>b. map_of flushed b = None \<longleftrightarrow> b \<notin> bk_Block ` set (take k (Writes vb))" "flushed = [] \<longleftrightarrow> k = 0"
    "walFile n (vb_WAL v) = walFile n (vb_WAL vb) @ concat (map (walRecord (walParams vb)) (take k (Writes vb)))"
    using flushLoop_spec [OF assms(1,2) l] by auto
  have "err = (if k < length (Writes vb) then Some (ErrPartialFlush k (length (Writes vb))) else None)"
    "vb' = settleFlush (Writes vb) flushed v"
    using assms(3) l k(2) by (auto simp: flushLocked_def Let_def)
  then show ?thesis using k flush_frame_simps(1,2) [OF k(3)]
    by (intro exI [of _ k]) (auto simp: settleFlush_def)
qed

text \<open>
  C17. What a flush of hot writes does, errors included: for some \<open>k\<close>, exactly the first \<open>k\<close> buffered
  records reach the log, in order, and the call reports success just when that is all of them.  The
  records that stay buffered are those whose block has no record among the first \<open>k\<close>; all others move to
  the pending buffer.\<close>

theorem flush_outcome:
  assumes "wal_cur (vb_WAL vb) = Some (n, True)" "\<forall>j. os_truncOk (os j)" "flushLocked os vb = (err, vb')"
  shows "\<exists>k \<le> length (Writes vb). err = (if k < length (Writes vb) then Some (ErrPartialFlush k (length (Writes vb))) else None) \<and>
    walFile n (vb_WAL vb') = walFile n (vb_WAL vb) @ concat (map (walRecord (walParams vb)) (take k (Writes vb))) \<and>
    Writes vb' = filter (\<lambda>b. bk_Block b \<notin> bk_Block ` set (take k (Writes vb))) (Writes vb) \<and>
    PendingBackendWrites vb' = PendingBackendWrites vb @
      filter (\<lambda>b. bk_Block b \<in> bk_Block ` set (take k (Writes vb))) (Writes vb)"
  by (rule flushLocked_spec [OF assms])

definition twiceWritten :: "bool \<Rightarrow> (unit, unit) VB" where
  "twiceWritten e = (demoVB e ())\<lparr>Writes := [demoBlock 1 5 10, demoBlock 2 5 11]\<rparr>"

definition failsSecond :: "nat \<Rightarrow> OsWrite" where
  "failsSecond j = (if j = 1 then (demoOs 3)\<lparr>os_err := True\<rparr> else demoOs 99)"

lemma twiceWritten_facts:
  "wal_cur (vb_WAL (twiceWritten e)) = Some (0, True)" "Writes (twiceWritten e) = [demoBlock 1 5 10, demoBlock 2 5 11]"
  "walParams (twiceWritten e) = demoWp e" "walFile 0 (vb_WAL (twiceWritten e)) = WALHeader (demoWp e) 7"
  by (simp_all add: twiceWritten_def demoVB_def walParams_def demoWp_def walFile_def)

lemma failsSecond_trunc: "\<forall>j. os_truncOk (failsSecond j)"
  by (simp add: failsSecond_def demoOs_def)

lemma walRecord_demo: "length (walRecord (demoWp e) (demoBlock s b v)) = (if e then 41 else 29)"
  using walRecord_length [OF demoWp_ok demoBlock_ok] by (simp add: recordSize_def)

lemma twiceWritten_flush: "fst (flushLocked failsSecond (twiceWritten e)) = Some (ErrPartialFlush 1 2)"
proof -
  have "flushLoop failsSecond 0 [demoBlock 1 5 10, demoBlock 2 5 11] [] (twiceWritten e) =
      (1, snd (flushLoop failsSecond 0 [demoBlock 1 5 10, demoBlock 2 5 11] [] (twiceWritten e)))"
    by (simp add: vbWriteWAL_def twiceWritten_def demoVB_def WriteWAL_def Let_def failsSecond_def demoOs_def
        walRecord_demo markPending_def walParams_def demoWp_def [symmetric] split: prod.splits)
  then obtain fl v where "flushLoop failsSecond 0 (Writes (twiceWritten e)) [] (twiceWritten e) = (1, fl, v)"
    unfolding twiceWritten_facts by (metis prod.collapse)
  then show ?thesis unfolding flushLocked_def Let_def by (simp add: twiceWritten_facts)
qed

theorem flush_outcome_witness:
  "\<exists>k \<le> 2. fst (flushLocked failsSecond (twiceWritten True)) = (if k < 2 then Some (ErrPartialFlush k 2) else None) \<and>
     walFile 0 (vb_WAL (snd (flushLocked failsSecond (twiceWritten True)))) =
       WALHeader (demoWp True) 7 @ concat (map (walRecord (demoWp True)) (take k [demoBlock 1 5 10, demoBlock 2 5 11]))"
proof -
  let ?r = "flushLocked failsSecond (twiceWritten True)"
  have two: "length [demoBlock 1 5 10, demoBlock 2 5 11] = 2" by simp
  obtain k where "k \<le> 2" "fst ?r = (if k < 2 then Some (ErrPartialFlush k 2) else None)"
    "walFile 0 (vb_WAL (snd ?r)) =
       WALHeader (demoWp True) 7 @ concat (map (walRecord (demoWp True)) (take k [demoBlock 1 5 10, demoBlock 2 5 11]))"
    using flush_outcome [OF twiceWritten_facts(1) failsSecond_trunc surjective_pairing, of True]
    unfolding twiceWritten_facts two by blast
  then show ?thesis by blast
qed

text \<open>
  C31. A lost update: when a flush fails after a record of a block reached the log and before a newer
  record of the same block did, the newer record leaves the write buffer all the same, although the
  log ends before it, so no later flush can write it.\<close>

theorem partial_flush_drops_write:
  assumes "wal_cur (vb_WAL vb) = Some (n, True)" "\<forall>j. os_truncOk (os j)"
    "flushLocked os vb = (Some (ErrPartialFlush k m), vb')" "i < k" "k \<le> j" "j < length (Writes vb)"
    "bk_Block (Writes vb ! i) = bk_Block (Writes vb ! j)"
  shows "Writes vb ! j \<notin> set (Writes vb') \<and>
    walFile n (vb_WAL vb') = walFile n (vb_WAL vb) @ concat (map (walRecord (walParams vb)) (take k (Writes vb)))"
proof -
  obtain k' where k': "Some (ErrPartialFlush k m) = (if k' < length (Writes vb) then Some (ErrPartialFlush k' (length (Writes vb))) else None)"
    "walFile n (vb_WAL vb') = walFile n (vb_WAL vb) @ concat (map (walRecord (walParams vb)) (take k' (Writes vb)))"
    "Writes vb' = filter (\<lambda>b. bk_Block b \<notin> bk_Block ` set (take k' (Writes vb))) (Writes vb)"
    using flushLocked_spec [OF assms(1-3)] by blast
  then have [simp]: "k' = k" by (simp split: if_splits)
  have "Writes vb ! i \<in> set (take k (Writes vb))" using assms(4-6) by (auto simp: in_set_conv_nth)
  then have "bk_Block (Writes vb ! j) \<in> bk_Block ` set (take k (Writes vb))" using assms(7) by (metis image_eqI)
  then show ?thesis using k'(2,3) by simp
qed

theorem partial_flush_drops_write_witness:
  "demoBlock 2 5 11 \<notin> set (Writes (snd (flushLocked failsSecond (twiceWritten False)))) \<and>
     readWALFileForRecovery (demoWp False) (Some (walFile 0 (vb_WAL (snd (flushLocked failsSecond (twiceWritten False)))))) None =
       Inr ([demoBlock 1 5 10], maxSeq [demoBlock 1 5 10])"
proof -
  let ?r = "flushLocked failsSecond (twiceWritten False)"
  have "?r = (Some (ErrPartialFlush 1 2), snd ?r)" using twiceWritten_flush [of False] by (metis prod.collapse)
  from partial_flush_drops_write [OF twiceWritten_facts(1) failsSecond_trunc this, of 0 1]
  have *: "demoBlock 2 5 11 \<notin> set (Writes (snd ?r))"
    "walFile 0 (vb_WAL (snd ?r)) = WALHeader (demoWp False) 7 @ walRecord (demoWp False) (demoBlock 1 5 10)"
    by (simp_all add: twiceWritten_facts demoBlock_def)
  then show ?thesis
    using recovery_reads [OF demoWp_ok, of "[demoBlock 1 5 10]" False "[]" 7] by (simp add: demoBlock_ok recordSize_def)
qed

end
