(* ===== verification/Drain.thy ===== *)
theory Drain
  imports Chunks Flush
begin

text \<open>
  Moving the log to the backend: rotation of the log, the strict readers of a closed segment,
  \<open>WriteWALToChunkCtx\<close> and its sharded variant, the live checkpoint, \<open>DrainToBackendCtx\<close> and the
  backpressure loop that drives it.  What the operating system does in one call is given by a record;
  the order in which the upload pool completes its jobs is the argument \<open>sched\<close>.
\<close>

section \<open>Opening logs\<close>

datatype DrainError =
    PanicDrain
  | ErrMkdir
  | ErrOpen
  | ErrHeaderWrite
  | ErrStat
  | ErrSync
  | ErrDrainRead RecoveryError
  | ErrDrainChecksum
  | ErrDrainChunk ChunkError
  | ErrDrainFlush FlushError
  | ErrDrainCheckpoint "BackendError option"
  | ErrDrainCtx

text \<open>Creating the directory, opening the file for append, and the bytes of the header that were stored.\<close>

record OpenOs =
  oo_mkdirOk :: bool
  oo_openOk :: bool
  oo_n :: nat
  oo_err :: bool

definition openWALLocked :: "OpenOs \<Rightarrow> int \<Rightarrow> u64 \<Rightarrow> ('s, 'l) VB \<Rightarrow> DrainError option \<times> ('s, 'l) VB" where
  "openWALLocked os now n vb =
     (if \<not> oo_mkdirOk os then (Some ErrMkdir, vb)
      else if \<not> oo_openOk os then (Some ErrOpen, vb)
      else let w = vb_WAL vb; headers = WALHeader (walParams vb) now; k = min (oo_n os) (length headers);
               w' = w\<lparr>wal_files := gput n (walFile n w @ take k headers) (wal_files w)\<rparr>
           in if oo_err os \<or> k \<noteq> length headers then (Some ErrHeaderWrite, vb\<lparr>vb_WAL := w'\<rparr>)
              else (None, vb\<lparr>vb_WAL := w'\<lparr>wal_cur := Some (n, True)\<rparr>\<rparr>))"

text \<open>One shard: the file gets a header and the shard is open, unless a step fails.\<close>

definition openShard :: "OpenOs \<Rightarrow> bytes \<Rightarrow> u64 \<Rightarrow> nat \<Rightarrow> ShardedWAL \<Rightarrow> DrainError option \<times> ShardedWAL" where
  "openShard os header g i sw =
     (if \<not> oo_mkdirOk os then (Some ErrMkdir, sw)
      else if \<not> oo_openOk os then (Some ErrOpen, sw)
      else let k = min (oo_n os) (length header);
               sw' = sw\<lparr>sw_files := gput (g, i) (shardFile g i sw @ take k header) (sw_files sw)\<rparr>
           in if oo_err os \<or> k \<noteq> length header then (Some ErrHeaderWrite, sw')
              else (None, sw'\<lparr>sw_open := i # filter (\<lambda>j. j \<noteq> i) (sw_open sw)\<rparr>))"

fun openShards :: "(nat \<Rightarrow> OpenOs) \<Rightarrow> bytes \<Rightarrow> u64 \<Rightarrow> nat list \<Rightarrow> ShardedWAL \<Rightarrow> (DrainError \<times> nat) option \<times> ShardedWAL" where
  "openShards os header g [] sw = (None, sw)"
| "openShards os header g (i # is) sw =
     (case openShard (os i) header g i sw of
        (Some e, sw) \<Rightarrow> (Some (e, i), sw)
      | (None, sw) \<Rightarrow> openShards os header g is sw)"

definition OpenShardedWAL :: "(nat \<Rightarrow> OpenOs) \<Rightarrow> int \<Rightarrow> ('s, 'l) VB \<Rightarrow> DrainError option \<times> ('s, 'l) VB" where
  "OpenShardedWAL os now vb =
     (let sw = vb_ShardedWAL vb
      in case openShards os (WALHeader (walParams vb) now) (sw_WallNum sw) [0..<NumShards] sw of
           (None, sw) \<Rightarrow> (None, vb\<lparr>vb_ShardedWAL := sw\<rparr>)
         | (Some (e, i), sw) \<Rightarrow>
             (Some e, vb\<lparr>vb_ShardedWAL := (if e = ErrOpen then sw\<lparr>sw_open := filter (\<lambda>j. i \<le> j) (sw_open sw)\<rparr> else sw)\<rparr>))"

section \<open>Reading a closed segment\<close>

text \<open>
  The plain loop reads into a zeroed buffer and ignores how many bytes arrived; the buffer size is
  computed in thirty-two bits.
\<close>

function drainPlain :: "u32 \<Rightarrow> nat option \<Rightarrow> bytes \<Rightarrow> DrainError + Block list" where
  "drainPlain bs io rest =
     (let size = unat (28 + bs)
      in if io = Some 0 then Inl (ErrDrainRead ErrWalRead)
         else if size = 0 then Inl PanicDrain
         else if rest = [] then Inr []
         else if size < 28 then Inl PanicDrain
         else let got = take size rest; data = got @ replicate (size - length got) 0
              in if crc32_Update (crc32_ChecksumIEEE (take 24 data)) (drop 28 data) \<noteq> GetUint32 (take 4 (drop 24 data))
                 then Inl ErrDrainChecksum
                 else (case drainPlain bs (map_option (\<lambda>k. k - 1) io) (drop size rest) of
                         Inl e \<Rightarrow> Inl e
                       | Inr blocks \<Rightarrow> Inr (headBlock data (drop 28 data) # blocks)))"
  by pat_completeness auto
termination
  by (relation "measure (\<lambda>(bs, io, rest). length rest)") auto

declare drainPlain.simps [simp del]

function drainSealed :: "WalParams \<Rightarrow> nat option \<Rightarrow> bytes \<Rightarrow> DrainError + Block list" where
  "drainSealed wp io rest =
     (let size = 40 + unat (wp_blockSize wp)
      in if io = Some 0 then Inl (ErrDrainRead ErrWalRead)
         else if rest = [] then Inr []
         else if length rest < size then Inl (ErrDrainRead ErrWalRead)
         else let record = take size rest; seqNum = GetUint64 (take 8 record);
                  blockNum = GetUint64 (take 8 (drop 8 record))
              in case aead_Open (wp_aead wp) (makeNonce seqNum (wp_uuid wp) DomainWAL) (drop 24 record)
                        (updateAAD (initAAD (replicate AADLen 0) (wp_nameHash wp)) blockNum seqNum) of
                   None \<Rightarrow> Inl (ErrDrainRead ErrWalIntegrity)
                 | Some plain \<Rightarrow>
                     (case drainSealed wp (map_option (\<lambda>k. k - 1) io) (drop size rest) of
                        Inl e \<Rightarrow> Inl e
                      | Inr blocks \<Rightarrow> Inr (headBlock record plain # blocks)))"
  by pat_completeness auto
termination
  by (relation "measure (\<lambda>(wp, io, rest). length rest)") auto

declare drainSealed.simps [simp del]

definition readWALForChunk :: "WalParams \<Rightarrow> bytes option \<Rightarrow> nat option \<Rightarrow> DrainError + Block list" where
  "readWALForChunk wp file io =
     (case file of
        None \<Rightarrow> Inl (ErrDrainRead ErrWalOpen)
      | Some raw \<Rightarrow>
          if raw = [] then Inl (ErrDrainRead ErrWalHeaderRead)
          else let headers = take WALHeaderSize (raw @ replicate WALHeaderSize 0); rest = drop WALHeaderSize raw
               in if take 4 headers \<noteq> walMagic (wp_encrypted wp)
                  then (if wp_encrypted wp \<and> take 4 headers = walMagic False then Inl (ErrDrainRead ErrPreEncryptionFormat)
                        else Inl (ErrDrainRead ErrWalMagic))
                  else if GetUint16 (take 2 (drop 4 headers)) \<noteq> wp_version wp then Inl (ErrDrainRead ErrWalVersion)
                  else if wp_blockSize wp = 0 then Inl PanicDrain
                  else if wp_encrypted wp then drainSealed wp io rest
                  else drainPlain (wp_blockSize wp) io rest)"

text \<open>A shard: the header is skipped unread, an incomplete record ends the file.\<close>

function drainShard :: "nat \<Rightarrow> nat option \<Rightarrow> bytes \<Rightarrow> DrainError + Block list" where
  "drainShard bs io rest =
     (if io = Some 0 then Inl (ErrDrainRead ErrWalRead)
      else if length rest < 28 + bs then Inr []
      else let data = take (28 + bs) rest
           in if crc32_Update (crc32_ChecksumIEEE (take 24 data)) (drop 28 data) \<noteq> GetUint32 (take 4 (drop 24 data))
              then Inl ErrDrainChecksum
              else (case drainShard bs (map_option (\<lambda>k. k - 1) io) (drop (28 + bs) rest) of
                      Inl e \<Rightarrow> Inl e
                    | Inr blocks \<Rightarrow> Inr (headBlock data (drop 28 data) # blocks)))"
  by pat_completeness auto
termination
  by (relation "measure (\<lambda>(bs, io, rest). length rest)") auto

declare drainShard.simps [simp del]

definition readShard :: "u32 \<Rightarrow> bytes option \<Rightarrow> bool \<Rightarrow> nat option \<Rightarrow> DrainError + Block list" where
  "readShard bs file openOk io =
     (case file of
        None \<Rightarrow> Inr []
      | Some raw \<Rightarrow> if \<not> openOk then Inl (ErrDrainRead ErrWalOpen) else drainShard (unat bs) io (drop WALHeaderSize raw))"

fun mergeShards :: "(nat \<Rightarrow> DrainError + Block list) \<Rightarrow> nat list \<Rightarrow> DrainError + Block list" where
  "mergeShards res [] = Inr []"
| "mergeShards res (i # is) =
     (case res i of
        Inl e \<Rightarrow> Inl e
      | Inr blocks \<Rightarrow> (case mergeShards res is of Inl e \<Rightarrow> Inl e | Inr rest \<Rightarrow> Inr (blocks @ rest)))"

section \<open>Consolidation\<close>

record DrainOs =
  do_flush :: "nat \<Rightarrow> OsWrite"
  do_flushShard :: "nat \<Rightarrow> nat \<Rightarrow> OsWrite"
  do_statOk :: bool
  do_syncOk :: bool
  do_open :: OpenOs
  do_openShard :: "nat \<Rightarrow> OpenOs"
  do_reopenOk :: bool
  do_io :: "nat option"
  do_shardOk :: "nat \<Rightarrow> bool"
  do_shardIo :: "nat \<Rightarrow> nat option"
  do_now :: int
  do_ctxDone :: "nat \<Rightarrow> bool"

definition uploadBlocks ::
    "'s Backend \<Rightarrow> 'l LruOps \<Rightarrow> UploadSched \<Rightarrow> Block list \<Rightarrow> ('s, 'l) VB \<Rightarrow> DrainError option \<times> ('s, 'l) VB" where
  "uploadBlocks B L sched blocks vb =
     (case uploadJobs B L (us_late sched) False (us_order sched (packChunks (unat (ObjBlockSize vb)) (sortedBlocks blocks))) vb of
        (e, vb) \<Rightarrow> (map_option ErrDrainChunk e, vb))"

definition rotateShards :: "DrainOs \<Rightarrow> ('s, 'l) VB \<Rightarrow> DrainError option \<times> ('s, 'l) VB" where
  "rotateShards d vb =
     (let sw = vb_ShardedWAL vb; nextWalNum = sw_WallNum sw + 1
      in case openShards (do_openShard d) (WALHeader (walParams vb) (do_now d)) nextWalNum [0..<NumShards]
                (sw\<lparr>sw_open := [], sw_WallNum := nextWalNum\<rparr>) of
           (e, sw) \<Rightarrow> (map_option fst e, vb\<lparr>vb_ShardedWAL := sw\<rparr>))"

definition WriteShardedWALToChunk ::
    "'s Backend \<Rightarrow> 'l LruOps \<Rightarrow> UploadSched \<Rightarrow> DrainOs \<Rightarrow> bool \<Rightarrow> ('s, 'l) VB \<Rightarrow> DrainError option \<times> ('s, 'l) VB" where
  "WriteShardedWALToChunk B L sched d force vb =
     (let sw = vb_ShardedWAL vb; current = sw_WallNum sw;
          total = sum_list (map (\<lambda>i. if i \<in> set (sw_open sw) then length (shardFile current i sw) else 0) [0..<NumShards])
      in if sw_open sw = [] then (None, vb)
         else if \<not> force \<and> total < unat (ObjBlockSize vb) then (None, vb)
         else case rotateShards d vb of
                (Some e, vb) \<Rightarrow> (Some e, vb)
              | (None, vb) \<Rightarrow>
                  (case mergeShards (\<lambda>i. readShard (BlockSize vb) (map_of (sw_files (vb_ShardedWAL vb)) (current, i))
                          (do_shardOk d i) (do_shardIo d i)) [0..<NumShards] of
                     Inl e \<Rightarrow> (Some e, vb)
                   | Inr allBlocks \<Rightarrow> if allBlocks = [] then (None, vb) else uploadBlocks B L sched allBlocks vb))"

text \<open>Closing the current segment and opening the next one, under the log's lock.\<close>

definition rotateWAL :: "DrainOs \<Rightarrow> ('s, 'l) VB \<Rightarrow> DrainError option \<times> ('s, 'l) VB" where
  "rotateWAL d vb =
     (case wal_cur (vb_WAL vb) of
        None \<Rightarrow> (None, vb)
      | Some (n, isOpen) \<Rightarrow>
          if \<not> isOpen \<or> \<not> do_syncOk d then (Some ErrSync, vb)
          else let w = vb_WAL vb; nextWalNum = wal_WallNum w + 1
               in openWALLocked (do_open d) (do_now d) nextWalNum
                    (vb\<lparr>vb_WAL := w\<lparr>wal_cur := Some (n, False), wal_WallNum := nextWalNum\<rparr>\<rparr>))"

definition WriteWALToChunk ::
    "'s Backend \<Rightarrow> 'l LruOps \<Rightarrow> UploadSched \<Rightarrow> DrainOs \<Rightarrow> bool \<Rightarrow> ('s, 'l) VB \<Rightarrow> DrainError option \<times> ('s, 'l) VB" where
  "WriteWALToChunk B L sched d force vb =
     (if UseShardedWAL vb then WriteShardedWALToChunk B L sched d force vb
      else case wal_cur (vb_WAL vb) of
             None \<Rightarrow> (None, vb)
           | Some (n, isOpen) \<Rightarrow>
               let current = wal_WallNum (vb_WAL vb)
               in if \<not> force \<and> (\<not> isOpen \<or> \<not> do_statOk d) then (Some ErrStat, vb)
                  else if \<not> force \<and> length (walFile n (vb_WAL vb)) < unat (ObjBlockSize vb) then (None, vb)
                  else case rotateWAL d vb of
                         (Some e, vb) \<Rightarrow> (Some e, vb)
                       | (None, vb) \<Rightarrow>
                           (case readWALForChunk (walParams vb)
                                   (if do_reopenOk d then map_of (wal_files (vb_WAL vb)) current else None) (do_io d) of
                              Inl e \<Rightarrow> (Some e, vb)
                            | Inr blocks \<Rightarrow> uploadBlocks B L sched blocks vb))"

section \<open>The live checkpoint\<close>

fun saveAttempts ::
    "'s Backend \<Rightarrow> bytes \<Rightarrow> (nat \<Rightarrow> bool) \<Rightarrow> BackendError option \<Rightarrow> nat list \<Rightarrow> ('s, 'l) VB \<Rightarrow> DrainError option \<times> ('s, 'l) VB" where
  "saveAttempts B checkpoint ctxDone err [] vb = (Some (ErrDrainCheckpoint err), vb)"
| "saveAttempts B checkpoint ctxDone err (attempt # attempts) vb =
     (case be_Write B FileTypeBlockCheckpointLive 0 [] checkpoint (vb_Backend vb) of
        (None, s) \<Rightarrow>
          (None, vb\<lparr>vb_Backend := s, vb_BlocksToObject := (vb_BlocksToObject vb)\<lparr>bto_dirty := False\<rparr>\<rparr>)
      | (Some e, s) \<Rightarrow>
          if attempt < 2 \<and> ctxDone attempt then (Some ErrDrainCtx, vb\<lparr>vb_Backend := s\<rparr>)
          else saveAttempts B checkpoint ctxDone (Some e) attempts (vb\<lparr>vb_Backend := s\<rparr>))"

definition SaveLiveCheckpoint :: "'s Backend \<Rightarrow> int \<Rightarrow> (nat \<Rightarrow> bool) \<Rightarrow> ('s, 'l) VB \<Rightarrow> DrainError option \<times> ('s, 'l) VB" where
  "SaveLiveCheckpoint B now ctxDone vb =
     (if \<not> bto_dirty (vb_BlocksToObject vb) then (None, vb)
      else saveAttempts B (serializeCheckpoint (Version vb) now (blockStride vb) (bto_BlockLookup (vb_BlocksToObject vb)))
             ctxDone None [0, 1, 2] vb)"

section \<open>Draining\<close>

fun isNoSpace :: "DrainError \<Rightarrow> bool" where
  "isNoSpace (ErrDrainChunk (ErrChunkBackend BNoSpace)) = True"
| "isNoSpace (ErrDrainCheckpoint (Some BNoSpace)) = True"
| "isNoSpace e = False"

definition drainSteps ::
    "'s Backend \<Rightarrow> 'l LruOps \<Rightarrow> UploadSched \<Rightarrow> DrainOs \<Rightarrow> ('s, 'l) VB \<Rightarrow> DrainError option \<times> ('s, 'l) VB" where
  "drainSteps B L sched d vb =
     (case Flush (do_flush d) (do_flushShard d) vb of
        (Some e, vb) \<Rightarrow> (Some (ErrDrainFlush e), vb)
      | (None, vb) \<Rightarrow>
          (case WriteWALToChunk B L sched d True vb of
             (Some e, vb) \<Rightarrow> (Some e, vb)
           | (None, vb) \<Rightarrow> SaveLiveCheckpoint B (do_now d) (do_ctxDone d) vb))"

definition DrainToBackend ::
    "'s Backend \<Rightarrow> 'l LruOps \<Rightarrow> UploadSched \<Rightarrow> DrainOs \<Rightarrow> ('s, 'l) VB \<Rightarrow> DrainError option \<times> ('s, 'l) VB" where
  "DrainToBackend B L sched d vb =
     (case drainSteps B L sched d vb of
        (None, vb) \<Rightarrow> (None, vb\<lparr>backendFull := False\<rparr>)
      | (Some e, vb) \<Rightarrow> (Some e, if isNoSpace e then vb\<lparr>backendFull := True\<rparr> else vb))"

section \<open>Backpressure\<close>

datatype AwaitError =
    AwaitCtx
  | AwaitDrain DrainError
  | AwaitAborted nat DrainError

text \<open>
  One round of the loop: whether the context has ended, whether this caller won the right to drain, what
  the operating system does in the drain, and what other goroutines do to the state during the wait.
\<close>

record ('s, 'l) AwaitRound =
  ar_ctxErr :: bool
  ar_cas :: bool
  ar_sched :: UploadSched
  ar_drain :: DrainOs
  ar_ctxDone :: bool
  ar_others :: "('s, 'l) VB \<Rightarrow> ('s, 'l) VB"

definition maxDrainFailures :: nat where
  "maxDrainFailures = 10"

fun awaitLoop ::
    "'s Backend \<Rightarrow> 'l LruOps \<Rightarrow> (nat \<Rightarrow> ('s, 'l) AwaitRound) \<Rightarrow> u64 \<Rightarrow> nat \<Rightarrow> nat \<Rightarrow> nat \<Rightarrow> ('s, 'l) VB \<Rightarrow>
     (AwaitError option \<times> ('s, 'l) VB) option" where
  "awaitLoop B L env low 0 i drainFailures vb = None"
| "awaitLoop B L env low (Suc fuel) i drainFailures vb =
     (if PendingBytes vb \<le> low then Some (None, vb)
      else if ar_ctxErr (env i) then Some (Some AwaitCtx, vb)
      else let wait = (\<lambda>fails vb. if ar_ctxDone (env i) then Some (Some AwaitCtx, vb)
                          else awaitLoop B L env low fuel (Suc i) fails (ar_others (env i) vb))
           in if \<not> ar_cas (env i) then wait drainFailures vb
              else case DrainToBackend B L (ar_sched (env i)) (ar_drain (env i)) vb of
                     (Some e, vb) \<Rightarrow>
                       if isNoSpace e then Some (Some (AwaitDrain e), vb)
                       else if maxDrainFailures \<le> Suc drainFailures then Some (Some (AwaitAborted (Suc drainFailures) e), vb)
                       else if PendingBytes vb \<le> low then Some (None, vb)
                       else wait (Suc drainFailures) vb
                   | (None, vb) \<Rightarrow> if PendingBytes vb \<le> low then Some (None, vb) else wait 0 vb)"

definition awaitBackpressure ::
    "'s Backend \<Rightarrow> 'l LruOps \<Rightarrow> (nat \<Rightarrow> ('s, 'l) AwaitRound) \<Rightarrow> nat \<Rightarrow> ('s, 'l) VB \<Rightarrow>
     (AwaitError option \<times> ('s, 'l) VB) option" where
  "awaitBackpressure B L env fuel vb =
     (let high = maxPendingBytes vb
      in if PendingBytes vb \<le> high then Some (None, vb)
         else awaitLoop B L env (high div 2) fuel 0 0 vb)"

definition signalSizeTrigger :: "('s, 'l) VB \<Rightarrow> bool" where
  "signalSizeTrigger vb =
     (let flushSize = (if FlushSize vb = 0 then DefaultFlushSize else FlushSize vb)
      in \<not> PendingBytes vb < ucast flushSize)"

end
