(* ===== verification/Drain_Props.thy ===== *)
theory Drain_Props
  imports Drain "HOL-Library.Multiset"
begin

text \<open>
  What a drain guarantees: the strict readers return what was logged, the packed and uploaded chunks hold
  the newest record of each block, the live checkpoint describes them, and both write buffers are empty
  afterwards.
\<close>

section \<open>Strict readers\<close>

lemma drainPlain_io: "drainPlain bs io rest = Inr blocks \<Longrightarrow> drainPlain bs None rest = Inr blocks"
proof (induction bs io rest arbitrary: blocks rule: drainPlain.induct)
  case (1 bs io rest)
  show ?case
    using "1.prems" "1.IH" [OF refl]
    by (subst (asm) drainPlain.simps, subst drainPlain.simps) (auto simp: Let_def split: if_splits sum.splits)
qed

lemma drainSealed_io: "drainSealed wp io rest = Inr blocks \<Longrightarrow> drainSealed wp None rest = Inr blocks"
proof (induction wp io rest arbitrary: blocks rule: drainSealed.induct)
  case (1 wp io rest)
  show ?case
    using "1.prems" "1.IH" [OF refl]
    by (subst (asm) drainSealed.simps, subst drainSealed.simps) (auto simp: Let_def split: if_splits sum.splits option.splits)
qed

lemma drainPlain_record:
  assumes "wal_block wp b" "unat (wp_blockSize wp) + 28 < 4294967296"
  shows "drainPlain (wp_blockSize wp) None (plainRecord b @ rest) =
    (case drainPlain (wp_blockSize wp) None rest of Inl e \<Rightarrow> Inl e | Inr bs \<Rightarrow> Inr (b # bs))"
proof -
  let ?n = "28 + unat (wp_blockSize wp)"
  have size: "unat (28 + wp_blockSize wp) = ?n" using assms(2) by (subst unat_plus_nowrap32) simp_all
  have len: "length (plainRecord b) = ?n" using assms(1) by (simp add: plainRecord_def wal_block_def)
  then have t: "take ?n (plainRecord b @ rest) = plainRecord b" "drop ?n (plainRecord b @ rest) = rest"
    "plainRecord b @ rest \<noteq> []" by auto
  have parts: "take 24 (plainRecord b) = recordHead b" "drop 28 (plainRecord b) = bk_Data b"
    "GetUint32 (take 4 (drop 24 (plainRecord b))) = crc32_Update (crc32_ChecksumIEEE (recordHead b)) (bk_Data b)"
    by (simp_all add: plainRecord_def)
  have "headBlock (plainRecord b) (bk_Data b) = b"
    unfolding plainRecord_def using assms(1) by (intro headBlock_head) (simp add: wal_block_def)
  then show ?thesis
    by (subst drainPlain.simps) (simp add: size t parts len Let_def del: append_is_Nil_conv split: sum.splits)
qed

lemma drainSealed_record:
  assumes "wal_block wp b" "aead_ok (wp_aead wp)"
  shows "drainSealed wp None (sealedRecord wp b @ rest) =
    (case drainSealed wp None rest of Inl e \<Rightarrow> Inl e | Inr bs \<Rightarrow> Inr (b # bs))"
proof -
  let ?n = "40 + unat (wp_blockSize wp)"
  have len: "length (sealedRecord wp b) = ?n"
    using assms aead_okD(2) by (simp add: sealedRecord_def wal_block_def)
  then have t: "take ?n (sealedRecord wp b @ rest) = sealedRecord wp b" "drop ?n (sealedRecord wp b @ rest) = rest"
    "sealedRecord wp b @ rest \<noteq> []" by auto
  have head: "GetUint64 (take 8 (sealedRecord wp b)) = bk_SeqNum b"
    "GetUint64 (take 8 (drop 8 (sealedRecord wp b))) = bk_Block b" "headBlock (sealedRecord wp b) (bk_Data b) = b"
    using assms(1) headBlock_head unfolding sealedRecord_def wal_block_def by simp_all
  have "drop 24 (sealedRecord wp b) =
      aead_Seal (wp_aead wp) (makeNonce (bk_SeqNum b) (wp_uuid wp) DomainWAL) (bk_Data b)
        (updateAAD (initAAD (replicate AADLen 0) (wp_nameHash wp)) (bk_Block b) (bk_SeqNum b))"
    by (simp add: sealedRecord_def)
  then show ?thesis using aead_okD(1) [OF assms(2)]
    by (subst drainSealed.simps) (simp add: t head len Let_def del: append_is_Nil_conv split: sum.splits)
qed

lemma drain_records:
  assumes "wal_params_ok wp" "\<forall>b \<in> set blocks. wal_block wp b"
    "0 < unat (wp_blockSize wp)" "unat (wp_blockSize wp) + 28 < 4294967296"
  shows "wp_encrypted wp \<Longrightarrow> drainSealed wp None (concat (map (sealedRecord wp) blocks)) = Inr blocks"
    "drainPlain (wp_blockSize wp) None (concat (map plainRecord blocks)) = Inr blocks"
proof -
  show "drainSealed wp None (concat (map (sealedRecord wp) blocks)) = Inr blocks" if "wp_encrypted wp"
    using assms(1,2) that
    by (induction blocks) (simp add: drainSealed.simps, simp add: drainSealed_record wal_params_ok_def)
  have "unat (28 + wp_blockSize wp) \<noteq> 0" using assms(4) by (subst unat_plus_nowrap32) simp_all
  then show "drainPlain (wp_blockSize wp) None (concat (map plainRecord blocks)) = Inr blocks"
    using assms(2) by (induction blocks) (simp add: drainPlain.simps Let_def, simp add: drainPlain_record assms(4))
qed

lemma readWALForChunk_reads:
  assumes "wal_params_ok wp" "\<forall>b \<in> set blocks. wal_block wp b"
    "0 < unat (wp_blockSize wp)" "unat (wp_blockSize wp) + 28 < 4294967296"
    "readWALForChunk wp (Some (WALHeader wp now @ concat (map (walRecord wp) blocks))) io = Inr got"
  shows "got = blocks"
proof -
  let ?raw = "WALHeader wp now @ concat (map (walRecord wp) blocks)"
  have hdr: "take WALHeaderSize (?raw @ replicate WALHeaderSize 0) = WALHeader wp now"
    "drop WALHeaderSize ?raw = concat (map (walRecord wp) blocks)" "?raw \<noteq> []"
    using WALHeader_length [of wp now] by (simp_all add: WALHeaderSize_def) (simp add: WALHeader_def walMagic_def)
  have res: "(if wp_encrypted wp then drainSealed wp io (concat (map (walRecord wp) blocks))
      else drainPlain (wp_blockSize wp) io (concat (map (walRecord wp) blocks))) = Inr got"
    using assms(5) hdr by (simp add: readWALForChunk_def Let_def split: if_splits del: append_is_Nil_conv take_append drop_append)
  show ?thesis
  proof (cases "wp_encrypted wp")
    case True
    then have "walRecord wp = sealedRecord wp" by (simp add: walRecord_def fun_eq_iff)
    then show ?thesis using True res drainSealed_io drain_records(1) [OF assms(1-4)] by fastforce
  next
    case False
    then have "walRecord wp = plainRecord" by (simp add: walRecord_def fun_eq_iff)
    then show ?thesis using False res drainPlain_io drain_records(2) [OF assms(1-4)] by fastforce
  qed
qed

section \<open>A flush that succeeds\<close>

lemma vbWriteWAL_success:
  assumes "vbWriteWAL os block vb = (None, vb')" "wal_cur (vb_WAL vb) = Some (n, True)"
  shows "flush_frame n vb vb'" "flush_frame n vb (markPending (bk_Block block) vb')"
    "walFile n (vb_WAL (markPending (bk_Block block) vb')) = walFile n (vb_WAL vb) @ walRecord (walParams vb) block"
proof -
  have "vbWriteWAL (os\<lparr>os_truncOk := True\<rparr>) block vb = (None, vb')"
    using assms by (simp add: vbWriteWAL_def WriteWAL_def Let_def split: if_splits prod.splits)
  note step = flush_frame_step [OF this assms(2)]
  show "flush_frame n vb vb'" "flush_frame n vb (markPending (bk_Block block) vb')"
    "walFile n (vb_WAL (markPending (bk_Block block) vb')) = walFile n (vb_WAL vb) @ walRecord (walParams vb) block"
    using step by simp_all
qed

lemma flushLoop_success:
  assumes "wal_cur (vb_WAL vb) = Some (n, True)" "flushLoop os i blocks flushed vb = (i + length blocks, flushed', vb')"
  shows "flush_frame n vb vb' \<and>
    (\<forall>b. map_of flushed' b = None \<longleftrightarrow> map_of flushed b = None \<and> b \<notin> bk_Block ` set blocks) \<and>
    (flushed' = [] \<longleftrightarrow> flushed = [] \<and> blocks = []) \<and>
    walFile n (vb_WAL vb') = walFile n (vb_WAL vb) @ concat (map (walRecord (walParams vb)) blocks)"
  using assms
proof (induction blocks arbitrary: i flushed vb)
  case Nil
  then show ?case by (simp add: flush_frame_refl)
next
  case (Cons block blocks)
  let ?fl = "gput (bk_Block block) (bk_SeqNum block) flushed"
  obtain r v where w: "vbWriteWAL (os i) block vb = (r, v)" by fastforce
  have r: "r = None" using Cons.prems(2) w by (cases r) simp_all
  let ?v = "markPending (bk_Block block) v"
  note step = vbWriteWAL_success [OF w [unfolded r] Cons.prems(1)]
  have cur: "wal_cur (vb_WAL ?v) = Some (n, True)" using flush_frame_simps(4) [OF step(2)] Cons.prems(1) by simp
  have rec: "flushLoop os (Suc i) blocks ?fl ?v = (Suc i + length blocks, flushed', vb')"
    using Cons.prems(2) w r by simp
  note IH = Cons.IH [OF cur rec]
  have "?fl \<noteq> []" by (cases flushed) auto
  then show ?case
    using IH step(3) flush_frame_trans [OF step(2) IH [THEN conjunct1]] flush_frame_simps(3) [OF step(2)] by auto
qed

lemma flushLoop_bound: "fst (flushLoop os i blocks flushed vb) \<le> i + length blocks"
proof (induction blocks arbitrary: i flushed vb)
  case (Cons block blocks)
  obtain r v where w: "vbWriteWAL (os i) block vb = (r, v)" by fastforce
  show ?case
    using Cons [of "Suc i" "gput (bk_Block block) (bk_SeqNum block) flushed" "markPending (bk_Block block) v"] w
    by (cases r) simp_all
qed simp

lemma flushLocked_success:
  assumes "wal_cur (vb_WAL vb) = Some (n, True)" "flushLocked os vb = (None, vb')"
  obtains v where "flush_frame n vb v" "vb' = v\<lparr>Writes := [], PendingBackendWrites := PendingBackendWrites vb @ Writes vb\<rparr>"
    "walFile n (vb_WAL v) = walFile n (vb_WAL vb) @ concat (map (walRecord (walParams vb)) (Writes vb))"
proof -
  obtain i flushed v where l: "flushLoop os 0 (Writes vb) [] vb = (i, flushed, v)" by (metis prod_cases3)
  have "i \<le> length (Writes vb)" using flushLoop_bound [of os 0 "Writes vb" "[]" vb] l by simp
  then have i: "i = 0 + length (Writes vb)" using assms(2) l by (auto simp: flushLocked_def Let_def split: if_splits)
  note ok = flushLoop_success [OF assms(1) l [unfolded i]]
  have "vb' = settleFlush (Writes vb) flushed v" using assms(2) l by (auto simp: flushLocked_def Let_def)
  moreover have "Writes v = Writes vb" "PendingBackendWrites v = PendingBackendWrites vb"
    using flush_frame_simps(1,2) ok by blast+
  moreover have "filter (\<lambda>b. map_of flushed (bk_Block b) = None) (Writes vb) = []"
    "filter (\<lambda>b. map_of flushed (bk_Block b) \<noteq> None) (Writes vb) = Writes vb" using ok by (auto simp: filter_empty_conv filter_id_conv)
  moreover have "flushed = [] \<Longrightarrow> Writes vb = []" using ok by simp
  ultimately have "vb' = v\<lparr>Writes := [], PendingBackendWrites := PendingBackendWrites vb @ Writes vb\<rparr>"
    by (auto simp: settleFlush_def)
  then show thesis using that ok by blast
qed

section \<open>Uploading a set of records\<close>

text \<open>A chunk never holds more blocks than the map can count, nor more bytes than an offset can address.\<close>

definition chunk_fits :: "('s, 'l) VB \<Rightarrow> bool" where
  "chunk_fits vb \<longleftrightarrow>
     (let k = (unat (ObjBlockSize vb) + unat (BlockSize vb) - 1) div unat (BlockSize vb)
      in 0 < unat (ObjBlockSize vb) \<and> k \<le> 65535 \<and> ChunkHeaderSize + k * unat (blockStride vb) < 4294967296)"

definition volume_inv :: "('s, 'l) VB \<Rightarrow> bool" where
  "volume_inv vb \<longleftrightarrow> map_inv vb \<and> geometry_ok vb \<and> chunk_fits vb \<and> unat (BlockSize vb) + 28 < 4294967296 \<and>
     objs_below (ObjectNum vb) (blockStride vb) (vbMap vb)"

definition fresh_blocks :: "('s, 'l) VB \<Rightarrow> Block list \<Rightarrow> bool" where
  "fresh_blocks vb blocks \<longleftrightarrow>
     (\<forall>b \<in> set blocks. wal_block (walParams vb) b \<and> bk_Block b \<noteq> 18446744073709551615 \<and>
        (\<forall>x i off q. blm.cell_at (blockStride vb) (vbMap vb) x = Some (i, off, q) \<longrightarrow> q < bk_SeqNum b))"

lemma mset_map_split:
  "mset ys = mset (map f xs) \<Longrightarrow> \<exists>zs. ys = map f zs \<and> mset zs = mset xs"
proof (induction ys arbitrary: xs)
  case (Cons y ys)
  then have "y \<in> set (map f xs)" by (metis list.set_intros(1) set_mset_mset)
  then obtain x where x: "x \<in> set xs" "y = f x" by auto
  obtain as bs where xs: "xs = as @ x # bs" using x(1) by (meson split_list)
  have "mset ys = mset (map f (as @ bs))" using Cons.prems x(2) xs by simp
  then obtain zs where "ys = map f zs" "mset zs = mset (as @ bs)" using Cons.IH by blast
  then show ?case using x(2) xs by (intro exI [of _ "x # zs"]) simp
qed simp

lemma mset_concat_cong: "mset xs = mset ys \<Longrightarrow> mset (concat xs) = mset (concat ys)"
proof -
  have "mset (concat zs) = sum_mset (image_mset mset (mset zs))" for zs :: "'a list list"
    by (induction zs) simp_all
  then show "mset xs = mset ys \<Longrightarrow> mset (concat xs) = mset (concat ys)" by simp
qed

lemma group_fits:
  assumes "chunk_fits vb" "0 < unat (BlockSize vb)" "k * unat (BlockSize vb) < unat (ObjBlockSize vb) + unat (BlockSize vb)"
  shows "k \<le> 65535" "ChunkHeaderSize + k * unat (blockStride vb) < 4294967296"
proof -
  let ?q = "(unat (ObjBlockSize vb) + unat (BlockSize vb) - 1) div unat (BlockSize vb)"
  have "k \<le> ?q" using assms(2,3) by (simp add: less_eq_div_iff_mult_less_eq)
  then have "k * unat (blockStride vb) \<le> ?q * unat (blockStride vb)" by (rule mult_le_mono1)
  then show "k \<le> 65535" "ChunkHeaderSize + k * unat (blockStride vb) < 4294967296"
    using assms(1) \<open>k \<le> ?q\<close> unfolding chunk_fits_def Let_def by linarith+
qed

lemma sorted_group: "\<lbrakk>sorted_wrt (<) (map bk_Block (concat gs)); g \<in> set gs\<rbrakk> \<Longrightarrow> sorted_wrt (<) (map bk_Block g)"
  by (induction gs) (auto simp: sorted_wrt_append)

lemma fresh_newer:
  assumes "objs_below (ObjectNum vb) (blockStride vb) (vbMap vb)" "fresh_blocks vb blocks" "set xs \<subseteq> set blocks"
  shows "newer_than_map (blockStride vb) {i. ObjectNum vb \<le> i} (vbMap vb) xs"
  using assms(2,3) objs_belowD [OF assms(1)] unfolding newer_than_map_def fresh_blocks_def by (fastforce simp: not_le)

lemma sortedBlocks_length: "length (sortedBlocks blocks) \<le> length blocks"
proof -
  have "distinct (map bk_Block (sortedBlocks blocks))" using sortedBlocks_sorted strict_sorted_iff by blast
  then have "length (sortedBlocks blocks) = card (bk_Block ` set (sortedBlocks blocks))"
    by (metis distinct_card length_map set_map)
  also have "\<dots> \<le> card (bk_Block ` set blocks)" using sortedBlocks_set by (intro card_mono) auto
  also have "\<dots> \<le> length blocks" by (metis card_length length_map set_map)
  finally show ?thesis .
qed

lemma pack_groups:
  assumes "volume_inv vb" "fresh_blocks vb blocks" "\<forall>js. mset (us_order sched js) = mset js"
  obtains gs where "us_order sched (packChunks (unat (ObjBlockSize vb)) (sortedBlocks blocks)) = map job_of gs"
    "set (concat gs) = set (sortedBlocks blocks)" "distinct (map bk_Block (concat gs))"
    "\<forall>g \<in> set gs. full_blocks vb g \<and> matched_ok g \<and> ChunkHeaderSize + length g * unat (blockStride vb) < 4294967296"
    "length gs \<le> length (sortedBlocks blocks)"
proof -
  let ?sb = "sortedBlocks blocks" and ?n = "unat (BlockSize vb)"
  have pos: "0 < ?n" "chunk_fits vb" "0 < unat (ObjBlockSize vb)"
    using assms(1) by (simp_all add: volume_inv_def geometry_ok_def chunk_fits_def Let_def)
  have sub: "set ?sb \<subseteq> set blocks" using sortedBlocks_set by blast
  then have full: "\<forall>b \<in> set ?sb. length (bk_Data b) = ?n" "\<forall>b \<in> set ?sb. bk_Block b \<noteq> 18446744073709551615"
    using assms(2) by (auto simp: fresh_blocks_def wal_block_def walParams_def)
  obtain groups where g: "packChunks (unat (ObjBlockSize vb)) ?sb = map job_of groups" "concat groups = ?sb" "[] \<notin> set groups"
    "\<forall>g \<in> set groups. length g * ?n < unat (ObjBlockSize vb) + ?n"
    using packChunks_groups [OF full(1) pos(1,3)] by blast
  obtain gs where gs: "us_order sched (map job_of groups) = map job_of gs" "mset gs = mset groups"
    using mset_map_split [of "us_order sched (map job_of groups)" job_of groups] assms(3) by metis
  have sets: "set gs = set groups" using gs(2) mset_eq_setD by blast
  have "mset (concat gs) = mset (concat groups)" using mset_concat_cong [OF gs(2)] .
  then have cc: "mset (concat gs) = mset ?sb" using g(2) by simp
  have "distinct (map bk_Block ?sb)" using sortedBlocks_sorted strict_sorted_iff by blast
  then have dist: "distinct (map bk_Block (concat gs))" using cc by (metis mset_eq_imp_distinct_iff mset_map)
  have sorted: "sorted_wrt (<) (map bk_Block (concat groups))" unfolding g(2) by (rule sortedBlocks_sorted)
  have "full_blocks vb x \<and> matched_ok x \<and> ChunkHeaderSize + length x * unat (blockStride vb) < 4294967296" if "x \<in> set gs" for x
  proof -
    have x: "x \<in> set groups" "set x \<subseteq> set ?sb" using that sets by (auto simp flip: g(2))
    then show ?thesis
      using full group_fits [OF pos(2,1), of "length x"] g(4) sorted_group [OF sorted x(1)]
      by (auto simp: full_blocks_def matched_ok_def)
  qed
  moreover have "length gs \<le> length ?sb"
  proof -
    have "length xs \<le> length (concat xs)" if "[] \<notin> set xs" for xs :: "Block list list"
      using that
    proof (induction xs)
      case (Cons a xs)
      then show ?case by (cases a) auto
    qed simp
    then show ?thesis using g(2,3) gs(2) by (metis mset_eq_length)
  qed
  ultimately show thesis using that [of gs] gs(1) g(1) dist cc by (metis mset_eq_setD)
qed

section \<open>The pending buffer\<close>

definition bufSize :: "Block list \<Rightarrow> int" where
  "bufSize blocks = int (sum_list (map (\<lambda>b. length (bk_Data b)) blocks))"

lemma bufSize_simps [simp]: "bufSize [] = 0" "bufSize (xs @ ys) = bufSize xs + bufSize ys"
  by (simp_all add: bufSize_def)

lemma bufSize_split: "bufSize (filter P xs) + bufSize (filter (\<lambda>x. \<not> P x) xs) = bufSize xs"
  by (induction xs) (auto simp: bufSize_def)

lemma createChunk_pending:
  assumes "createChunkFile B L job vb = (None, vb')"
  shows "PendingBackendWrites vb' = filter (\<lambda>b. bk_Block b \<notin> bk_Block ` set (cj_blocks job)) (PendingBackendWrites vb)"
    "pendingBytes vb' - bufSize (PendingBackendWrites vb') = pendingBytes vb - bufSize (PendingBackendWrites vb)"
    "bto_dirty (vb_BlocksToObject vb')"
proof -
  obtain s where vb': "vb' = (let v = indexRuns (ObjectNum vb) 0 (cj_blocks job)
        (releasePending L (cj_blocks job) (vb\<lparr>ObjectNum := ObjectNum vb + 1, vb_Backend := s\<rparr>))
      in v\<lparr>vb_BlocksToObject := (vb_BlocksToObject v)\<lparr>bto_dirty := True\<rparr>\<rparr>)"
    using assms by (auto simp: createChunkFile_def Let_def split: prod.splits option.splits sum.splits)
  let ?v = "releasePending L (cj_blocks job) (vb\<lparr>ObjectNum := ObjectNum vb + 1, vb_Backend := s\<rparr>)"
  obtain m gc st where ix: "indexRuns (ObjectNum vb) 0 (cj_blocks job) ?v = ?v\<lparr>vb_BlocksToObject :=
      (vb_BlocksToObject ?v)\<lparr>bto_BlockLookup := m\<rparr>, vb_gcRefcount := gc, BlockStore := st\<rparr>"
    using indexRuns_frame by blast
  show p: "PendingBackendWrites vb' = filter (\<lambda>b. bk_Block b \<notin> bk_Block ` set (cj_blocks job)) (PendingBackendWrites vb)"
    and "bto_dirty (vb_BlocksToObject vb')"
    unfolding vb' Let_def ix by (simp_all add: releasePending_def Let_def)
  have "pendingBytes vb' = pendingBytes vb -
      bufSize (filter (\<lambda>b. bk_Block b \<in> bk_Block ` set (cj_blocks job)) (PendingBackendWrites vb))"
    unfolding vb' Let_def ix by (simp add: releasePending_def Let_def bufSize_def)
  then show "pendingBytes vb' - bufSize (PendingBackendWrites vb') = pendingBytes vb - bufSize (PendingBackendWrites vb)"
    using bufSize_split [of "\<lambda>b. bk_Block b \<in> bk_Block ` set (cj_blocks job)" "PendingBackendWrites vb"] p by simp
qed

lemma uploadJobs_pending:
  assumes "uploadJobs B L late False jobs vb = (None, vb')"
  shows "PendingBackendWrites vb' =
      filter (\<lambda>b. bk_Block b \<notin> bk_Block ` set (concat (map cj_blocks jobs))) (PendingBackendWrites vb) \<and>
    pendingBytes vb' - bufSize (PendingBackendWrites vb') = pendingBytes vb - bufSize (PendingBackendWrites vb) \<and>
    (if jobs = [] then vb' = vb else bto_dirty (vb_BlocksToObject vb'))"
  using assms
proof (induction jobs arbitrary: vb)
  case (Cons job jobs)
  obtain v where v: "createChunkFile B L job vb = (None, v)" "uploadJobs B L late False jobs v = (None, vb')"
    using Cons.prems by (auto split: prod.splits if_splits)
  show ?case using createChunk_pending [OF v(1)] Cons.IH [OF v(2)] by (auto intro!: filter_cong split: if_splits)
qed simp

section \<open>The steps of a drain\<close>

lemma rotateWAL_ok:
  assumes "rotateWAL d vb = (None, vb')" "wal_cur (vb_WAL vb) = Some (n, True)"
  obtains w where "vb' = vb\<lparr>vb_WAL := w\<rparr>" "wal_cur w = Some (wal_WallNum (vb_WAL vb) + 1, True)"
    "wal_WallNum w = wal_WallNum (vb_WAL vb) + 1"
    "map_of (wal_files w) = (map_of (wal_files (vb_WAL vb)))(wal_WallNum (vb_WAL vb) + 1 \<mapsto>
       walFile (wal_WallNum (vb_WAL vb) + 1) (vb_WAL vb) @ WALHeader (walParams vb) (do_now d))"
proof -
  let ?m = "wal_WallNum (vb_WAL vb) + 1"
  let ?h = "WALHeader (walParams vb) (do_now d)"
  have par: "walParams (vb\<lparr>vb_WAL := w\<rparr>) = walParams vb" for w by (simp add: walParams_def)
  have "vb' = vb\<lparr>vb_WAL := (vb_WAL vb)\<lparr>wal_cur := Some (?m, True), wal_WallNum := ?m,
      wal_files := gput ?m (walFile ?m (vb_WAL vb) @ ?h) (wal_files (vb_WAL vb))\<rparr>\<rparr>"
    using assms by (auto simp: rotateWAL_def openWALLocked_def Let_def par walFile_def split: if_splits)
  then show thesis using that by (simp add: fun_eq_iff)
qed

text \<open>The object under the live key describes the map of the volume.\<close>

definition checkpointed :: "(string \<Rightarrow> bytes option) \<Rightarrow> string \<Rightarrow> ('s, 'l) VB \<Rightarrow> bool" where
  "checkpointed store vol vb \<longleftrightarrow> (\<exists>now. store (GetFilePath FileTypeBlockCheckpointLive 0 vol) =
     Some (serializeCheckpoint (Version vb) now (blockStride vb) (vbMap vb)))"

definition log_inv :: "u64 \<Rightarrow> Block list \<Rightarrow> ('s, 'l) VB \<Rightarrow> bool" where
  "log_inv n logged vb \<longleftrightarrow> \<not> UseShardedWAL vb \<and> wal_cur (vb_WAL vb) = Some (n, True) \<and> wal_WallNum (vb_WAL vb) = n \<and>
     (\<exists>now. map_of (wal_files (vb_WAL vb)) n = Some (WALHeader (walParams vb) now @ concat (map (walRecord (walParams vb)) logged))) \<and>
     (\<forall>m > n. map_of (wal_files (vb_WAL vb)) m = None)"

context backend_laws
begin

lemma uploadBlocks_ok:
  assumes "uploadBlocks B L sched blocks vb = (None, vb')" "volume_inv vb" "fresh_blocks vb blocks"
    "\<forall>js. mset (us_order sched js) = mset js" "unat (ObjectNum vb) + length blocks < 2 ^ 64"
    "\<forall>i. readable (vb_Backend vb) (GetFilePath FileTypeChunk i vol)"
  shows "same_volume vb vb'" "volume_inv vb'" "readable (vb_Backend vb') = readable (vb_Backend vb)"
    "x \<in> set (sortedBlocks blocks) \<Longrightarrow> blockOnBackend B vb' (bk_Block x) = Some (bk_Data x)"
    "b \<notin> bk_Block ` set blocks \<Longrightarrow> blockOnBackend B vb' b = blockOnBackend B vb b"
    "PendingBackendWrites vb' = filter (\<lambda>b. bk_Block b \<notin> bk_Block ` set blocks) (PendingBackendWrites vb)"
    "pendingBytes vb' - bufSize (PendingBackendWrites vb') = pendingBytes vb - bufSize (PendingBackendWrites vb)"
    "if blocks = [] then vb' = vb else bto_dirty (vb_BlocksToObject vb')"
    "b \<notin> bk_Block ` set blocks \<Longrightarrow> blm.cell_at (blockStride vb) (vbMap vb') b = blm.cell_at (blockStride vb) (vbMap vb) b"
proof -
  obtain gs where gs: "us_order sched (packChunks (unat (ObjBlockSize vb)) (sortedBlocks blocks)) = map job_of gs"
    "set (concat gs) = set (sortedBlocks blocks)" "distinct (map bk_Block (concat gs))"
    "\<forall>g \<in> set gs. full_blocks vb g \<and> matched_ok g \<and> ChunkHeaderSize + length g * unat (blockStride vb) < 4294967296"
    "length gs \<le> length (sortedBlocks blocks)"
    using pack_groups [OF assms(2-4)] by blast
  have inv: "map_inv vb" "geometry_ok vb" "objs_below (ObjectNum vb) (blockStride vb) (vbMap vb)"
    using assms(2) by (simp_all add: volume_inv_def)
  have sub: "set (sortedBlocks blocks) \<subseteq> set blocks" using sortedBlocks_set by blast
  have blks: "bk_Block ` set (sortedBlocks blocks) = bk_Block ` set blocks"
    using sub sortedBlocks_cover by (auto simp: image_iff) metis
  have bound: "unat (ObjectNum vb) + length gs < 2 ^ 64" using gs(5) assms(5) sortedBlocks_length [of blocks] by linarith
  have up: "uploadJobs B L (us_late sched) False (map job_of gs) vb = (None, vb')"
    using assms(1) gs(1) by (auto simp: uploadBlocks_def split: prod.splits)
  note ok = uploadJobs_ok [OF up inv(1,2) gs(4,3) fresh_newer [OF inv(3) assms(3)] _ inv(3) bound assms(6)]
  have ok': "same_volume vb vb' \<and> map_inv vb' \<and> ObjectNum vb' = ObjectNum vb + of_nat (length gs) \<and>
    objs_below (ObjectNum vb') (blockStride vb) (vbMap vb') \<and> readable (vb_Backend vb') = readable (vb_Backend vb) \<and>
    (\<forall>x \<in> set (concat gs). blockOnBackend B vb' (bk_Block x) = Some (bk_Data x)) \<and>
    (\<forall>b. b \<notin> bk_Block ` set (concat gs) \<longrightarrow> blockOnBackend B vb' b = blockOnBackend B vb b) \<and>
    (\<forall>b. b \<notin> bk_Block ` set (concat gs) \<longrightarrow>
       blm.cell_at (blockStride vb) (vbMap vb') b = blm.cell_at (blockStride vb) (vbMap vb) b)"
    using gs(2) sub by (intro ok) auto
  then show sv: "same_volume vb vb'" and "readable (vb_Backend vb') = readable (vb_Backend vb)"
    and "x \<in> set (sortedBlocks blocks) \<Longrightarrow> blockOnBackend B vb' (bk_Block x) = Some (bk_Data x)"
    and "b \<notin> bk_Block ` set blocks \<Longrightarrow> blockOnBackend B vb' b = blockOnBackend B vb b"
    and "b \<notin> bk_Block ` set blocks \<Longrightarrow> blm.cell_at (blockStride vb) (vbMap vb') b = blm.cell_at (blockStride vb) (vbMap vb) b"
    using gs(2) blks by auto
  have "chunk_fits vb' = chunk_fits vb" "BlockSize vb' = BlockSize vb"
    using sv same_volume_simps(1) [OF sv] by (simp_all add: chunk_fits_def same_volume_def)
  then show "volume_inv vb'"
    using ok' assms(2) unfolding volume_inv_def same_volume_simps(1,2) [OF sv] by argo
  have "concat (map cj_blocks (map job_of gs)) = map matchedBlock (concat gs)"
    by (induction gs) (simp_all add: job_of_def)
  then have img: "bk_Block ` set (concat (map cj_blocks (map job_of gs))) = bk_Block ` set blocks"
    using gs(2) blks by (simp add: image_image)
  show "PendingBackendWrites vb' = filter (\<lambda>b. bk_Block b \<notin> bk_Block ` set blocks) (PendingBackendWrites vb)"
    "pendingBytes vb' - bufSize (PendingBackendWrites vb') = pendingBytes vb - bufSize (PendingBackendWrites vb)"
    using uploadJobs_pending [OF up] unfolding img by auto
  have "gs = [] \<longleftrightarrow> blocks = []"
    using gs(5) gs(2) sortedBlocks_length [of blocks] blks by (cases blocks; cases gs) auto
  then show "if blocks = [] then vb' = vb else bto_dirty (vb_BlocksToObject vb')"
    using uploadJobs_pending [OF up] by (auto split: if_splits)
qed

lemma blockOnBackend_cong:
  assumes "vbMap vb' = vbMap vb" "blockStride vb' = blockStride vb" "openStored vb' = openStored vb"
    "\<And>i. obj (vb_Backend vb') (GetFilePath FileTypeChunk i vol) = obj (vb_Backend vb) (GetFilePath FileTypeChunk i vol)"
    "readable (vb_Backend vb') = readable (vb_Backend vb)"
  shows "blockOnBackend B vb' b = blockOnBackend B vb b"
proof -
  have "be_Read B (vb_Backend vb') FileTypeChunk i off len = be_Read B (vb_Backend vb) FileTypeChunk i off len" for i off len
    unfolding Read_own using assms(4,5) by (intro Read_cong) simp_all
  moreover have "LookupBlockToObject (vb_BlocksToObject vb') st b = LookupBlockToObject (vb_BlocksToObject vb) st b" for st
    using assms(1) by (simp add: LookupBlockToObject_def)
  ultimately show ?thesis using assms(2,3) by (simp add: blockOnBackend_def split: option.split sum.split)
qed

lemma saveAttempts_ok:
  assumes "saveAttempts B cp ctxDone err attempts vb = (None, vb')"
  obtains s where "vb' = vb\<lparr>vb_Backend := s, vb_BlocksToObject := (vb_BlocksToObject vb)\<lparr>bto_dirty := False\<rparr>\<rparr>"
    "obj s (GetFilePath FileTypeBlockCheckpointLive 0 vol) = Some cp"
    "\<forall>k. k \<noteq> GetFilePath FileTypeBlockCheckpointLive 0 vol \<longrightarrow> obj s k = obj (vb_Backend vb) k"
    "readable s = readable (vb_Backend vb)"
proof -
  let ?key = "GetFilePath FileTypeBlockCheckpointLive 0 vol"
  have "\<exists>s. vb' = vb\<lparr>vb_Backend := s, vb_BlocksToObject := (vb_BlocksToObject vb)\<lparr>bto_dirty := False\<rparr>\<rparr> \<and>
      obj s ?key = Some cp \<and> (\<forall>k. k \<noteq> ?key \<longrightarrow> obj s k = obj (vb_Backend vb) k) \<and> readable s = readable (vb_Backend vb)"
    using assms
  proof (induction attempts arbitrary: vb err)
    case (Cons a attempts)
    obtain r s where w: "be_Write B FileTypeBlockCheckpointLive 0 [] cp (vb_Backend vb) = (r, s)" by fastforce
    show ?case
    proof (cases r)
      case None
      then show ?thesis using Cons.prems w Write_ok [OF w [unfolded None]] Write_readable [OF w]
        by (intro exI [of _ s]) auto
    next
      case (Some e)
      then have "saveAttempts B cp ctxDone (Some e) attempts (vb\<lparr>vb_Backend := s\<rparr>) = (None, vb')"
        using Cons.prems w by (auto split: if_splits)
      from Cons.IH [OF this] show ?thesis using Write_fail [OF w [unfolded Some]] Write_readable [OF w] by simp
    qed
  qed simp
  then show thesis using that by blast
qed

lemma SaveLiveCheckpoint_ok:
  assumes "SaveLiveCheckpoint B now ctxDone vb = (None, vb')"
  shows "same_volume vb vb'" "vbMap vb' = vbMap vb" "ObjectNum vb' = ObjectNum vb" "gcMap vb' = gcMap vb"
    "PendingBackendWrites vb' = PendingBackendWrites vb" "pendingBytes vb' = pendingBytes vb"
    "\<not> bto_dirty (vb_BlocksToObject vb')"
    "bto_dirty (vb_BlocksToObject vb) \<or> checkpointed (obj (vb_Backend vb)) vol vb \<Longrightarrow> checkpointed (obj (vb_Backend vb')) vol vb'"
    "readable (vb_Backend vb') = readable (vb_Backend vb)" "blockOnBackend B vb' b = blockOnBackend B vb b"
proof -
  have "same_volume vb vb' \<and> vbMap vb' = vbMap vb \<and> ObjectNum vb' = ObjectNum vb \<and> gcMap vb' = gcMap vb \<and>
    PendingBackendWrites vb' = PendingBackendWrites vb \<and> pendingBytes vb' = pendingBytes vb \<and>
    \<not> bto_dirty (vb_BlocksToObject vb') \<and>
    (bto_dirty (vb_BlocksToObject vb) \<or> checkpointed (obj (vb_Backend vb)) vol vb \<longrightarrow> checkpointed (obj (vb_Backend vb')) vol vb') \<and>
    readable (vb_Backend vb') = readable (vb_Backend vb) \<and>
    (\<forall>i. obj (vb_Backend vb') (GetFilePath FileTypeChunk i vol) = obj (vb_Backend vb) (GetFilePath FileTypeChunk i vol))"
  proof (cases "bto_dirty (vb_BlocksToObject vb)")
    case False
    then show ?thesis using assms by (simp add: SaveLiveCheckpoint_def)
  next
    case True
    then have "saveAttempts B (serializeCheckpoint (Version vb) now (blockStride vb) (vbMap vb)) ctxDone None [0, 1, 2] vb = (None, vb')"
      using assms(1) by (simp add: SaveLiveCheckpoint_def del: saveAttempts.simps)
    then obtain s where s: "vb' = vb\<lparr>vb_Backend := s, vb_BlocksToObject := (vb_BlocksToObject vb)\<lparr>bto_dirty := False\<rparr>\<rparr>"
      "obj s (GetFilePath FileTypeBlockCheckpointLive 0 vol) = Some (serializeCheckpoint (Version vb) now (blockStride vb) (vbMap vb))"
      "\<forall>k. k \<noteq> GetFilePath FileTypeBlockCheckpointLive 0 vol \<longrightarrow> obj s k = obj (vb_Backend vb) k"
      "readable s = readable (vb_Backend vb)" by (rule saveAttempts_ok)
    have "GetFilePath FileTypeChunk i vol \<noteq> GetFilePath FileTypeBlockCheckpointLive 0 vol" for i
      using chunk_key_other [of FileTypeBlockCheckpointLive 0 vol i] by simp
    then show ?thesis using s by (auto simp: same_volume_def gcMap_def checkpointed_def blockStride_def)
  qed
  then have all: "same_volume vb vb'" "vbMap vb' = vbMap vb" "ObjectNum vb' = ObjectNum vb" "gcMap vb' = gcMap vb"
    "PendingBackendWrites vb' = PendingBackendWrites vb" "pendingBytes vb' = pendingBytes vb"
    "\<not> bto_dirty (vb_BlocksToObject vb')"
    "bto_dirty (vb_BlocksToObject vb) \<or> checkpointed (obj (vb_Backend vb)) vol vb \<Longrightarrow> checkpointed (obj (vb_Backend vb')) vol vb'"
    "readable (vb_Backend vb') = readable (vb_Backend vb)"
    "\<forall>i. obj (vb_Backend vb') (GetFilePath FileTypeChunk i vol) = obj (vb_Backend vb) (GetFilePath FileTypeChunk i vol)"
    by meson+
  then show "same_volume vb vb'" "vbMap vb' = vbMap vb" "ObjectNum vb' = ObjectNum vb" "gcMap vb' = gcMap vb"
    "PendingBackendWrites vb' = PendingBackendWrites vb" "pendingBytes vb' = pendingBytes vb"
    "\<not> bto_dirty (vb_BlocksToObject vb')"
    "bto_dirty (vb_BlocksToObject vb) \<or> checkpointed (obj (vb_Backend vb)) vol vb \<Longrightarrow> checkpointed (obj (vb_Backend vb')) vol vb'"
    "readable (vb_Backend vb') = readable (vb_Backend vb)" by meson+
  show "blockOnBackend B vb' b = blockOnBackend B vb b"
    by (rule blockOnBackend_cong) (use all same_volume_simps [OF all(1)] in auto)
qed

lemma same_volume_log:
  assumes "same_volume vb vb'"
  shows "log_inv n logged vb' = log_inv n logged vb"
    "\<lbrakk>vbMap vb' = vbMap vb; ObjectNum vb' = ObjectNum vb; gcMap vb' = gcMap vb\<rbrakk> \<Longrightarrow> volume_inv vb' = volume_inv vb"
proof -
  have "walParams vb' = walParams vb" "chunk_fits vb' = chunk_fits vb" "BlockSize vb' = BlockSize vb"
    using assms same_volume_simps(1) [OF assms] by (simp_all add: same_volume_def walParams_def chunk_fits_def)
  then show "log_inv n logged vb' = log_inv n logged vb"
    "\<lbrakk>vbMap vb' = vbMap vb; ObjectNum vb' = ObjectNum vb; gcMap vb' = gcMap vb\<rbrakk> \<Longrightarrow> volume_inv vb' = volume_inv vb"
    using assms same_volume_simps(1,2) [OF assms] by (simp_all add: same_volume_def log_inv_def volume_inv_def map_inv_def)
qed

lemma WriteWALToChunk_ok:
  assumes "WriteWALToChunk B L sched d True vb = (None, vb')" "log_inv n blocks vb" "volume_inv vb" "fresh_blocks vb blocks"
    "\<forall>js. mset (us_order sched js) = mset js" "unat (ObjectNum vb) + length blocks < 2 ^ 64" "unat n + 1 < 2 ^ 64"
    "\<forall>i. readable (vb_Backend vb) (GetFilePath FileTypeChunk i vol)"
  obtains w where "uploadBlocks B L sched blocks (vb\<lparr>vb_WAL := w\<rparr>) = (None, vb')"
    "volume_inv (vb\<lparr>vb_WAL := w\<rparr>)" "fresh_blocks (vb\<lparr>vb_WAL := w\<rparr>) blocks" "log_inv (n + 1) [] (vb\<lparr>vb_WAL := w\<rparr>)"
    "\<And>b. blockOnBackend B (vb\<lparr>vb_WAL := w\<rparr>) b = blockOnBackend B vb b"
proof -
  let ?wp = "walParams vb"
  obtain now where log: "\<not> UseShardedWAL vb" "wal_cur (vb_WAL vb) = Some (n, True)" "wal_WallNum (vb_WAL vb) = n"
    "map_of (wal_files (vb_WAL vb)) n = Some (WALHeader ?wp now @ concat (map (walRecord ?wp) blocks))"
    "\<forall>m > n. map_of (wal_files (vb_WAL vb)) m = None"
    using assms(2) by (auto simp: log_inv_def)
  have inc: "n < n + 1" "n + 1 \<noteq> n" using assms(7) by (simp_all add: word_less_nat_alt unat_plus_nowrap)
  obtain v where rot: "rotateWAL d vb = (None, v)"
    using assms(1) log(1-3) by (auto simp: WriteWALToChunk_def Let_def split: prod.splits option.splits)
  obtain w where w: "v = vb\<lparr>vb_WAL := w\<rparr>" "wal_cur w = Some (n + 1, True)" "wal_WallNum w = n + 1"
    "map_of (wal_files w) = (map_of (wal_files (vb_WAL vb)))(n + 1 \<mapsto> walFile (n + 1) (vb_WAL vb) @ WALHeader ?wp (do_now d))"
    using rotateWAL_ok [OF rot log(2)] unfolding log(3) by metis
  have par: "walParams v = ?wp" by (simp add: w(1) walParams_def)
  have "map_of (wal_files (vb_WAL v)) n = Some (WALHeader ?wp now @ concat (map (walRecord ?wp) blocks))"
    using w inc(2) log(4) by simp
  then have eq: "(case readWALForChunk ?wp (if do_reopenOk d
        then Some (WALHeader ?wp now @ concat (map (walRecord ?wp) blocks)) else None) (do_io d) of
      Inl e \<Rightarrow> (Some e, v) | Inr blocks \<Rightarrow> uploadBlocks B L sched blocks v) = (None, vb')"
    using assms(1) log(1-3) rot by (cases "do_reopenOk d") (simp_all add: WriteWALToChunk_def par Let_def)
  then have "do_reopenOk d" by (auto simp: readWALForChunk_def split: if_splits)
  then obtain got where got: "readWALForChunk ?wp (Some (WALHeader ?wp now @ concat (map (walRecord ?wp) blocks))) (do_io d) = Inr got"
    and up: "uploadBlocks B L sched got v = (None, vb')"
    using eq by (auto split: sum.splits)
  have "wal_params_ok ?wp" "0 < unat (wp_blockSize ?wp)" "unat (wp_blockSize ?wp) + 28 < 4294967296"
    using assms(3) by (simp_all add: volume_inv_def geometry_ok_def wal_params_ok_def walParams_def)
  then have "got = blocks"
    using readWALForChunk_reads [OF _ _ _ _ got] assms(4) by (simp add: fresh_blocks_def)
  moreover have "log_inv (n + 1) [] (vb\<lparr>vb_WAL := w\<rparr>)"
    using log(1,5) w inc par by (auto simp: log_inv_def walFile_def)
  moreover have "volume_inv v = volume_inv vb" "fresh_blocks v blocks = fresh_blocks vb blocks"
    unfolding w(1) by (simp_all add: volume_inv_def map_inv_def geometry_ok_def chunk_fits_def blockStride_def gcMap_def
        fresh_blocks_def walParams_def)
  moreover have "blockOnBackend B v b = blockOnBackend B vb b" for b
    by (rule blockOnBackend_cong) (simp_all add: w(1) blockStride_def openStored_def fun_eq_iff)
  ultimately show thesis using that up assms(3,4) w(1) by metis
qed

end

end
