(* ===== verification/Load.thy ===== *)
theory Load
  imports Drain
begin

text \<open>
  Saving and loading the numbered block checkpoint, and loading the live one.  Local checkpoint files
  are part of the state.
\<close>

section \<open>Loading a block map\<close>

datatype LoadError =
    ErrLoadFormat CheckpointError
  | ErrLoadFile
  | ErrLoadBackend BackendError
  | ErrSaveCreate
  | ErrSaveWrite

text \<open>The largest object number of the records, the flag \<open>haveObject\<close> as an option.\<close>

definition maxObjectID :: "BlockLookup list \<Rightarrow> u64 option" where
  "maxObjectID blocks = foldl (\<lambda>m bl. case m of None \<Rightarrow> Some (bl_ObjectID bl)
     | Some x \<Rightarrow> if bl_ObjectID bl > x then Some (bl_ObjectID bl) else m) None blocks"

text \<open>The compare-and-swap loop that raises \<open>ObjectNum\<close> past every referenced object.\<close>

definition reconcileObjectNum :: "u64 option \<Rightarrow> ('s, 'l) VB \<Rightarrow> ('s, 'l) VB" where
  "reconcileObjectNum m vb =
     (case m of
        None \<Rightarrow> vb
      | Some maxID \<Rightarrow> if maxID + 1 \<le> ObjectNum vb then vb else vb\<lparr>ObjectNum := maxID + 1\<rparr>)"

definition installEntry :: "u32 \<Rightarrow> BlockLookup \<Rightarrow> UnifiedBlockStore \<Rightarrow> UnifiedBlockStore" where
  "installEntry stride e ubs =
     SetPersistedRange ubs (map (\<lambda>i. bl_StartBlock e + of_nat i) [0..<unat (bl_NumBlocks e)])
       (bl_ObjectID e) (bl_ObjectOffset e) stride (map (\<lambda>i. bl_seqNumAt e (int i)) [0..<unat (bl_NumBlocks e)])"

definition installMap :: "('s, 'l) VB \<Rightarrow> ('s, 'l) VB" where
  "installMap vb = (if UseBlockStore vb
     then vb\<lparr>BlockStore := fold (\<lambda>p. installEntry (blockStride vb) (snd p)) (vbMap vb) (BlockStore vb)\<rparr> else vb)"

definition tallyRefs :: "(u64, BlockLookup) gomap \<Rightarrow> (u64, u64) gomap" where
  "tallyRefs m = fold (\<lambda>p rc. gput (bl_ObjectID (snd p)) (gcount rc (bl_ObjectID (snd p)) + 1) rc) m []"

definition parseBlockCheckpoint :: "bytes \<Rightarrow> ('s, 'l) VB \<Rightarrow> LoadError option \<times> ('s, 'l) VB" where
  "parseBlockCheckpoint checkpoint vb =
     (let vb = (if GCEnabled vb then vb\<lparr>vb_gcRefcount := []\<rparr> else vb)
      in case walkBlockCheckpoint checkpoint (Version vb) blockToObjectWALMagic of
           (Some e, records) \<Rightarrow> (Some (ErrLoadFormat e), vb)
         | (None, records) \<Rightarrow>
             let m = coalesceBlockLookup (flatMap records) (blockStride vb);
                 vb = vb\<lparr>vb_BlocksToObject := (vb_BlocksToObject vb)\<lparr>bto_BlockLookup := m\<rparr>\<rparr>;
                 vb = (if GCEnabled vb then vb\<lparr>vb_gcRefcount := tallyRefs m\<rparr> else vb)
             in (None, reconcileObjectNum (maxObjectID records) (installMap vb)))"

text \<open>\<open>fileOk\<close>: whether the local checkpoint file, when it exists, can be read.\<close>

definition LoadBlockState :: "'s Backend \<Rightarrow> bool \<Rightarrow> ('s, 'l) VB \<Rightarrow> LoadError option \<times> ('s, 'l) VB" where
  "LoadBlockState B fileOk vb =
     (case map_of (checkpointFiles vb) (BlockToObjectWallNum vb) of
        None \<Rightarrow>
          (case be_Read B (vb_Backend vb) FileTypeBlockCheckpoint (BlockToObjectWallNum vb) 0 0 of
             Inl e \<Rightarrow> (None, vb)
           | Inr checkpoint \<Rightarrow> parseBlockCheckpoint checkpoint vb)
      | Some checkpoint \<Rightarrow> if \<not> fileOk then (Some ErrLoadFile, vb) else parseBlockCheckpoint checkpoint vb)"

definition LoadLiveCheckpoint :: "'s Backend \<Rightarrow> bool \<Rightarrow> ('s, 'l) VB \<Rightarrow> LoadError option \<times> ('s, 'l) VB" where
  "LoadLiveCheckpoint B fileOk vb =
     (case be_Read B (vb_Backend vb) FileTypeBlockCheckpointLive 0 0 0 of
        Inl e \<Rightarrow> if e = BNotExist then LoadBlockState B fileOk vb else (Some (ErrLoadBackend e), vb)
      | Inr checkpoint \<Rightarrow> parseBlockCheckpoint checkpoint vb)"

section \<open>Saving the numbered checkpoint\<close>

record SaveOs =
  so_createOk :: bool
  so_n :: nat
  so_err :: bool

definition SaveBlockState :: "'s Backend \<Rightarrow> SaveOs \<Rightarrow> int \<Rightarrow> ('s, 'l) VB \<Rightarrow> LoadError option \<times> ('s, 'l) VB" where
  "SaveBlockState B os now vb =
     (let checkpoint = serializeCheckpoint (Version vb) now (blockStride vb) (vbMap vb);
          n = BlockToObjectWallNum vb; k = min (so_n os) (length checkpoint);
          vb1 = vb\<lparr>checkpointFiles := gput n (take k checkpoint) (checkpointFiles vb)\<rparr>
      in if \<not> so_createOk os then (Some ErrSaveCreate, vb)
         else if so_err os \<or> k \<noteq> length checkpoint then (Some ErrSaveWrite, vb1)
         else case be_Write B FileTypeBlockCheckpoint n [] checkpoint (vb_Backend vb) of
                (Some e, s) \<Rightarrow> (Some (ErrLoadBackend e), vb1\<lparr>vb_Backend := s\<rparr>)
              | (None, s) \<Rightarrow> (None, vb1\<lparr>vb_Backend := s, BlockToObjectWallNum := n + 1\<rparr>))"

end
