(* ===== verification/File_Backend.thy ===== *)
theory File_Backend
  imports Backend "HOL-Library.List_Lexorder" "HOL-Library.Char_ord"
begin

text \<open>
  The file backend of \<open>viperblock/backends/file/file.go\<close> over a model of the directory tree it works
  on.  Every system call that changes the tree takes its outcome from a list of faults, so that a call
  may fail, and a write may store only a part of its data, at any point.
\<close>

section \<open>The file system\<close>

datatype Errno =
    ENOENT
  | ENOSPC
  | ENOTDIR
  | EISDIR
  | EIO

record FS =
  fs_files :: "(string, bytes) gomap"
  fs_dirs :: "string list"
  fs_faults :: "(Errno \<times> nat) option list"
  fs_badReads :: "string list"

definition nextFault :: "FS \<Rightarrow> (Errno \<times> nat) option \<times> FS" where
  "nextFault fs = (case fs_faults fs of [] \<Rightarrow> (None, fs) | f # rest \<Rightarrow> (f, fs\<lparr>fs_faults := rest\<rparr>))"

definition parentDir :: "string \<Rightarrow> string" where
  "parentDir p = rev (tl (dropWhile (\<lambda>c. c \<noteq> CHR ''/'') (rev p)))"

text \<open>The proper ancestors of a path and the path itself: its prefixes up to each slash.\<close>

fun ancestorsFrom :: "string \<Rightarrow> string \<Rightarrow> string list" where
  "ancestorsFrom acc [] = [acc]"
| "ancestorsFrom acc (c # cs) =
     (if c = CHR ''/'' \<and> acc \<noteq> [] then acc # ancestorsFrom (acc @ [c]) cs else ancestorsFrom (acc @ [c]) cs)"

definition os_Create :: "string \<Rightarrow> FS \<Rightarrow> Errno option \<times> FS" where
  "os_Create p fs =
     (case nextFault fs of
        (Some (e, n), fs) \<Rightarrow> (Some e, fs)
      | (None, fs) \<Rightarrow>
          if p \<in> set (fs_dirs fs) then (Some EISDIR, fs)
          else if parentDir p \<notin> set (fs_dirs fs) then (Some ENOENT, fs)
          else (None, fs\<lparr>fs_files := gput p [] (fs_files fs)\<rparr>))"

definition fileContents :: "string \<Rightarrow> FS \<Rightarrow> bytes" where
  "fileContents p fs = (case map_of (fs_files fs) p of None \<Rightarrow> [] | Some c \<Rightarrow> c)"

definition os_WriteFile :: "string \<Rightarrow> bytes \<Rightarrow> FS \<Rightarrow> Errno option \<times> FS" where
  "os_WriteFile p data fs =
     (case nextFault fs of
        (Some (e, n), fs) \<Rightarrow> (Some e, fs\<lparr>fs_files := gput p (fileContents p fs @ take n data) (fs_files fs)\<rparr>)
      | (None, fs) \<Rightarrow> (None, fs\<lparr>fs_files := gput p (fileContents p fs @ data) (fs_files fs)\<rparr>))"

definition os_Close :: "FS \<Rightarrow> Errno option \<times> FS" where
  "os_Close fs = (case nextFault fs of (Some (e, n), fs) \<Rightarrow> (Some e, fs) | (None, fs) \<Rightarrow> (None, fs))"

definition os_Remove :: "string \<Rightarrow> FS \<Rightarrow> Errno option \<times> FS" where
  "os_Remove p fs =
     (case nextFault fs of
        (Some (e, n), fs) \<Rightarrow> (Some e, fs)
      | (None, fs) \<Rightarrow>
          (case map_of (fs_files fs) p of
             None \<Rightarrow> (Some ENOENT, fs)
           | Some c \<Rightarrow> (None, fs\<lparr>fs_files := gdel p (fs_files fs)\<rparr>)))"

definition os_MkdirAll :: "string \<Rightarrow> FS \<Rightarrow> Errno option \<times> FS" where
  "os_MkdirAll p fs =
     (case nextFault fs of
        (Some (e, n), fs) \<Rightarrow> (Some e, fs)
      | (None, fs) \<Rightarrow>
          if list_ex (\<lambda>a. map_of (fs_files fs) a \<noteq> None) (ancestorsFrom [] p) then (Some ENOTDIR, fs)
          else (None, fs\<lparr>fs_dirs := fs_dirs fs @ filter (\<lambda>a. a \<notin> set (fs_dirs fs)) (ancestorsFrom [] p)\<rparr>))"

text \<open>\<open>File.ReadAt\<close> fills the whole buffer or fails with end of file.\<close>

definition os_ReadAt :: "bytes \<Rightarrow> nat \<Rightarrow> nat \<Rightarrow> bytes option" where
  "os_ReadAt c off len = (if len = 0 \<or> off + len \<le> length c then Some (take len (drop off c)) else None)"

section \<open>The backend\<close>

record FileConfig =
  fc_VolumeName :: string
  fc_VolumeSize :: u64
  fc_BaseDir :: string

definition osErr :: "Errno \<Rightarrow> BackendError" where
  "osErr e = (if e = ENOENT then BNotExist else BOther)"

definition classifyWriteErr :: "Errno \<Rightarrow> BackendError" where
  "classifyWriteErr e = (if e = ENOSPC then BNoSpace else osErr e)"

definition writeLen :: "bytes option \<Rightarrow> bytes option \<Rightarrow> nat" where
  "writeLen headers data = (case headers of None \<Rightarrow> 0 | Some h \<Rightarrow> length h) + (case data of None \<Rightarrow> 0 | Some d \<Rightarrow> length d)"

definition filePath :: "FileConfig \<Rightarrow> string \<Rightarrow> string" where
  "filePath cfg key = fc_BaseDir cfg @ ''/'' @ key"

fun initDirs :: "FileConfig \<Rightarrow> string list \<Rightarrow> FS \<Rightarrow> BackendError option \<times> FS" where
  "initDirs cfg [] fs = (None, fs)"
| "initDirs cfg (dir # dirs) fs =
     (case os_MkdirAll (filePath cfg (fc_VolumeName cfg @ ''/'' @ dir)) fs of
        (Some e, fs) \<Rightarrow> (Some (osErr e), fs)
      | (None, fs) \<Rightarrow> initDirs cfg dirs fs)"

definition file_Init :: "FileConfig \<Rightarrow> FS \<Rightarrow> BackendError option \<times> FS" where
  "file_Init cfg fs =
     (if fc_BaseDir cfg \<notin> set (fs_dirs fs) then (Some BNotExist, fs)
      else case os_MkdirAll (filePath cfg (fc_VolumeName cfg)) fs of
             (Some e, fs) \<Rightarrow> (Some (osErr e), fs)
           | (None, fs) \<Rightarrow>
               initDirs cfg [''chunks'', ''checkpoints'', ''wal'', ''wal/chunks'', ''wal/blocks''] fs)"

definition file_ReadFrom ::
    "FileConfig \<Rightarrow> FS \<Rightarrow> string \<Rightarrow> FileType \<Rightarrow> u64 \<Rightarrow> u32 \<Rightarrow> u32 \<Rightarrow> BackendError + bytes" where
  "file_ReadFrom cfg fs volumeName fileType objectId offset len =
     (let filename = filePath cfg (GetFilePath fileType objectId volumeName)
      in case map_of (fs_files fs) filename of
           None \<Rightarrow> Inl BNotExist
         | Some c \<Rightarrow>
             if filename \<in> set (fs_badReads fs) then Inl BOther
             else let len = (if len = 0 then SafeInt64ToUint32 (int (length c)) else len)
                  in (case os_ReadAt c (unat offset) (unat len) of
                        None \<Rightarrow> Inl BOther
                      | Some data \<Rightarrow> Inr data))"

definition file_Read :: "FileConfig \<Rightarrow> FS \<Rightarrow> FileType \<Rightarrow> u64 \<Rightarrow> u32 \<Rightarrow> u32 \<Rightarrow> BackendError + bytes" where
  "file_Read cfg fs fileType objectId offset len =
     (let filename = filePath cfg (GetFilePath fileType objectId (fc_VolumeName cfg))
      in case map_of (fs_files fs) filename of
           None \<Rightarrow> Inl BNotExist
         | Some c \<Rightarrow>
             if filename \<in> set (fs_badReads fs) then Inl BOther
             else let len = (if len = 0 then SafeInt64ToUint32 (int (length c)) else len)
                  in (case os_ReadAt c (unat offset) (unat len) of
                        None \<Rightarrow> Inl BOther
                      | Some data \<Rightarrow> Inr data))"

definition file_Write ::
    "FileConfig \<Rightarrow> FileType \<Rightarrow> u64 \<Rightarrow> bytes \<Rightarrow> bytes \<Rightarrow> FS \<Rightarrow> BackendError option \<times> FS" where
  "file_Write cfg fileType objectId headers data fs =
     (let filename = filePath cfg (GetFilePath fileType objectId (fc_VolumeName cfg))
      in case os_Create filename fs of
           (Some e, fs) \<Rightarrow> (Some (classifyWriteErr e), fs)
         | (None, fs) \<Rightarrow>
             (case os_WriteFile filename headers fs of
                (Some e, fs) \<Rightarrow> (Some (classifyWriteErr e), fs)
              | (None, fs) \<Rightarrow>
                  (case os_WriteFile filename data fs of
                     (Some e, fs) \<Rightarrow> (Some (classifyWriteErr e), fs)
                   | (None, fs) \<Rightarrow>
                       (case os_Close fs of
                          (Some e, fs) \<Rightarrow> (Some (classifyWriteErr e), fs)
                        | (None, fs) \<Rightarrow> (None, fs)))))"

text \<open>
  \<open>WriteTo\<close> creates the directory first, skips empty headers, and closes the file on the error paths
  too (the outcome of that close is only logged).
\<close>

definition file_WriteTo ::
    "FileConfig \<Rightarrow> string \<Rightarrow> FileType \<Rightarrow> u64 \<Rightarrow> bytes \<Rightarrow> bytes \<Rightarrow> FS \<Rightarrow> BackendError option \<times> FS" where
  "file_WriteTo cfg volumeName fileType objectId headers data fs =
     (let filename = filePath cfg (GetFilePath fileType objectId volumeName)
      in case os_MkdirAll (parentDir filename) fs of
           (Some e, fs) \<Rightarrow> (Some (osErr e), fs)
         | (None, fs) \<Rightarrow>
             (case os_Create filename fs of
                (Some e, fs) \<Rightarrow> (Some (classifyWriteErr e), fs)
              | (None, fs) \<Rightarrow>
                  (case (if headers = [] then (None, fs) else os_WriteFile filename headers fs) of
                     (Some e, fs) \<Rightarrow> (Some (classifyWriteErr e), snd (os_Close fs))
                   | (None, fs) \<Rightarrow>
                       (case os_WriteFile filename data fs of
                          (Some e, fs) \<Rightarrow> (Some (classifyWriteErr e), snd (os_Close fs))
                        | (None, fs) \<Rightarrow>
                            (case os_Close fs of
                               (Some e, fs) \<Rightarrow> (Some (classifyWriteErr e), fs)
                             | (None, fs) \<Rightarrow> (None, fs))))))"

definition file_Delete :: "FileConfig \<Rightarrow> FileType \<Rightarrow> u64 \<Rightarrow> FS \<Rightarrow> BackendError option \<times> FS" where
  "file_Delete cfg fileType objectId fs =
     (case os_Remove (filePath cfg (GetFilePath fileType objectId (fc_VolumeName cfg))) fs of
        (Some e, fs) \<Rightarrow> (Some (osErr e), fs)
      | (None, fs) \<Rightarrow> (None, fs))"

text \<open>
  Listing.  \<open>filepath.Join\<close> cleans its result: empty and \<open>.\<close> elements go, \<open>..\<close> removes the element before
  it.  A directory walk visits the names of a directory in order, so files come in the order of their
  component lists.
\<close>

fun splitPath :: "string \<Rightarrow> string list" where
  "splitPath [] = [[]]"
| "splitPath (c # cs) =
     (if c = CHR ''/'' then [] # splitPath cs
      else case splitPath cs of [] \<Rightarrow> [[c]] | w # ws \<Rightarrow> (c # w) # ws)"

fun joinPath :: "string list \<Rightarrow> string" where
  "joinPath [] = []"
| "joinPath [w] = w"
| "joinPath (w # ws) = w @ ''/'' @ joinPath ws"

fun cleanStack :: "bool \<Rightarrow> string list \<Rightarrow> string list \<Rightarrow> string list" where
  "cleanStack rooted acc [] = rev acc"
| "cleanStack rooted acc (w # ws) =
     (if w = [] \<or> w = ''.'' then cleanStack rooted acc ws
      else if w = ''..''
      then (case acc of
              [] \<Rightarrow> cleanStack rooted (if rooted then [] else [w]) ws
            | a # acc' \<Rightarrow> cleanStack rooted (if a = ''..'' then w # acc else acc') ws)
      else cleanStack rooted (w # acc) ws)"

definition filepath_Clean :: "string \<Rightarrow> string" where
  "filepath_Clean p =
     (let rooted = (take 1 p = ''/''); ws = joinPath (cleanStack rooted [] (splitPath p))
      in if rooted then ''/'' @ ws else if ws = [] then ''.'' else ws)"

definition file_ListPrefixes :: "FileConfig \<Rightarrow> FS \<Rightarrow> string \<Rightarrow> BackendError + string list" where
  "file_ListPrefixes cfg fs pre =
     (if fc_BaseDir cfg \<notin> set (fs_dirs fs) then Inr []
      else let n = length (fc_BaseDir cfg @ ''/'');
               names = map (drop n) (filter (\<lambda>d. take n d = fc_BaseDir cfg @ ''/'' \<and> CHR ''/'' \<notin> set (drop n d)) (fs_dirs fs))
           in Inr (filter (\<lambda>name. take (length pre) name = pre) (sort names)))"

definition file_ListObjects :: "FileConfig \<Rightarrow> FS \<Rightarrow> string \<Rightarrow> BackendError + string list" where
  "file_ListObjects cfg fs pre =
     (let root = filepath_Clean (fc_BaseDir cfg @ ''/'' @ pre);
          under = (\<lambda>p. p = root \<or> take (length root + 1) p = root @ ''/'')
      in Inr (map (drop (length (fc_BaseDir cfg) + 1))
               (sort_key splitPath (filter under (map fst (fs_files fs))))))"

definition fileBackend :: "FileConfig \<Rightarrow> FS Backend" where
  "fileBackend cfg =
     \<lparr>be_Read = file_Read cfg, be_Write = file_Write cfg, be_ReadFrom = file_ReadFrom cfg,
      be_WriteTo = file_WriteTo cfg, be_Delete = file_Delete cfg, be_ListPrefixes = file_ListPrefixes cfg,
      be_ListObjects = file_ListObjects cfg\<rparr>"

section \<open>The contract\<close>

definition file_obj :: "FileConfig \<Rightarrow> FS \<Rightarrow> string \<Rightarrow> bytes option" where
  "file_obj cfg fs key = map_of (fs_files fs) (filePath cfg key)"

definition file_readable :: "FileConfig \<Rightarrow> FS \<Rightarrow> string \<Rightarrow> bool" where
  "file_readable cfg fs key \<longleftrightarrow> filePath cfg key \<notin> set (fs_badReads fs)"

lemma filePath_inj [simp]: "filePath cfg k = filePath cfg k' \<longleftrightarrow> k = k'"
  by (simp add: filePath_def)

lemma nextFault_frame:
  "nextFault fs = (f, fs') \<Longrightarrow> fs_files fs' = fs_files fs \<and> fs_dirs fs' = fs_dirs fs \<and> fs_badReads fs' = fs_badReads fs"
  by (auto simp: nextFault_def split: list.splits)

text \<open>What each system call does to the files: only its own path changes.\<close>

lemma os_Create_files:
  assumes "os_Create p fs = (r, fs')"
  shows "fs_badReads fs' = fs_badReads fs"
    "map_of (fs_files fs') = (if r = None then (map_of (fs_files fs))(p \<mapsto> []) else map_of (fs_files fs))"
  using assms nextFault_frame [of fs]
  by (auto simp: os_Create_def fun_eq_iff split: prod.splits option.splits if_splits)

lemma os_WriteFile_files:
  assumes "os_WriteFile p d fs = (r, fs')"
  shows "fs_badReads fs' = fs_badReads fs"
    "\<exists>c. map_of (fs_files fs') = (map_of (fs_files fs))(p \<mapsto> c) \<and> (r = None \<longrightarrow> c = fileContents p fs @ d)"
  using assms nextFault_frame [of fs]
  by (auto simp: os_WriteFile_def fun_eq_iff fileContents_def split: prod.splits option.splits)

lemma os_Close_files:
  "os_Close fs = (r, fs') \<Longrightarrow> fs_badReads fs' = fs_badReads fs \<and> fs_files fs' = fs_files fs"
  using nextFault_frame [of fs] by (auto simp: os_Close_def split: prod.splits option.splits)

lemma os_MkdirAll_files:
  "os_MkdirAll p fs = (r, fs') \<Longrightarrow> fs_badReads fs' = fs_badReads fs \<and> fs_files fs' = fs_files fs"
  using nextFault_frame [of fs] by (auto simp: os_MkdirAll_def split: prod.splits option.splits if_splits)

definition fs_frame :: "string \<Rightarrow> FS \<Rightarrow> FS \<Rightarrow> bool" where
  "fs_frame p fs fs' \<longleftrightarrow> fs_badReads fs' = fs_badReads fs \<and>
     (\<forall>q. q \<noteq> p \<longrightarrow> map_of (fs_files fs') q = map_of (fs_files fs) q)"

lemma fs_frame_ops:
  "os_Create p fs = (r, fs') \<Longrightarrow> fs_frame p fs fs'"
  "os_WriteFile p d fs = (r, fs') \<Longrightarrow> fs_frame p fs fs'"
  "os_Close fs = (r, fs') \<Longrightarrow> fs_frame p fs fs'"
  "os_MkdirAll q fs = (r, fs') \<Longrightarrow> fs_frame p fs fs'"
  using os_Create_files [of p fs r fs'] os_WriteFile_files [of p d fs r fs'] os_Close_files [of fs r fs']
    os_MkdirAll_files [of q fs r fs']
  by (auto simp: fs_frame_def split: if_splits)

lemma fs_frame_trans: "fs_frame p a b \<Longrightarrow> fs_frame p b c \<Longrightarrow> fs_frame p a c"
  by (simp add: fs_frame_def)

lemma fs_frame_close: "fs_frame p a b \<Longrightarrow> fs_frame p a (snd (os_Close b))"
  using fs_frame_ops(3) [of b "fst (os_Close b)" "snd (os_Close b)" p] fs_frame_trans by auto

lemma os_WriteFile_stores:
  assumes "os_WriteFile p d fs = (None, fs')"
  shows "map_of (fs_files fs') = (map_of (fs_files fs))(p \<mapsto> fileContents p fs @ d)"
  using os_WriteFile_files(2) [OF assms] by auto

lemma file_Write_frame:
  assumes "file_Write cfg ft i h d fs = (r, fs')"
  shows "fs_frame (filePath cfg (GetFilePath ft i (fc_VolumeName cfg))) fs fs'"
  using assms unfolding file_Write_def Let_def
  by (auto split: prod.splits option.splits dest!: fs_frame_ops
      [where p = "filePath cfg (GetFilePath ft i (fc_VolumeName cfg))"] intro: fs_frame_trans)

lemma file_WriteTo_frame:
  assumes "file_WriteTo cfg v ft i h d fs = (r, fs')"
  shows "fs_frame (filePath cfg (GetFilePath ft i v)) fs fs'"
  using assms unfolding file_WriteTo_def Let_def
  by (auto split: prod.splits option.splits if_splits dest!: fs_frame_ops
      [where p = "filePath cfg (GetFilePath ft i v)"] intro: fs_frame_trans fs_frame_close)
     (meson fs_frame_trans)+

lemma file_Write_stores:
  assumes "file_Write cfg ft i h d fs = (None, fs')"
  shows "map_of (fs_files fs') (filePath cfg (GetFilePath ft i (fc_VolumeName cfg))) = Some (h @ d)"
proof -
  let ?p = "filePath cfg (GetFilePath ft i (fc_VolumeName cfg))"
  obtain f1 f2 f3 where "os_Create ?p fs = (None, f1)" "os_WriteFile ?p h f1 = (None, f2)"
    "os_WriteFile ?p d f2 = (None, f3)" "os_Close f3 = (None, fs')"
    using assms by (auto simp: file_Write_def Let_def split: prod.splits option.splits)
  then show ?thesis
    using os_Create_files(2) os_WriteFile_stores os_Close_files by (fastforce simp: fileContents_def)
qed

lemma file_WriteTo_stores:
  assumes "file_WriteTo cfg v ft i h d fs = (None, fs')"
  shows "map_of (fs_files fs') (filePath cfg (GetFilePath ft i v)) = Some (h @ d)"
proof -
  let ?p = "filePath cfg (GetFilePath ft i v)"
  obtain f0 f1 f2 f3 where "os_Create ?p f0 = (None, f1)"
    "(if h = [] then (None, f1) else os_WriteFile ?p h f1) = (None, f2)"
    "os_WriteFile ?p d f2 = (None, f3)" "os_Close f3 = (None, fs')"
    using assms by (auto simp: file_WriteTo_def Let_def split: prod.splits option.splits if_splits)
  then show ?thesis
    using os_Create_files(2) os_WriteFile_stores os_Close_files
    by (cases "h = []") (fastforce simp: fileContents_def)+
qed

lemma file_obj_frame:
  "fs_frame (filePath cfg k) fs fs' \<Longrightarrow> k' \<noteq> k \<Longrightarrow> file_obj cfg fs' k' = file_obj cfg fs k'"
  by (simp add: fs_frame_def file_obj_def)

lemma file_Read_eq: "file_Read cfg fs ft i off len = file_ReadFrom cfg fs (fc_VolumeName cfg) ft i off len"
  by (simp add: file_Read_def file_ReadFrom_def)

lemma file_ReadFrom_len:
  assumes "file_ReadFrom cfg fs v ft i off len = Inr data" "len \<noteq> 0"
  shows "\<exists>c. file_obj cfg fs (GetFilePath ft i v) = Some c \<and> unat off + unat len \<le> length c \<and>
    data = take (unat len) (drop (unat off) c)"
  using assms by (auto simp: file_ReadFrom_def Let_def file_obj_def os_ReadAt_def unat_eq_0 split: option.splits if_splits)

lemma SafeInt64ToUint32_nat: "n < 4294967296 \<Longrightarrow> unat (SafeInt64ToUint32 (int n)) = n"
  by (simp add: SafeInt64ToUint32_def unat_of_nat_u32)

lemma file_Write_readable: "file_Write cfg ft i h d fs = (r, fs') \<Longrightarrow> file_readable cfg fs' = file_readable cfg fs"
  using file_Write_frame [of cfg ft i h d fs r fs'] by (simp add: file_readable_def fs_frame_def fun_eq_iff)

lemma file_ReadFrom_missing:
  "file_obj cfg fs (GetFilePath ft i v) = None \<Longrightarrow> file_ReadFrom cfg fs v ft i off len = Inl BNotExist"
  by (simp add: file_ReadFrom_def file_obj_def)

lemma file_ReadFrom_cong:
  "\<lbrakk>file_obj cfg fs (GetFilePath ft i v) = file_obj cfg fs' (GetFilePath ft i v);
    file_readable cfg fs (GetFilePath ft i v) = file_readable cfg fs' (GetFilePath ft i v)\<rbrakk> \<Longrightarrow>
     file_ReadFrom cfg fs v ft i off len = file_ReadFrom cfg fs' v ft i off len"
  by (simp add: file_ReadFrom_def file_obj_def file_readable_def Let_def cong: option.case_cong)

lemma file_Delete_obj:
  "file_Delete cfg ft i fs = (r, fs') \<Longrightarrow>
     file_obj cfg fs' = (if r = None then (file_obj cfg fs)(GetFilePath ft i (fc_VolumeName cfg) := None) else file_obj cfg fs)"
  using nextFault_frame [of fs]
  by (auto simp: file_Delete_def os_Remove_def file_obj_def fun_eq_iff split: prod.splits option.splits)

lemma file_Delete_readable:
  "file_Delete cfg ft i fs = (r, fs') \<Longrightarrow> file_readable cfg fs' = file_readable cfg fs"
  using nextFault_frame [of fs]
  by (auto simp: file_Delete_def os_Remove_def file_readable_def fun_eq_iff split: prod.splits option.splits)

interpretation fbe: backend_laws "fileBackend cfg" "fc_VolumeName cfg" "file_obj cfg" "file_readable cfg" for cfg
proof unfold_locales
  fix ft i h d s s'
  assume w: "be_Write (fileBackend cfg) ft i h d s = (None, s')"
  then show "file_obj cfg s' = (file_obj cfg s)(GetFilePath ft i (fc_VolumeName cfg) \<mapsto> h @ d)"
    using file_Write_stores [of cfg ft i h d s s'] file_obj_frame [OF file_Write_frame [of cfg ft i h d s None s']]
    by (auto simp: fileBackend_def fun_eq_iff file_obj_def)
next
  fix v ft i h d s s'
  assume w: "be_WriteTo (fileBackend cfg) v ft i h d s = (None, s')"
  then show "file_obj cfg s' = (file_obj cfg s)(GetFilePath ft i v \<mapsto> h @ d)"
    using file_WriteTo_stores [of cfg v ft i h d s s'] file_obj_frame [OF file_WriteTo_frame [of cfg v ft i h d s None s']]
    by (auto simp: fileBackend_def fun_eq_iff file_obj_def)
next
  fix s v ft i c and off len :: u32
  assume "file_readable cfg s (GetFilePath ft i v)" "file_obj cfg s (GetFilePath ft i v) = Some c"
    "unat off + unat len \<le> length c" "len \<noteq> 0"
  then show "be_ReadFrom (fileBackend cfg) s v ft i off len = Inr (take (unat len) (drop (unat off) c))"
    by (simp add: fileBackend_def file_ReadFrom_def Let_def file_readable_def file_obj_def os_ReadAt_def)
next
  fix s v ft i c
  assume "file_readable cfg s (GetFilePath ft i v)" "file_obj cfg s (GetFilePath ft i v) = Some c"
    "length c < 4294967296"
  then show "be_ReadFrom (fileBackend cfg) s v ft i 0 0 = Inr c"
    by (simp add: fileBackend_def file_ReadFrom_def Let_def file_readable_def file_obj_def os_ReadAt_def
        SafeInt64ToUint32_nat)
qed (auto simp: fileBackend_def file_Read_eq file_ReadFrom_missing
    dest: file_obj_frame [OF file_Write_frame] file_obj_frame [OF file_WriteTo_frame] file_ReadFrom_len
      file_Write_readable file_Delete_obj file_Delete_readable intro: file_ReadFrom_cong)

section \<open>A volume directory that was initialised accepts every object\<close>

lemma ancestors_last: "acc @ p \<in> set (ancestorsFrom acc p)"
  by (induction acc p rule: ancestorsFrom.induct) auto

lemma os_MkdirAll_dirs:
  assumes "os_MkdirAll p fs = (None, fs')"
  shows "p \<in> set (fs_dirs fs')" "set (fs_dirs fs) \<subseteq> set (fs_dirs fs')"
  using assms nextFault_frame [of fs] ancestors_last [of "[]" p]
  by (auto simp: os_MkdirAll_def split: prod.splits option.splits if_splits)

lemma initDirs_dirs:
  "initDirs cfg dirs fs = (None, fs') \<Longrightarrow> set (fs_dirs fs) \<subseteq> set (fs_dirs fs') \<and>
     (\<forall>d \<in> set dirs. filePath cfg (fc_VolumeName cfg @ ''/'' @ d) \<in> set (fs_dirs fs'))"
proof (induction dirs arbitrary: fs)
  case (Cons d dirs)
  then obtain fs1 where "os_MkdirAll (filePath cfg (fc_VolumeName cfg @ ''/'' @ d)) fs = (None, fs1)"
    "initDirs cfg dirs fs1 = (None, fs')" by (auto split: prod.splits option.splits)
  then show ?case using Cons.IH os_MkdirAll_dirs by fastforce
qed simp

lemma file_Init_dirs:
  assumes "file_Init cfg fs = (None, fs')"
    "d \<in> {[], ''/chunks'', ''/checkpoints'', ''/wal/chunks'', ''/wal/blocks''}"
  shows "filePath cfg (fc_VolumeName cfg @ d) \<in> set (fs_dirs fs')"
proof -
  let ?dirs = "[''chunks'', ''checkpoints'', ''wal'', ''wal/chunks'', ''wal/blocks'']"
  obtain fs1 where mk: "os_MkdirAll (filePath cfg (fc_VolumeName cfg)) fs = (None, fs1)"
    and dirs: "initDirs cfg ?dirs fs1 = (None, fs')"
    using assms(1) unfolding file_Init_def by (auto split: prod.splits option.splits if_splits)
  have "filePath cfg (fc_VolumeName cfg @ ''/'' @ x) \<in> set (fs_dirs fs')" if "x \<in> set ?dirs" for x
    using initDirs_dirs [OF dirs] that by blast
  from this [of "''chunks''"] this [of "''checkpoints''"] this [of "''wal/chunks''"] this [of "''wal/blocks''"]
  have "filePath cfg (fc_VolumeName cfg @ x) \<in> set (fs_dirs fs')"
    if "x \<in> {''/chunks'', ''/checkpoints'', ''/wal/chunks'', ''/wal/blocks''}" for x
    using that by auto
  moreover have "filePath cfg (fc_VolumeName cfg) \<in> set (fs_dirs fs')"
    using os_MkdirAll_dirs(1) [OF mk] initDirs_dirs [OF dirs] by blast
  ultimately show ?thesis using assms(2) by (metis append_Nil2 insert_iff)
qed

lemma parentDir_append:
  assumes "CHR ''/'' \<notin> set b"
  shows "parentDir (a @ CHR ''/'' # b) = a"
proof -
  have "dropWhile (\<lambda>c. c \<noteq> CHR ''/'') (rev b @ CHR ''/'' # rev a) = CHR ''/'' # rev a"
    using assms by (subst dropWhile_append2) auto
  then show ?thesis by (simp add: parentDir_def)
qed

lemma padNat_no_slash: "CHR ''/'' \<notin> set (padNat w n)"
  using padNat_digits [of w n] by (auto simp: list_all_iff isDigit_def)

lemma GetFilePath_parts:
  "\<exists>d b. GetFilePath ft i v = v @ d @ ''/'' @ b \<and> CHR ''/'' \<notin> set b \<and>
     d \<in> {[], ''/chunks'', ''/checkpoints'', ''/wal/chunks'', ''/wal/blocks''}"
proof (cases ft)
  case FileTypeChunk
  then show ?thesis
    by (intro exI [of _ "''/chunks''"] exI [of _ "''chunk.'' @ padNat 8 (unat i) @ ''.bin''"])
       (simp add: padNat_no_slash GetFilePath.simps)
next
  case FileTypeBlockCheckpoint
  then show ?thesis
    by (intro exI [of _ "''/checkpoints''"] exI [of _ "''blocks.'' @ padNat 8 (unat i) @ ''.bin''"])
       (simp add: padNat_no_slash GetFilePath.simps)
next
  case FileTypeWALChunk
  then show ?thesis
    by (intro exI [of _ "''/wal/chunks''"] exI [of _ "''wal.'' @ padNat 8 (unat i) @ ''.bin''"])
       (simp add: padNat_no_slash GetFilePath.simps)
next
  case FileTypeWALBlock
  then show ?thesis
    by (intro exI [of _ "''/wal/blocks''"] exI [of _ "''blocks.'' @ padNat 8 (unat i) @ ''.bin''"])
       (simp add: padNat_no_slash GetFilePath.simps)
next
  case FileTypeWALChunkShard
  then show ?thesis
    by (intro exI [of _ "''/wal/chunks''"] exI [of _ "''wal.'' @ padNat 8 (unat (drop_bit 8 i)) @ ''.shard_'' @
          padNat 2 (unat (i AND 255)) @ ''.bin''"]) (simp add: padNat_no_slash GetFilePath.simps)
next
  case FileTypeBlockCheckpointLive
  then show ?thesis
    by (intro exI [of _ "''/checkpoints''"] exI [of _ "''blocks.live.bin''"]) (simp add: GetFilePath.simps)
next
  case FileTypeSSHAuthKey
  then show ?thesis
    by (intro exI [of _ "[]"] exI [of _ "''unknown.'' @ padNat 8 (unat i) @ ''.bin''"]) (simp add: padNat_no_slash GetFilePath.simps)
next
  case FileTypeConfig
  then show ?thesis by (intro exI [of _ "[]"] exI [of _ "''config.json''"]) (simp add: GetFilePath.simps)
next
  case FileTypeSnapshotMarker
  then show ?thesis by (intro exI [of _ "[]"] exI [of _ "''snapshots.marker''"]) (simp add: GetFilePath.simps)
qed

lemma file_Write_succeeds:
  assumes "parentDir (filePath cfg (GetFilePath ft i (fc_VolumeName cfg))) \<in> set (fs_dirs fs)"
    "filePath cfg (GetFilePath ft i (fc_VolumeName cfg)) \<notin> set (fs_dirs fs)" "fs_faults fs = []"
  shows "\<exists>fs'. file_Write cfg ft i h d fs = (None, fs')"
  using assms by (simp add: file_Write_def os_Create_def os_WriteFile_def os_Close_def nextFault_def Let_def)

text \<open>
  C32. After a successful \<open>Init\<close>, as long as the file system reports no fault, writing an object of any
  type succeeds and a read of any part of it returns the bytes written.\<close>

theorem init_write_read:
  assumes "file_Init cfg fs = (None, fs1)" "fs_faults fs1 = []" "fs_badReads fs1 = []"
    "filePath cfg (GetFilePath ft i (fc_VolumeName cfg)) \<notin> set (fs_dirs fs1)"
    "unat off + unat len \<le> length (h @ d)" "len \<noteq> 0"
  shows "\<exists>fs2. file_Write cfg ft i h d fs1 = (None, fs2) \<and>
    file_Read cfg fs2 ft i off len = Inr (take (unat len) (drop (unat off) (h @ d)))"
proof -
  obtain p b where pb: "GetFilePath ft i (fc_VolumeName cfg) = fc_VolumeName cfg @ p @ ''/'' @ b" "CHR ''/'' \<notin> set b"
    "p \<in> {[], ''/chunks'', ''/checkpoints'', ''/wal/chunks'', ''/wal/blocks''}"
    using GetFilePath_parts by blast
  have "parentDir (filePath cfg (GetFilePath ft i (fc_VolumeName cfg))) = filePath cfg (fc_VolumeName cfg @ p)"
    using parentDir_append [OF pb(2), of "filePath cfg (fc_VolumeName cfg @ p)"] pb(1) by (simp add: filePath_def)
  then obtain fs2 where w: "file_Write cfg ft i h d fs1 = (None, fs2)"
    using file_Write_succeeds file_Init_dirs [OF assms(1) pb(3)] assms(2,4) by metis
  then show ?thesis
    using fbe.Write_then_Read [of cfg ft i h d fs1 fs2 off len] assms(3,5,6)
    by (simp add: fileBackend_def file_readable_def)
qed

definition demoCfg :: FileConfig where
  "demoCfg = \<lparr>fc_VolumeName = ''v'', fc_VolumeSize = 4096, fc_BaseDir = ''/b''\<rparr>"

definition demoFS :: FS where
  "demoFS = \<lparr>fs_files = [], fs_dirs = [''/b''], fs_faults = [], fs_badReads = []\<rparr>"

lemma demo_Init:
  "file_Init demoCfg demoFS = (None, demoFS\<lparr>fs_dirs := [''/b'', ''/b/v'', ''/b/v/chunks'', ''/b/v/checkpoints'',
     ''/b/v/wal'', ''/b/v/wal/chunks'', ''/b/v/wal/blocks'']\<rparr>)"
  by (simp add: file_Init_def demoCfg_def demoFS_def os_MkdirAll_def nextFault_def filePath_def)

theorem init_write_read_witness:
  "\<exists>fs2. file_Write demoCfg FileTypeChunk 3 [1] [2, 3] (snd (file_Init demoCfg demoFS)) = (None, fs2) \<and>
     file_Read demoCfg fs2 FileTypeChunk 3 1 2 = Inr [2, 3]"
  unfolding demo_Init using init_write_read [OF demo_Init, of FileTypeChunk 3 1 2 "[1]" "[2, 3]"]
  by (simp add: demoFS_def demoCfg_def filePath_def GetFilePath.simps)

end
