(* ===== verification/Durability.thy ===== *)
theory Durability
  imports Drain_Props Load File_Backend
begin

text \<open>
  The composition of flush, log, chunk upload, checkpoint and reload: a drain that reports success has put
  every buffered and logged write where a process that starts later finds it.
\<close>

section \<open>A successful drain\<close>

lemma flush_logs:
  assumes "flushLocked os vb = (None, vb')" "log_inv n logged vb"
  shows "log_inv n (logged @ Writes vb) vb'"
    "\<exists>w st. vb' = vb\<lparr>vb_WAL := w, BlockStore := st, Writes := [], PendingBackendWrites := PendingBackendWrites vb @ Writes vb\<rparr>"
proof -
  obtain now where log: "\<not> UseShardedWAL vb" "wal_cur (vb_WAL vb) = Some (n, True)" "wal_WallNum (vb_WAL vb) = n"
    "map_of (wal_files (vb_WAL vb)) n = Some (WALHeader (walParams vb) now @ concat (map (walRecord (walParams vb)) logged))"
    "\<forall>m > n. map_of (wal_files (vb_WAL vb)) m = None"
    using assms(2) by (auto simp: log_inv_def)
  obtain v where v: "flush_frame n vb v" "vb' = v\<lparr>Writes := [], PendingBackendWrites := PendingBackendWrites vb @ Writes vb\<rparr>"
    "walFile n (vb_WAL v) = walFile n (vb_WAL vb) @ concat (map (walRecord (walParams vb)) (Writes vb))"
    using flushLocked_success [OF log(2) assms(1)] .
  obtain w st where w: "v = vb\<lparr>vb_WAL := w, BlockStore := st\<rparr>" "wal_cur w = wal_cur (vb_WAL vb)"
    "wal_WallNum w = wal_WallNum (vb_WAL vb)" "\<forall>m. m \<noteq> n \<longrightarrow> map_of (wal_files w) m = map_of (wal_files (vb_WAL vb)) m"
    using v(1) by (auto simp: flush_frame_def)
  have "walFile n w = WALHeader (walParams vb) now @ concat (map (walRecord (walParams vb)) (logged @ Writes vb))"
    using v(3) log(4) w(1) by (simp add: walFile_def)
  moreover have "WALHeader (walParams vb) now \<noteq> []" by (simp add: WALHeader_def walMagic_def)
  ultimately have "map_of (wal_files w) n = Some (WALHeader (walParams vb) now @ concat (map (walRecord (walParams vb)) (logged @ Writes vb)))"
    by (auto simp: walFile_def split: option.splits)
  then show "log_inv n (logged @ Writes vb) vb'"
    using log w v(2) by (auto simp: log_inv_def walParams_def)
  show "\<exists>w st. vb' = vb\<lparr>vb_WAL := w, BlockStore := st, Writes := [], PendingBackendWrites := PendingBackendWrites vb @ Writes vb\<rparr>"
    using v(2) w(1) by blast
qed

lemma flushed_simps:
  assumes "\<exists>w st. v = vb\<lparr>vb_WAL := w, BlockStore := st, Writes := [], PendingBackendWrites := PendingBackendWrites vb @ Writes vb\<rparr>"
  shows "volume_inv v = volume_inv vb" "fresh_blocks v xs = fresh_blocks vb xs" "vb_BlocksToObject v = vb_BlocksToObject vb"
    "blockStride v = blockStride vb" "openStored v = openStored vb" "vb_Backend v = vb_Backend vb" "ObjectNum v = ObjectNum vb"
    "Writes v = []" "PendingBackendWrites v = PendingBackendWrites vb @ Writes vb" "pendingBytes v = pendingBytes vb"
    "Version v = Version vb" "walParams v = walParams vb"
proof -
  obtain w st where v: "v = vb\<lparr>vb_WAL := w, BlockStore := st, Writes := [], PendingBackendWrites := PendingBackendWrites vb @ Writes vb\<rparr>"
    using assms by blast
  show "volume_inv v = volume_inv vb" unfolding v volume_inv_def map_inv_def geometry_ok_def chunk_fits_def gcMap_def by simp
  show "fresh_blocks v xs = fresh_blocks vb xs" unfolding v fresh_blocks_def walParams_def by simp
  show "walParams v = walParams vb" unfolding v by (simp add: walParams_def)
  show "openStored v = openStored vb" unfolding v by (simp add: openStored_def fun_eq_iff)
qed (use assms in auto)

context backend_laws
begin

lemma drain_ok:
  assumes "DrainToBackend B L sched d vb = (None, vb')" "log_inv n logged vb" "volume_inv vb"
    "fresh_blocks vb (logged @ Writes vb)" "\<forall>js. mset (us_order sched js) = mset js"
    "unat (ObjectNum vb) + length (logged @ Writes vb) < 2 ^ 64" "unat n + 1 < 2 ^ 64"
    "\<forall>i. readable (vb_Backend vb) (GetFilePath FileTypeChunk i vol)"
  defines "blocks \<equiv> logged @ Writes vb"
  shows "log_inv (n + 1) [] vb'" "volume_inv vb'" "Writes vb' = []" "\<not> backendFull vb'"
    "readable (vb_Backend vb') = readable (vb_Backend vb)"
    "x \<in> set (sortedBlocks blocks) \<Longrightarrow> blockOnBackend B vb' (bk_Block x) = Some (bk_Data x)"
    "b \<notin> bk_Block ` set blocks \<Longrightarrow> blockOnBackend B vb' b = blockOnBackend B vb b"
    "PendingBackendWrites vb' = filter (\<lambda>b. bk_Block b \<notin> bk_Block ` set blocks) (PendingBackendWrites vb)"
    "pendingBytes vb' - bufSize (PendingBackendWrites vb') = pendingBytes vb - bufSize (PendingBackendWrites vb @ Writes vb)"
    "blocks \<noteq> [] \<or> bto_dirty (vb_BlocksToObject vb) \<or> checkpointed (obj (vb_Backend vb)) vol vb \<Longrightarrow>
       checkpointed (obj (vb_Backend vb')) vol vb'"
    "b \<notin> bk_Block ` set blocks \<Longrightarrow> blm.cell_at (blockStride vb) (vbMap vb') b = blm.cell_at (blockStride vb) (vbMap vb) b"
    "blockStride vb' = blockStride vb" "walParams vb' = walParams vb" "MaxPendingBytes vb' = MaxPendingBytes vb"
proof -
  obtain v1 v2 v3 where f: "flushLocked (do_flush d) vb = (None, v1)" and w: "WriteWALToChunk B L sched d True v1 = (None, v2)"
    and s: "SaveLiveCheckpoint B (do_now d) (do_ctxDone d) v2 = (None, v3)" and vb': "vb' = v3\<lparr>backendFull := False\<rparr>"
    using assms(1,2) by (auto simp: DrainToBackend_def drainSteps_def Flush_def log_inv_def split: prod.splits option.splits)
  have cur: "wal_cur (vb_WAL vb) = Some (n, True)" using assms(2) by (simp add: log_inv_def)
  have log1: "log_inv n blocks v1" and v1: "\<exists>w st. v1 = vb\<lparr>vb_WAL := w, BlockStore := st, Writes := [],
      PendingBackendWrites := PendingBackendWrites vb @ Writes vb\<rparr>"
    using flush_logs [OF f assms(2)] unfolding blocks_def by blast+
  note v1_simps = flushed_simps [OF v1]
  have vol1: "volume_inv v1" "fresh_blocks v1 blocks"
    using assms(3,4) unfolding blocks_def by (simp_all add: v1_simps)
  have on1: "blockOnBackend B v1 b = blockOnBackend B vb b" for b
    by (rule blockOnBackend_cong) (simp_all add: v1_simps)
  have pre: "unat (ObjectNum v1) + length blocks < 2 ^ 64" "\<forall>i. readable (vb_Backend v1) (GetFilePath FileTypeChunk i vol)"
    using assms(6,8) unfolding blocks_def by (simp_all add: v1_simps)
  obtain wl where wl: "uploadBlocks B L sched blocks (v1\<lparr>vb_WAL := wl\<rparr>) = (None, v2)"
    "volume_inv (v1\<lparr>vb_WAL := wl\<rparr>)" "fresh_blocks (v1\<lparr>vb_WAL := wl\<rparr>) blocks" "log_inv (n + 1) [] (v1\<lparr>vb_WAL := wl\<rparr>)"
    "\<And>b. blockOnBackend B (v1\<lparr>vb_WAL := wl\<rparr>) b = blockOnBackend B v1 b"
    using WriteWALToChunk_ok [OF w log1 vol1 assms(5) pre(1) assms(7) pre(2)] by blast
  have pre2: "unat (ObjectNum (v1\<lparr>vb_WAL := wl\<rparr>)) + length blocks < 2 ^ 64"
    "\<forall>i. readable (vb_Backend (v1\<lparr>vb_WAL := wl\<rparr>)) (GetFilePath FileTypeChunk i vol)" using pre by simp_all
  note up = uploadBlocks_ok [OF wl(1-3) assms(5) pre2]
  note save = SaveLiveCheckpoint_ok [OF s]
  have sv: "same_volume (v1\<lparr>vb_WAL := wl\<rparr>) v3" using same_volume_trans [OF up(1) save(1)] .
  have "log_inv (n + 1) [] v3" "volume_inv v3"
    using wl(4) up(2) same_volume_log(1) [OF sv] same_volume_log(2) [OF save(1) save(2-4)] by simp_all
  moreover have "same_volume v3 vb'" by (simp add: vb' same_volume_def)
  ultimately show "log_inv (n + 1) [] vb'" "volume_inv vb'"
    using same_volume_log [of v3 vb'] by (simp_all add: vb' gcMap_def)
  show "Writes vb' = []" "\<not> backendFull vb'" using sv by (simp_all add: vb' same_volume_def v1_simps)
  show "readable (vb_Backend vb') = readable (vb_Backend vb)" using up(3) save(9) by (simp add: vb' v1_simps)
  have on: "blockOnBackend B vb' b = blockOnBackend B v2 b" for b
  proof -
    have "blockOnBackend B vb' b = blockOnBackend B v3 b"
      by (rule blockOnBackend_cong) (simp_all add: vb' blockStride_def openStored_def fun_eq_iff)
    then show ?thesis using save(10) by simp
  qed
  show "x \<in> set (sortedBlocks blocks) \<Longrightarrow> blockOnBackend B vb' (bk_Block x) = Some (bk_Data x)" using up(4) on by simp
  show "b \<notin> bk_Block ` set blocks \<Longrightarrow> blockOnBackend B vb' b = blockOnBackend B vb b" using up(5) on wl(5) on1 by simp
  have "filter (\<lambda>b. bk_Block b \<notin> bk_Block ` set blocks) (Writes vb) = []" by (simp add: blocks_def filter_empty_conv)
  then show "PendingBackendWrites vb' = filter (\<lambda>b. bk_Block b \<notin> bk_Block ` set blocks) (PendingBackendWrites vb)"
    using up(6) save(5) by (simp add: vb' v1_simps)
  show "pendingBytes vb' - bufSize (PendingBackendWrites vb') = pendingBytes vb - bufSize (PendingBackendWrites vb @ Writes vb)"
    using up(7) save(5,6) by (simp add: vb' v1_simps)
  show "b \<notin> bk_Block ` set blocks \<Longrightarrow> blm.cell_at (blockStride vb) (vbMap vb') b = blm.cell_at (blockStride vb) (vbMap vb) b"
    using up(9) save(2) by (simp add: vb' v1_simps)
  show "blockStride vb' = blockStride vb" using same_volume_simps(1) [OF sv] by (simp add: vb' v1_simps)
  have "walParams v3 = walParams v1" using sv by (simp add: same_volume_def walParams_def)
  then show "walParams vb' = walParams vb" using v1_simps(12) by (simp add: vb' walParams_def)
  show "MaxPendingBytes vb' = MaxPendingBytes vb" using sv v1 by (auto simp: vb' same_volume_def)
  assume "blocks \<noteq> [] \<or> bto_dirty (vb_BlocksToObject vb) \<or> checkpointed (obj (vb_Backend vb)) vol vb"
  then have "bto_dirty (vb_BlocksToObject v2) \<or> checkpointed (obj (vb_Backend v2)) vol v2"
    using up(8) by (cases "blocks = []") (auto simp: v1_simps checkpointed_def)
  then have "checkpointed (obj (vb_Backend v3)) vol v3" by (rule save(8))
  then show "checkpointed (obj (vb_Backend vb')) vol vb'" by (simp add: vb' checkpointed_def)
qed

end

section \<open>Reloading a checkpoint\<close>

lemma refsTo_card:
  assumes "gomap_ok m"
  shows "refsTo i m = card {k. \<exists>e. map_of m k = Some e \<and> bl_ObjectID e = i}"
proof -
  have "refsTo i m = length (filter (\<lambda>p. bl_ObjectID (snd p) = i) m)"
    unfolding refsTo_def by (induction m) auto
  also have "\<dots> = card (fst ` set (filter (\<lambda>p. bl_ObjectID (snd p) = i) m))"
  proof -
    have "distinct (map fst (filter (\<lambda>p. bl_ObjectID (snd p) = i) m))" using assms by (simp add: distinct_map_filter)
    from distinct_card [OF this] show ?thesis by simp
  qed
  also have "fst ` set (filter (\<lambda>p. bl_ObjectID (snd p) = i) m) = {k. \<exists>e. map_of m k = Some e \<and> bl_ObjectID e = i}"
    using assms by force
  finally show ?thesis .
qed

lemma reload_flat:
  assumes "blm.emap_ok m" "\<forall>i. card (blocksIn stride m i) \<le> 65535"
  shows "flat_ok (flatMap (checkpointRecords stride m))"
    "map_option flat_cell (map_of (flatMap (checkpointRecords stride m)) b) = blm.cell_at stride m b"
proof -
  let ?f = "flatMap (checkpointRecords stride m)"
  have get: "r \<in> set (checkpointRecords stride m) \<and> bl_StartBlock r = b" if "map_of ?f b = Some r" for b r
    using flatMap_get [of "checkpointRecords stride m" b] that by blast
  have "refsTo i ?f \<le> 65535" for i
  proof -
    have "{k. \<exists>e. map_of ?f k = Some e \<and> bl_ObjectID e = i} \<subseteq> blocksIn stride m i"
      using get record_of_cell(1) [OF assms(1)] by (fastforce simp: blocksIn_def flat_cell_def)
    then have "refsTo i ?f \<le> card (blocksIn stride m i)" unfolding refsTo_card [OF flatMap_ok] by (intro card_mono) simp_all
    then show ?thesis using assms(2) order_trans by blast
  qed
  then show "flat_ok ?f" "map_option flat_cell (map_of ?f b) = blm.cell_at stride m b"
    using flatMap_cells [OF assms(1)] by simp_all
qed

lemma maxObjectID_bound:
  "(maxObjectID rs = None \<longleftrightarrow> rs = []) \<and> 
   (\<forall>x. maxObjectID rs = Some x \<longrightarrow> x \<in> bl_ObjectID ` set rs \<and> (\<forall>r \<in> set rs. bl_ObjectID r \<le> x))"
proof (induction rs rule: rev_induct)
  case (snoc r rs)
  have "maxObjectID (rs @ [r]) = (case maxObjectID rs of None \<Rightarrow> Some (bl_ObjectID r)
      | Some x \<Rightarrow> if bl_ObjectID r > x then Some (bl_ObjectID r) else maxObjectID rs)" unfolding maxObjectID_def by simp
  then show ?case using snoc by (cases "maxObjectID rs") (auto split: if_splits intro: order_trans less_imp_le)
qed (simp add: maxObjectID_def)

lemma reconcileObjectNum_frame: "reconcileObjectNum m vb = vb\<lparr>ObjectNum := ObjectNum (reconcileObjectNum m vb)\<rparr>"
  by (cases m) (simp_all add: reconcileObjectNum_def)

lemma installMap_frame: "installMap vb = vb\<lparr>BlockStore := BlockStore (installMap vb)\<rparr>"
  by (simp add: installMap_def)

lemma parse_serialized:
  assumes "blm.emap_ok m" "objs_below N (blockStride vb) m"
  obtains rc st n m' where
    "parseBlockCheckpoint (serializeCheckpoint (Version vb) now (blockStride vb) m) vb =
       (None, vb\<lparr>vb_BlocksToObject := (vb_BlocksToObject vb)\<lparr>bto_BlockLookup := m'\<rparr>, vb_gcRefcount := rc, BlockStore := st, ObjectNum := n\<rparr>)"
    "blm.emap_ok m'" "\<And>b. blm.cell_at (blockStride vb) m' b = blm.cell_at (blockStride vb) m b"
    "objs_below n (blockStride vb) m'"
proof -
  let ?rs = "checkpointRecords (blockStride vb) m"
  let ?m = "coalesceBlockLookup (flatMap ?rs) (blockStride vb)"
  let ?v1 = "vb\<lparr>vb_BlocksToObject := (vb_BlocksToObject vb)\<lparr>bto_BlockLookup := ?m\<rparr>,
     vb_gcRefcount := (if GCEnabled vb then tallyRefs ?m else vb_gcRefcount vb)\<rparr>"
  let ?v2 = "reconcileObjectNum (maxObjectID ?rs) (installMap ?v1)"
  have small: "\<forall>i. card (blocksIn (blockStride vb) m i) \<le> 65535" using assms(2) by (simp add: objs_below_def)
  have "parseBlockCheckpoint (serializeCheckpoint (Version vb) now (blockStride vb) m) vb = (None, ?v2)"
    by (simp add: parseBlockCheckpoint_def walk_serialized Let_def)
  also have "?v2 = vb\<lparr>vb_BlocksToObject := (vb_BlocksToObject vb)\<lparr>bto_BlockLookup := ?m\<rparr>,
     vb_gcRefcount := (if GCEnabled vb then tallyRefs ?m else vb_gcRefcount vb), BlockStore := BlockStore (installMap ?v1),
     ObjectNum := ObjectNum ?v2\<rparr>"
    by (subst reconcileObjectNum_frame, subst installMap_frame) simp
  finally have parse: "parseBlockCheckpoint (serializeCheckpoint (Version vb) now (blockStride vb) m) vb =
     (None, vb\<lparr>vb_BlocksToObject := (vb_BlocksToObject vb)\<lparr>bto_BlockLookup := ?m\<rparr>,
     vb_gcRefcount := (if GCEnabled vb then tallyRefs ?m else vb_gcRefcount vb), BlockStore := BlockStore (installMap ?v1),
     ObjectNum := ObjectNum ?v2\<rparr>)" .
  note flat = reload_flat [OF assms(1) small]
  have cells: "blm.cell_at (blockStride vb) ?m b = blm.cell_at (blockStride vb) m b" for b
    using coalesceBlockLookup_spec(2) [OF flat(1)] flat(2) by simp
  have num: "ObjectNum (installMap ?v1) = ObjectNum vb" by (subst installMap_frame) simp
  have id_of: "i < N" "\<exists>r \<in> set ?rs. bl_ObjectID r = i" if c: "blm.cell_at (blockStride vb) m b = Some (i, off, q)" for b i off q
  proof -
    show "i < N" by (rule objs_belowD [OF assms(2) c])
    obtain r where r: "r \<in> set ?rs" "bl_StartBlock r = b" using cell_has_record [OF assms(1), of "blockStride vb" b] c by auto
    then show "\<exists>r \<in> set ?rs. bl_ObjectID r = i"
      using record_of_cell(1) [OF assms(1) r(1)] c by (auto simp: flat_cell_def)
  qed
  have "i < ObjectNum ?v2" if c: "blm.cell_at (blockStride vb) m b = Some (i, off, q)" for b i off q
  proof -
    obtain x where x: "maxObjectID ?rs = Some x" "i \<le> x" "x \<in> bl_ObjectID ` set ?rs"
      using id_of(2) [OF c] maxObjectID_bound [of ?rs] by (cases "maxObjectID ?rs") auto
    then obtain r where r: "r \<in> set ?rs" "bl_ObjectID r = x" by blast
    have "x < N" using record_of_cell(1) [OF assms(1) r(1)] r(2) objs_belowD [OF assms(2)] by (auto simp: flat_cell_def)
    then have "unat (x + 1) = unat x + 1" using unat_less_2p64 [of N] by (intro unat_Suc_u64) (auto simp: word_less_nat_alt simp del: unat_less_2p64)
    then show ?thesis using x(1,2) num by (auto simp: reconcileObjectNum_def word_less_nat_alt word_le_nat_alt)
  qed
  then have "objs_below (ObjectNum ?v2) (blockStride vb) ?m"
    using small unfolding objs_below_def blocksIn_def cells by blast
  then show thesis using that [OF parse coalesceBlockLookup_spec(1) [OF flat(1)]] cells by blast
qed

text \<open>How long a serialised map is: one record for each block the map covers.\<close>

definition mappedBlocks :: "u32 \<Rightarrow> (u64, BlockLookup) gomap \<Rightarrow> u64 set" where
  "mappedBlocks stride m = {b. blm.cell_at stride m b \<noteq> None}"

lemma covered_card: "blm.ext_ok e \<Longrightarrow> card {b. blm.covers e b} = unat (bl_NumBlocks e)"
proof -
  assume ok: "blm.ext_ok e"
  have bound: "unat (bl_StartBlock e) + unat (bl_NumBlocks e) < 18446744073709551616" using ok by (simp add: blm.ext_ok_def)
  have "unat ` {b. blm.covers e b} = {unat (bl_StartBlock e)..<unat (bl_StartBlock e) + unat (bl_NumBlocks e)}"
  proof (intro equalityI subsetI)
    fix x assume x: "x \<in> {unat (bl_StartBlock e)..<unat (bl_StartBlock e) + unat (bl_NumBlocks e)}"
    then have "unat (of_nat x :: u64) = x" using bound by (intro unat_of_nat_u64) simp
    then show "x \<in> unat ` {b. blm.covers e b}" using x blm.covers_iff [OF ok, of "of_nat x"] by (intro image_eqI [of _ _ "of_nat x"]) auto
  qed (use blm.covers_iff [OF ok] in auto)
  moreover have "card (unat ` {b. blm.covers e b}) = card {b. blm.covers e b}" by (rule card_image) (auto simp: inj_on_def unat_eq_iff)
  ultimately show ?thesis by simp
qed

lemma checkpoint_length:
  assumes "blm.emap_ok m"
  shows "length (serializeCheckpoint v now stride m) = 14 + 34 * card (mappedBlocks stride m)"
proof -
  note ok = blm.emap_okD [OF assms]
  have "length (checkpointRecords stride m) = sum_list (map (\<lambda>p. unat (bl_NumBlocks (snd p))) m)"
    by (simp add: checkpointRecords_def length_concat comp_def expandBlockLookup_def)
  also have "\<dots> = (\<Sum>p \<in> set m. unat (bl_NumBlocks (snd p)))"
    using ok(1) by (intro sum_list_distinct_conv_sum_set) (simp add: distinct_map)
  also have "\<dots> = (\<Sum>p \<in> set m. card {b. blm.covers (snd p) b})"
    using ok(1,3) covered_card by (intro sum.cong) (auto simp: map_of_eq_Some_iff)
  also have "\<dots> = card (\<Union>p \<in> set m. {b. blm.covers (snd p) b})"
    using ok(1,4) by (intro card_UN_disjoint [symmetric]) (auto, metis map_of_eq_Some_iff option.inject)
  also have "(\<Union>p \<in> set m. {b. blm.covers (snd p) b}) = mappedBlocks stride m"
    using ok(1) unfolding mappedBlocks_def blm.cell_at_None_iff [OF assms] by (force simp: map_of_eq_Some_iff)
  finally show ?thesis
    by (simp add: serializeCheckpoint_records writeRecords_length BlockToObjectWALHeader_def blockToObjectWALMagic_def)
qed

section \<open>Durability\<close>

text \<open>
  A volume ready to drain: the log holds \<open>logged\<close>, every logged or buffered record is newer than the map,
  the serialised map fits a backend read, and the keys of the volume can be read.  A restart keeps the backend and the volume's identity, nothing else.
\<close>

definition drain_ready :: "('s \<Rightarrow> string \<Rightarrow> bool) \<Rightarrow> string \<Rightarrow> u64 \<Rightarrow> Block list \<Rightarrow> ('s, 'l) VB \<Rightarrow> bool" where
  "drain_ready readable vol n logged vb \<longleftrightarrow> log_inv n logged vb \<and> volume_inv vb \<and> fresh_blocks vb (logged @ Writes vb) \<and>
     unat (ObjectNum vb) + length (logged @ Writes vb) < 2 ^ 64 \<and> unat n + 1 < 2 ^ 64 \<and>
     14 + 34 * (card (mappedBlocks (blockStride vb) (vbMap vb)) + length (logged @ Writes vb)) < 4294967296 \<and>
     (\<forall>ft i. readable (vb_Backend vb) (GetFilePath ft i vol))"

definition restarted :: "('s, 'l) VB \<Rightarrow> ('s, 'm) VB \<Rightarrow> bool" where
  "restarted vb r \<longleftrightarrow> vb_Backend r = vb_Backend vb \<and> Version r = Version vb \<and> BlockSize r = BlockSize vb \<and>
     EncryptionEnabled r = EncryptionEnabled vb \<and> vb_aead r = vb_aead vb \<and> VolumeUUID r = VolumeUUID vb \<and>
     volumeNameHash r = volumeNameHash vb"

definition newest_of :: "Block list \<Rightarrow> Block \<Rightarrow> bool" where
  "newest_of blocks x \<longleftrightarrow> x \<in> set blocks \<and> (\<forall>y \<in> set blocks. bk_Block y = bk_Block x \<and> y \<noteq> x \<longrightarrow> bk_SeqNum y < bk_SeqNum x)"

lemma newest_of_sorted: "newest_of blocks x \<Longrightarrow> x \<in> set (sortedBlocks blocks)"
  using sortedBlocks_cover [of x blocks] sortedBlocks_set [of _ blocks] unfolding newest_of_def by (metis leD)

context backend_laws
begin

lemma reload_map:
  assumes "obj (vb_Backend r) (GetFilePath FileTypeBlockCheckpointLive 0 vol) =
      Some (serializeCheckpoint (Version r) now (blockStride r) m)"
    "blm.emap_ok m" "objs_below N (blockStride r) m" "readable (vb_Backend r) (GetFilePath FileTypeBlockCheckpointLive 0 vol)"
    "14 + 34 * card (mappedBlocks (blockStride r) m) < 4294967296"
  obtains rc bs n m' where "LoadLiveCheckpoint B ok r =
      (None, r\<lparr>vb_BlocksToObject := (vb_BlocksToObject r)\<lparr>bto_BlockLookup := m'\<rparr>, vb_gcRefcount := rc, BlockStore := bs, ObjectNum := n\<rparr>)"
    "\<And>b. LookupBlockToObject ((vb_BlocksToObject r)\<lparr>bto_BlockLookup := m'\<rparr>) (blockStride r) b = blm.cell_at (blockStride r) m b"
    "objs_below n (blockStride r) m'"
proof -
  have rd: "be_Read B (vb_Backend r) FileTypeBlockCheckpointLive 0 0 0 = Inr (serializeCheckpoint (Version r) now (blockStride r) m)"
    unfolding Read_own using Read_whole [OF assms(4,1)] assms(5) by (simp add: checkpoint_length [OF assms(2)])
  obtain rc bs n m' where p: "parseBlockCheckpoint (serializeCheckpoint (Version r) now (blockStride r) m) r =
      (None, r\<lparr>vb_BlocksToObject := (vb_BlocksToObject r)\<lparr>bto_BlockLookup := m'\<rparr>, vb_gcRefcount := rc, BlockStore := bs, ObjectNum := n\<rparr>)"
    and m': "blm.emap_ok m'" "\<And>b. blm.cell_at (blockStride r) m' b = blm.cell_at (blockStride r) m b" "objs_below n (blockStride r) m'"
    by (rule parse_serialized [OF assms(2,3), where now = now]) blast
  show thesis
    using rd p by (intro that [OF _ _ m'(3)]) (simp_all add: LoadLiveCheckpoint_def LookupBlockToObject_eq m'(1,2))
qed

lemma reload_ok:
  assumes "checkpointed (obj (vb_Backend vb)) vol vb" "volume_inv vb" "restarted vb r"
    "readable (vb_Backend vb) (GetFilePath FileTypeBlockCheckpointLive 0 vol)"
    "14 + 34 * card (mappedBlocks (blockStride vb) (vbMap vb)) < 4294967296"
  shows "fst (LoadLiveCheckpoint B ok r) = None"
    "blockOnBackend B (snd (LoadLiveCheckpoint B ok r)) b = blockOnBackend B vb b"
    "objs_below (ObjectNum (snd (LoadLiveCheckpoint B ok r))) (blockStride r) (vbMap (snd (LoadLiveCheckpoint B ok r)))"
proof -
  have st: "blockStride r = blockStride vb" "Version r = Version vb" "vb_Backend r = vb_Backend vb"
    using assms(3) by (simp_all add: restarted_def blockStride_def)
  obtain now where cp: "obj (vb_Backend r) (GetFilePath FileTypeBlockCheckpointLive 0 vol) =
      Some (serializeCheckpoint (Version r) now (blockStride r) (vbMap vb))"
    using assms(1) by (auto simp: checkpointed_def st)
  have inv: "blm.emap_ok (vbMap vb)" "objs_below (ObjectNum vb) (blockStride r) (vbMap vb)"
    using assms(2) by (simp_all add: volume_inv_def map_inv_def st)
  have rd: "readable (vb_Backend r) (GetFilePath FileTypeBlockCheckpointLive 0 vol)"
    "14 + 34 * card (mappedBlocks (blockStride r) (vbMap vb)) < 4294967296" using assms(4,5) by (simp_all add: st)
  obtain rc bs n m where load: "LoadLiveCheckpoint B ok r =
      (None, r\<lparr>vb_BlocksToObject := (vb_BlocksToObject r)\<lparr>bto_BlockLookup := m\<rparr>, vb_gcRefcount := rc, BlockStore := bs, ObjectNum := n\<rparr>)"
    "\<And>b. LookupBlockToObject ((vb_BlocksToObject r)\<lparr>bto_BlockLookup := m\<rparr>) (blockStride r) b = blm.cell_at (blockStride r) (vbMap vb) b"
    "objs_below n (blockStride r) m"
    by (rule reload_map [OF cp inv rd, where ok = ok]) blast
  let ?r = "r\<lparr>vb_BlocksToObject := (vb_BlocksToObject r)\<lparr>bto_BlockLookup := m\<rparr>, vb_gcRefcount := rc, BlockStore := bs, ObjectNum := n\<rparr>"
  show "fst (LoadLiveCheckpoint B ok r) = None"
    "objs_below (ObjectNum (snd (LoadLiveCheckpoint B ok r))) (blockStride r) (vbMap (snd (LoadLiveCheckpoint B ok r)))"
    using load(1,3) by simp_all
  have "openStored ?r = openStored vb" using assms(3) by (simp add: openStored_def restarted_def fun_eq_iff)
  then show "blockOnBackend B (snd (LoadLiveCheckpoint B ok r)) b = blockOnBackend B vb b"
    unfolding load(1) using load(2) inv(1) by (simp add: blockOnBackend_def LookupBlockToObject_eq st split: option.split sum.split)
qed

lemma drain_checkpointed:
  assumes "DrainToBackend B L sched d vb = (None, vb')" "drain_ready readable vol n logged vb" "\<forall>js. mset (us_order sched js) = mset js"
    "logged @ Writes vb \<noteq> []"
  shows "volume_inv vb'" "checkpointed (obj (vb_Backend vb')) vol vb'" "readable (vb_Backend vb') = readable (vb_Backend vb)"
    "14 + 34 * card (mappedBlocks (blockStride vb') (vbMap vb')) < 4294967296"
    "newest_of (logged @ Writes vb) x \<Longrightarrow> blockOnBackend B vb' (bk_Block x) = Some (bk_Data x)"
    "b \<notin> bk_Block ` set (logged @ Writes vb) \<Longrightarrow> blockOnBackend B vb' b = blockOnBackend B vb b"
proof -
  have pre: "log_inv n logged vb" "volume_inv vb" "fresh_blocks vb (logged @ Writes vb)"
    "unat (ObjectNum vb) + length (logged @ Writes vb) < 2 ^ 64" "unat n + 1 < 2 ^ 64"
    "\<forall>i. readable (vb_Backend vb) (GetFilePath FileTypeChunk i vol)"
    using assms(2) by (simp_all add: drain_ready_def)
  note ok = drain_ok [OF assms(1) pre(1-3) assms(3) pre(4-6)]
  show "volume_inv vb'" "checkpointed (obj (vb_Backend vb')) vol vb'" "readable (vb_Backend vb') = readable (vb_Backend vb)"
    "newest_of (logged @ Writes vb) x \<Longrightarrow> blockOnBackend B vb' (bk_Block x) = Some (bk_Data x)"
    "b \<notin> bk_Block ` set (logged @ Writes vb) \<Longrightarrow> blockOnBackend B vb' b = blockOnBackend B vb b"
    using ok(2,5,6,7,10) assms(4) newest_of_sorted by simp_all
  have "mappedBlocks (blockStride vb') (vbMap vb') \<subseteq> mappedBlocks (blockStride vb) (vbMap vb) \<union> bk_Block ` set (logged @ Writes vb)"
    unfolding mappedBlocks_def ok(12) using ok(11) by auto
  then have "card (mappedBlocks (blockStride vb') (vbMap vb')) \<le> card (mappedBlocks (blockStride vb) (vbMap vb) \<union> bk_Block ` set (logged @ Writes vb))"
    by (intro card_mono) simp_all
  also have "\<dots> \<le> card (mappedBlocks (blockStride vb) (vbMap vb)) + card (bk_Block ` set (logged @ Writes vb))" by (rule card_Un_le)
  also have "card (bk_Block ` set (logged @ Writes vb)) \<le> length (logged @ Writes vb)"
    by (rule order_trans [OF card_image_le card_length]) simp
  finally show "14 + 34 * card (mappedBlocks (blockStride vb') (vbMap vb')) < 4294967296" using assms(2) by (simp add: drain_ready_def)
qed

lemma drain_reload:
  assumes "DrainToBackend B L sched d vb = (None, vb')" "drain_ready readable vol n logged vb" "\<forall>js. mset (us_order sched js) = mset js"
    "logged @ Writes vb \<noteq> []" "restarted vb' r"
  shows "fst (LoadLiveCheckpoint B ok r) = None"
    "newest_of (logged @ Writes vb) x \<Longrightarrow> blockOnBackend B (snd (LoadLiveCheckpoint B ok r)) (bk_Block x) = Some (bk_Data x)"
    "b \<notin> bk_Block ` set (logged @ Writes vb) \<Longrightarrow>
       blockOnBackend B (snd (LoadLiveCheckpoint B ok r)) b = blockOnBackend B vb b"
proof -
  note ok = drain_checkpointed [OF assms(1-4)]
  have "readable (vb_Backend vb') (GetFilePath FileTypeBlockCheckpointLive 0 vol)"
    using assms(2) by (simp add: ok(3) drain_ready_def)
  note re = reload_ok [OF ok(2,1) assms(5) this ok(4)]
  show "fst (LoadLiveCheckpoint B ok r) = None"
    "newest_of (logged @ Writes vb) x \<Longrightarrow> blockOnBackend B (snd (LoadLiveCheckpoint B ok r)) (bk_Block x) = Some (bk_Data x)"
    "b \<notin> bk_Block ` set (logged @ Writes vb) \<Longrightarrow>
       blockOnBackend B (snd (LoadLiveCheckpoint B ok r)) b = blockOnBackend B vb b"
    using re ok(5,6) by simp_all
qed

end

section \<open>A drain in which no call fails\<close>

definition writes_succeed :: "'s Backend \<Rightarrow> ('s \<Rightarrow> bool) \<Rightarrow> bool" where
  "writes_succeed B P \<longleftrightarrow> (\<forall>ft i h x s. P s \<longrightarrow> (\<exists>s'. be_Write B ft i h x s = (None, s') \<and> P s'))"

definition drain_good :: "DrainOs \<Rightarrow> ('s, 'l) VB \<Rightarrow> bool" where
  "drain_good d vb \<longleftrightarrow>
     (\<forall>j. os_statOk (do_flush d j) \<and> \<not> os_err (do_flush d j) \<and> recordSize (walParams vb) \<le> os_n (do_flush d j)) \<and>
     do_syncOk d \<and> oo_mkdirOk (do_open d) \<and> oo_openOk (do_open d) \<and> \<not> oo_err (do_open d) \<and> WALHeaderSize \<le> oo_n (do_open d) \<and>
     do_reopenOk d \<and> do_io d = None"

lemma flushLoop_succeeds:
  assumes "\<forall>j. os_statOk (os j) \<and> \<not> os_err (os j) \<and> recordSize (walParams vb) \<le> os_n (os j)" "wal_params_ok (walParams vb)"
    "\<forall>b \<in> set blocks. wal_block (walParams vb) b" "wal_cur (vb_WAL vb) = Some (n, True)"
  shows "fst (flushLoop os i blocks flushed vb) = i + length blocks"
  using assms
proof (induction blocks arbitrary: i flushed vb)
  case (Cons block blocks)
  have "length (walRecord (walParams vb) block) \<le> os_n (os i)"
    using Cons.prems walRecord_length [of "walParams vb" block] by simp
  then have "fst (vbWriteWAL (os i) block vb) = None"
    using Cons.prems(1,4) by (simp add: vbWriteWAL_def WriteWAL_def Let_def min_absorb2)
  then obtain v where v: "vbWriteWAL (os i) block vb = (None, v)" by (cases "vbWriteWAL (os i) block vb") simp
  note fr = flush_frame_simps [OF vbWriteWAL_success(2) [OF v Cons.prems(4)]]
  then show ?case
    using Cons.IH [of "markPending (bk_Block block) v" "Suc i"] Cons.prems v by simp
qed simp

lemma flushLocked_succeeds:
  assumes "\<forall>j. os_statOk (os j) \<and> \<not> os_err (os j) \<and> recordSize (walParams vb) \<le> os_n (os j)" "wal_params_ok (walParams vb)"
    "\<forall>b \<in> set (Writes vb). wal_block (walParams vb) b" "wal_cur (vb_WAL vb) = Some (n, True)"
  shows "fst (flushLocked os vb) = None"
  using flushLoop_succeeds [OF assms, of 0 "[]"] by (auto simp: flushLocked_def Let_def split: prod.splits)

lemma readWALForChunk_written:
  assumes "wal_params_ok wp" "\<forall>b \<in> set blocks. wal_block wp b"
    "0 < unat (wp_blockSize wp)" "unat (wp_blockSize wp) + 28 < 4294967296"
  shows "readWALForChunk wp (Some (WALHeader wp now @ concat (map (walRecord wp) blocks))) None = Inr blocks"
proof -
  let ?raw = "WALHeader wp now @ concat (map (walRecord wp) blocks)"
  have hdr: "take WALHeaderSize (?raw @ replicate WALHeaderSize 0) = WALHeader wp now"
    "drop WALHeaderSize ?raw = concat (map (walRecord wp) blocks)" "?raw \<noteq> []"
    by simp_all (simp add: WALHeader_def walMagic_def)
  have "walRecord wp = (if wp_encrypted wp then sealedRecord wp else plainRecord)" by (simp add: walRecord_def fun_eq_iff)
  moreover have "wp_blockSize wp \<noteq> 0" using assms(3) by auto
  ultimately show ?thesis
    using hdr drain_records [OF assms] WALHeader_fields [of wp now "[]"]
    by (simp add: readWALForChunk_def Let_def del: append_is_Nil_conv take_append drop_append)
qed

lemma createChunk_succeeds:
  assumes "writes_succeed B P" "P (vb_Backend vb)" "full_blocks vb g"
  obtains v where "createChunkFile B L (job_of g) vb = (None, v)" "P (vb_Backend v)" "\<forall>h. full_blocks v h = full_blocks vb h"
proof -
  let ?v = "vb\<lparr>ObjectNum := ObjectNum vb + 1\<rparr>"
  have "full_blocks ?v g" using assms(3) by (simp add: full_blocks_def)
  note body = chunkBody_job [OF this]
  obtain s where s: "be_Write B FileTypeChunk (ObjectNum vb) (ChunkHeader ?v) (concat (map (storedForm ?v) g)) (vb_Backend vb) = (None, s)" "P s"
    using assms(1,2) unfolding writes_succeed_def by blast
  let ?v1 = "releasePending L (cj_blocks (job_of g)) (?v\<lparr>vb_Backend := s\<rparr>)"
  obtain m gc st where ix: "indexRuns (ObjectNum vb) 0 (cj_blocks (job_of g)) ?v1 = ?v1\<lparr>vb_BlocksToObject :=
      (vb_BlocksToObject ?v1)\<lparr>bto_BlockLookup := m\<rparr>, vb_gcRefcount := gc, BlockStore := st\<rparr>"
    using indexRuns_frame by blast
  have "createChunkFile B L (job_of g) vb = (None, ?v1\<lparr>vb_BlocksToObject := (vb_BlocksToObject ?v1)\<lparr>bto_BlockLookup := m, bto_dirty := True\<rparr>,
      vb_gcRefcount := gc, BlockStore := st\<rparr>)"
    unfolding createChunkFile_def Let_def body by (simp add: s(1) ix)
  moreover have "vb_Backend ?v1 = s" "BlockSize ?v1 = BlockSize vb"
    using releasePending_frame [of L "cj_blocks (job_of g)" "?v\<lparr>vb_Backend := s\<rparr>"] by auto
  ultimately show thesis using that s(2) by (simp add: full_blocks_def)
qed

lemma uploadJobs_succeeds:
  assumes "writes_succeed B P" "P (vb_Backend vb)" "\<forall>g \<in> set gs. full_blocks vb g"
  shows "\<exists>v. uploadJobs B L late False (map job_of gs) vb = (None, v) \<and> P (vb_Backend v)"
  using assms(2,3)
proof (induction gs arbitrary: vb)
  case (Cons g gs)
  have "full_blocks vb g" using Cons.prems(2) by simp
  then obtain v where v: "createChunkFile B L (job_of g) vb = (None, v)" "P (vb_Backend v)" "\<forall>h. full_blocks v h = full_blocks vb h"
    by (rule createChunk_succeeds [OF assms(1) Cons.prems(1), where L = L])
  then show ?case using Cons.IH [of v] Cons.prems(2) by auto
qed simp

lemma SaveLive_succeeds:
  assumes "writes_succeed B P" "P (vb_Backend vb)"
  shows "\<exists>v. SaveLiveCheckpoint B now ctxDone vb = (None, v) \<and> P (vb_Backend v)"
proof (cases "bto_dirty (vb_BlocksToObject vb)")
  case True
  obtain s where "be_Write B FileTypeBlockCheckpointLive 0 []
      (serializeCheckpoint (Version vb) now (blockStride vb) (vbMap vb)) (vb_Backend vb) = (None, s)" "P s"
    using assms unfolding writes_succeed_def by blast
  then show ?thesis using True by (simp add: SaveLiveCheckpoint_def)
qed (use assms(2) in \<open>simp add: SaveLiveCheckpoint_def\<close>)

lemma WriteWALToChunk_good:
  assumes "log_inv n blocks vb" "volume_inv vb" "fresh_blocks vb blocks" "drain_good d vb" "unat n + 1 < 2 ^ 64"
  obtains w where "WriteWALToChunk B L sched d True vb = uploadBlocks B L sched blocks (vb\<lparr>vb_WAL := w\<rparr>)"
proof -
  let ?wp = "walParams vb" and ?m = "n + 1"
  obtain now where log: "\<not> UseShardedWAL vb" "wal_cur (vb_WAL vb) = Some (n, True)" "wal_WallNum (vb_WAL vb) = n"
    "map_of (wal_files (vb_WAL vb)) n = Some (WALHeader ?wp now @ concat (map (walRecord ?wp) blocks))"
    using assms(1) by (auto simp: log_inv_def)
  have d: "do_syncOk d" "oo_mkdirOk (do_open d)" "oo_openOk (do_open d)" "\<not> oo_err (do_open d)" "WALHeaderSize \<le> oo_n (do_open d)"
    "do_reopenOk d" "do_io d = None" using assms(4) by (simp_all add: drain_good_def)
  have "fst (rotateWAL d vb) = None"
    using log(2) d by (simp add: rotateWAL_def openWALLocked_def Let_def min_absorb2)
  then obtain v where rot: "rotateWAL d vb = (None, v)" by (cases "rotateWAL d vb") simp
  obtain w where w: "v = vb\<lparr>vb_WAL := w\<rparr>" "map_of (wal_files w) = (map_of (wal_files (vb_WAL vb)))(?m \<mapsto>
      walFile ?m (vb_WAL vb) @ WALHeader ?wp (do_now d))"
    using rotateWAL_ok [OF rot log(2)] unfolding log(3) by metis
  have "n + 1 \<noteq> n" using assms(5) by simp
  then have "map_of (wal_files (vb_WAL v)) n = Some (WALHeader ?wp now @ concat (map (walRecord ?wp) blocks))"
    using w log(4) by simp
  moreover have "walParams v = ?wp" by (simp add: w(1) walParams_def)
  moreover have "readWALForChunk ?wp (Some (WALHeader ?wp now @ concat (map (walRecord ?wp) blocks))) None = Inr blocks"
    using assms(2,3) by (intro readWALForChunk_written)
      (simp_all add: volume_inv_def geometry_ok_def wal_params_ok_def walParams_def fresh_blocks_def)
  ultimately have "WriteWALToChunk B L sched d True vb = uploadBlocks B L sched blocks v"
    using log(1-3) rot d(6,7) by (simp add: WriteWALToChunk_def Let_def)
  then show thesis using that w(1) by blast
qed

lemma WriteWALToChunk_succeeds:
  assumes "writes_succeed B P" "P (vb_Backend vb)" "log_inv n blocks vb" "volume_inv vb" "fresh_blocks vb blocks"
    "\<forall>js. mset (us_order sched js) = mset js" "drain_good d vb" "unat n + 1 < 2 ^ 64"
  shows "\<exists>v. WriteWALToChunk B L sched d True vb = (None, v) \<and> P (vb_Backend v)"
proof -
  obtain w where eq: "WriteWALToChunk B L sched d True vb = uploadBlocks B L sched blocks (vb\<lparr>vb_WAL := w\<rparr>)"
    by (rule WriteWALToChunk_good [OF assms(3-5,7,8)])
  let ?v = "vb\<lparr>vb_WAL := w\<rparr>"
  have v: "volume_inv ?v = volume_inv vb" "fresh_blocks ?v blocks = fresh_blocks vb blocks"
    unfolding volume_inv_def map_inv_def geometry_ok_def chunk_fits_def gcMap_def fresh_blocks_def walParams_def by simp_all
  obtain gs where gs: "us_order sched (packChunks (unat (ObjBlockSize ?v)) (sortedBlocks blocks)) = map job_of gs" "\<forall>g \<in> set gs. full_blocks ?v g"
    using pack_groups [of ?v blocks sched] assms(4-6) v by metis
  have "P (vb_Backend ?v)" using assms(2) by simp
  from uploadJobs_succeeds [OF assms(1) this gs(2), of L "us_late sched"] show ?thesis
    using eq gs(1) by (auto simp: uploadBlocks_def)
qed

lemma drain_succeeds:
  assumes "writes_succeed B P" "P (vb_Backend vb)" "log_inv n logged vb" "volume_inv vb" "fresh_blocks vb (logged @ Writes vb)"
    "\<forall>js. mset (us_order sched js) = mset js" "drain_good d vb" "unat n + 1 < 2 ^ 64"
  shows "\<exists>v. DrainToBackend B L sched d vb = (None, v) \<and> P (vb_Backend v)"
proof -
  let ?blocks = "logged @ Writes vb" and ?wp = "walParams vb"
  have wp: "wal_params_ok ?wp" "0 < unat (wp_blockSize ?wp)" "unat (wp_blockSize ?wp) + 28 < 4294967296"
    using assms(4) by (simp_all add: volume_inv_def geometry_ok_def wal_params_ok_def walParams_def)
  have blk: "\<forall>b \<in> set ?blocks. wal_block ?wp b" using assms(5) by (simp add: fresh_blocks_def)
  have cur: "wal_cur (vb_WAL vb) = Some (n, True)" using assms(3) by (simp add: log_inv_def)
  have "fst (flushLocked (do_flush d) vb) = None"
    using assms(7) blk by (intro flushLocked_succeeds [OF _ wp(1) _ cur]) (auto simp: drain_good_def)
  then obtain v1 where f: "flushLocked (do_flush d) vb = (None, v1)" by (cases "flushLocked (do_flush d) vb") simp
  note log1 = flush_logs [OF f assms(3)]
  note v1 = flushed_simps [OF log1(2)]
  obtain v2 where w: "WriteWALToChunk B L sched d True v1 = (None, v2)" "P (vb_Backend v2)"
    using WriteWALToChunk_succeeds [OF assms(1) _ log1(1) _ _ assms(6) _ assms(8), where d = d and L = L] assms(2,4,5,7)
    by (auto simp: v1 drain_good_def)
  obtain v3 where "SaveLiveCheckpoint B (do_now d) (do_ctxDone d) v2 = (None, v3)" "P (vb_Backend v3)"
    using SaveLive_succeeds [OF assms(1) w(2)] by blast
  moreover have "\<not> UseShardedWAL vb" using assms(3) by (simp add: log_inv_def)
  ultimately show ?thesis using f w(1) by (simp add: DrainToBackend_def drainSteps_def Flush_def)
qed

section \<open>On the file backend\<close>

text \<open>A disk whose calls do not fail: no fault is pending and the directories of the volume exist.\<close>

definition disk_good :: "FileConfig \<Rightarrow> FS \<Rightarrow> bool" where
  "disk_good cfg fs \<longleftrightarrow> fs_faults fs = [] \<and> fs_badReads fs = [] \<and>
     (\<forall>ft i. parentDir (filePath cfg (GetFilePath ft i (fc_VolumeName cfg))) \<in> set (fs_dirs fs) \<and>
             filePath cfg (GetFilePath ft i (fc_VolumeName cfg)) \<notin> set (fs_dirs fs))"

lemma file_writes_succeed: "writes_succeed (fileBackend cfg) (disk_good cfg)"
proof -
  have "\<exists>fs'. file_Write cfg ft i h d fs = (None, fs') \<and> disk_good cfg fs'" if "disk_good cfg fs" for ft i h d fs
  proof -
    obtain fs' where w: "file_Write cfg ft i h d fs = (None, fs')"
      using file_Write_succeeds [of cfg ft i fs h d] \<open>disk_good cfg fs\<close> unfolding disk_good_def by blast
    then have "fs_faults fs' = []" "fs_badReads fs' = []" "fs_dirs fs' = fs_dirs fs"
      using \<open>disk_good cfg fs\<close> by (auto simp: file_Write_def os_Create_def os_WriteFile_def os_Close_def nextFault_def Let_def disk_good_def split: if_splits)
    then show ?thesis using w \<open>disk_good cfg fs\<close> by (simp add: disk_good_def)
  qed
  then show ?thesis by (simp add: writes_succeed_def fileBackend_def)
qed

text \<open>
  C1. Durability across a restart.  When a drain reports success, a process that starts later with only
  the backend and the volume's identity loads the live checkpoint without error and reads, for every block
  that was in the log or in the write buffer, the data of its newest record, and for every other block what
  was readable before; this holds for plain and encrypted volumes and for every completion order of the
  upload pool.\<close>

theorem drain_survives_restart:
  assumes "DrainToBackend (fileBackend cfg) L sched d vb = (None, vb')"
    "drain_ready (file_readable cfg) (fc_VolumeName cfg) n logged vb" "\<forall>js. mset (us_order sched js) = mset js"
    "logged @ Writes vb \<noteq> []" "restarted vb' r"
  shows "fst (LoadLiveCheckpoint (fileBackend cfg) ok r) = None \<and>
    (\<forall>x. newest_of (logged @ Writes vb) x \<longrightarrow>
       blockOnBackend (fileBackend cfg) (snd (LoadLiveCheckpoint (fileBackend cfg) ok r)) (bk_Block x) = Some (bk_Data x)) \<and>
    (\<forall>b. b \<notin> bk_Block ` set (logged @ Writes vb) \<longrightarrow>
       blockOnBackend (fileBackend cfg) (snd (LoadLiveCheckpoint (fileBackend cfg) ok r)) b = blockOnBackend (fileBackend cfg) vb b)"
  using fbe.drain_reload [OF assms] by blast

text \<open>
  C15. A drain in which no call fails succeeds: with a healthy disk, log appends and rotation that work and a
  log without read errors, the drain reports success, whatever was logged or buffered.\<close>

theorem drain_completes:
  assumes "disk_good cfg (vb_Backend vb)" "drain_ready (file_readable cfg) (fc_VolumeName cfg) n logged vb"
    "\<forall>js. mset (us_order sched js) = mset js" "drain_good d vb"
  shows "fst (DrainToBackend (fileBackend cfg) L sched d vb) = None"
  using drain_succeeds [OF file_writes_succeed assms(1) _ _ _ assms(3,4), of n logged L] assms(2)
  unfolding drain_ready_def by force

subsection \<open>A concrete volume\<close>

definition demoDisk :: FS where
  "demoDisk = demoFS\<lparr>fs_dirs := [''/b'', ''/b/v'', ''/b/v/chunks'', ''/b/v/checkpoints'',
     ''/b/v/wal'', ''/b/v/wal/chunks'', ''/b/v/wal/blocks'']\<rparr>"

definition demoDrain :: DrainOs where
  "demoDrain = \<lparr>do_flush = (\<lambda>_. demoOs 99), do_flushShard = (\<lambda>_ _. demoOs 99), do_statOk = True, do_syncOk = True,
     do_open = \<lparr>oo_mkdirOk = True, oo_openOk = True, oo_n = 99, oo_err = False\<rparr>,
     do_openShard = (\<lambda>_. \<lparr>oo_mkdirOk = True, oo_openOk = True, oo_n = 99, oo_err = False\<rparr>), do_reopenOk = True, do_io = None,
     do_shardOk = (\<lambda>_. True), do_shardIo = (\<lambda>_. None), do_now = 7, do_ctxDone = (\<lambda>_. False)\<rparr>"

definition demoSched :: UploadSched where
  "demoSched = \<lparr>us_order = rev, us_late = (\<lambda>_. True)\<rparr>"

definition demoWrites :: "bool \<Rightarrow> (FS, unit) VB" where
  "demoWrites e = (demoVB e demoDisk)\<lparr>Writes := [demoBlock 1 5 10, demoBlock 2 6 11, demoBlock 3 5 12], pendingBytes := 3\<rparr>"

lemma demoSched_perm [simp]: "mset (us_order demoSched js) = mset js"
  by (simp add: demoSched_def)

lemma demoDisk_good: "disk_good demoCfg demoDisk"
proof -
  have "parentDir (filePath demoCfg (GetFilePath ft i ''v'')) \<in> set (fs_dirs demoDisk)" for ft i
  proof -
    obtain d b where p: "GetFilePath ft i ''v'' = ''v'' @ d @ ''/'' @ b" "CHR ''/'' \<notin> set b"
      "d \<in> {[], ''/chunks'', ''/checkpoints'', ''/wal/chunks'', ''/wal/blocks''}"
      using GetFilePath_parts by blast
    have "parentDir (filePath demoCfg (GetFilePath ft i ''v'')) = ''/b/v'' @ d"
      using parentDir_append [OF p(2), of "''/b/v'' @ d"] p(1) by (simp add: filePath_def demoCfg_def)
    then show ?thesis using p(3) by (auto simp: demoDisk_def)
  qed
  moreover have "filePath demoCfg (GetFilePath ft i ''v'') \<notin> set (fs_dirs demoDisk)" for ft i
    by (cases ft) (simp_all add: GetFilePath.simps filePath_def demoCfg_def demoDisk_def)
  ultimately show ?thesis by (simp add: disk_good_def demoDisk_def demoFS_def demoCfg_def)
qed

lemma demoVB_inv:
  "volume_inv (demoVB e s)" "walParams (demoVB e s) = demoWp e"
  "log_inv 0 [] (demoVB e s)" "fresh_blocks (demoVB e s) [demoBlock 1 5 10, demoBlock 2 6 11, demoBlock 3 5 12]"
proof -
  show wp: "walParams (demoVB e s) = demoWp e" by (rule demoVB_walParams)
  have m: "vbMap (demoVB e s) = []" by (simp add: demoVB_def)
  show "volume_inv (demoVB e s)"
    unfolding volume_inv_def map_inv_def m geometry_ok_def chunk_fits_def objs_below_def blocksIn_def heads_ok_def
    by (cases e) (simp_all add: demoVB_def blockStride_def gcMap_def refs_exact_def ChunkHeaderSize_def toyAEAD_ok)
  show "log_inv 0 [] (demoVB e s)" unfolding log_inv_def wp by (auto simp: demoVB_def)
  show "fresh_blocks (demoVB e s) [demoBlock 1 5 10, demoBlock 2 6 11, demoBlock 3 5 12]"
    unfolding fresh_blocks_def wp m by (simp add: demoBlock_ok) (simp add: demoBlock_def)
qed

lemma demoWrites_keeps:
  "volume_inv (demoWrites e)" "log_inv 0 [] (demoWrites e)" "fresh_blocks (demoWrites e) (Writes (demoWrites e))"
  "walParams (demoWrites e) = demoWp e" "vb_Backend (demoWrites e) = demoDisk" "ObjectNum (demoWrites e) = 0"
  "Writes (demoWrites e) = [demoBlock 1 5 10, demoBlock 2 6 11, demoBlock 3 5 12]"
proof -
  let ?v = "demoVB e demoDisk"
  have "volume_inv (demoWrites e) = volume_inv ?v" "log_inv 0 [] (demoWrites e) = log_inv 0 [] ?v"
    "fresh_blocks (demoWrites e) xs = fresh_blocks ?v xs" for xs
    unfolding demoWrites_def volume_inv_def map_inv_def geometry_ok_def chunk_fits_def gcMap_def log_inv_def fresh_blocks_def
      walParams_def by simp_all
  then show "volume_inv (demoWrites e)" "log_inv 0 [] (demoWrites e)" "fresh_blocks (demoWrites e) (Writes (demoWrites e))"
    using demoVB_inv by (simp_all add: demoWrites_def)
  show "walParams (demoWrites e) = demoWp e" using demoVB_walParams [of e demoDisk] by (simp add: demoWrites_def walParams_def)
qed (simp_all add: demoWrites_def demoVB_def)

lemma demo_ready: "drain_ready (file_readable demoCfg) (fc_VolumeName demoCfg) 0 [] (demoWrites e)"
proof -
  have "vbMap (demoWrites e) = []" by (simp add: demoWrites_def demoVB_def)
  then show ?thesis
    using demoWrites_keeps [of e] by (simp add: drain_ready_def file_readable_def demoDisk_def demoFS_def mappedBlocks_def)
qed

lemma demo_drain_good: "drain_good demoDrain (demoWrites e)"
  by (simp add: drain_good_def demoDrain_def demoOs_def demoWrites_keeps recordSize_def WALHeaderSize_def)

theorem drain_completes_witness:
  "disk_good demoCfg demoDisk \<and> fst (DrainToBackend (fileBackend demoCfg) demoLru demoSched demoDrain (demoWrites True)) = None"
  using drain_completes [OF _ demo_ready _ demo_drain_good, of True demoSched demoLru] demoDisk_good
  by (simp add: demoWrites_keeps)

theorem drain_survives_restart_witness:
  "\<exists>vb'. DrainToBackend (fileBackend demoCfg) demoLru demoSched demoDrain (demoWrites True) = (None, vb') \<and>
     blockOnBackend (fileBackend demoCfg) (snd (LoadLiveCheckpoint (fileBackend demoCfg) True
       ((demoVB True (vb_Backend vb'))\<lparr>Version := Version vb', BlockSize := BlockSize vb', EncryptionEnabled := EncryptionEnabled vb',
          vb_aead := vb_aead vb', VolumeUUID := VolumeUUID vb', volumeNameHash := volumeNameHash vb'\<rparr>))) 5 = Some [12]"
proof -
  let ?D = "DrainToBackend (fileBackend demoCfg) demoLru demoSched demoDrain (demoWrites True)"
  have "\<exists>v. ?D = (None, v) \<and> disk_good demoCfg (vb_Backend v)"
    using drain_succeeds [OF file_writes_succeed, of demoCfg "demoWrites True" 0 "[]" demoSched demoDrain demoLru] demoDisk_good
      demoWrites_keeps [of True] demo_drain_good by simp
  then have d: "?D = (None, snd ?D)" by auto
  let ?r = "(demoVB True (vb_Backend (snd ?D)))\<lparr>Version := Version (snd ?D), BlockSize := BlockSize (snd ?D),
     EncryptionEnabled := EncryptionEnabled (snd ?D), vb_aead := vb_aead (snd ?D), VolumeUUID := VolumeUUID (snd ?D),
     volumeNameHash := volumeNameHash (snd ?D)\<rparr>"
  have r: "restarted (snd ?D) ?r" by (simp add: restarted_def demoVB_def)
  have new: "newest_of ([] @ Writes (demoWrites True)) (demoBlock 3 5 12)"
    by (simp add: newest_of_def demoWrites_keeps) (simp add: demoBlock_def)
  have "blockOnBackend (fileBackend demoCfg) (snd (LoadLiveCheckpoint (fileBackend demoCfg) True ?r)) (bk_Block (demoBlock 3 5 12)) =
      Some (bk_Data (demoBlock 3 5 12))"
    using drain_survives_restart [OF d demo_ready _ _ r, of True] new by (simp add: demoWrites_keeps)
  then have "blockOnBackend (fileBackend demoCfg) (snd (LoadLiveCheckpoint (fileBackend demoCfg) True ?r)) 5 = Some [12]"
    by (simp add: demoBlock_def)
  then show ?thesis using d by blast
qed

end
