(* ===== verification/Drain_Errors.thy ===== *)
theory Drain_Errors
  imports Durability
begin

text \<open>
  Drains that fail: what an upload error leaves behind, and the backpressure loop that retries drains.
\<close>

section \<open>Uploads that fail\<close>

lemma createChunk_failed:
  assumes "createChunkFile B L (job_of g) vb = (Some e, vb')" "full_blocks vb g"
  obtains s r where "vb' = vb\<lparr>ObjectNum := ObjectNum vb + 1, vb_Backend := s\<rparr>"
    "be_Write B FileTypeChunk (ObjectNum vb) (ChunkHeader vb) (concat (map (storedForm vb) g)) (vb_Backend vb) = (Some r, s)"
proof -
  let ?v = "vb\<lparr>ObjectNum := ObjectNum vb + 1\<rparr>"
  have "same_volume vb ?v" by (simp add: same_volume_def)
  note sv = same_volume_simps [OF this]
  have "chunkBody ?v (cj_buf (job_of g)) (cj_blocks (job_of g)) = Inr (concat (map (storedForm vb) g))"
    using chunkBody_job [of ?v g] assms(2) by (simp add: sv)
  then show thesis using assms(1) that by (auto simp: createChunkFile_def Let_def sv(6) split: prod.splits option.splits)
qed

lemma objs_below_mono: "objs_below n stride m \<Longrightarrow> unat n' = unat n + 1 \<Longrightarrow> objs_below n' stride m"
  unfolding objs_below_def by (auto simp: word_less_nat_alt)

context backend_laws
begin

lemma createChunk_any:
  assumes "createChunkFile B L (job_of g) vb = (r, vb')" "map_inv vb" "geometry_ok vb" "full_blocks vb g" "matched_ok g"
    "ChunkHeaderSize + length g * unat (blockStride vb) < 4294967296"
    "newer_than_map (blockStride vb) C (vbMap vb) (g @ rest)" "ObjectNum vb \<in> C"
    "bk_Block ` set rest \<inter> bk_Block ` set g = {}"
    "objs_below (ObjectNum vb) (blockStride vb) (vbMap vb)" "unat (ObjectNum vb) + 1 < 2 ^ 64"
    "\<forall>i. readable (vb_Backend vb) (GetFilePath FileTypeChunk i vol)"
  shows "same_volume vb vb'" "map_inv vb'" "unat (ObjectNum vb') = unat (ObjectNum vb) + 1"
    "objs_below (ObjectNum vb') (blockStride vb) (vbMap vb')" "newer_than_map (blockStride vb) C (vbMap vb') rest"
    "readable (vb_Backend vb') = readable (vb_Backend vb)"
    "blockOnBackend B vb' b = blockOnBackend B vb b \<or> (\<exists>x \<in> set g. bk_Block x = b \<and> blockOnBackend B vb' b = Some (bk_Data x))"
proof -
  have newer: "newer_than_map (blockStride vb) C (vbMap vb) g" "newer_than_map (blockStride vb) C (vbMap vb) rest"
    using newer_than_map_sub [OF assms(7)] by auto
  have fresh: "i \<noteq> ObjectNum vb" if "blm.cell_at (blockStride vb) (vbMap vb) x = Some (i, off, q)" for x i off q
    using objs_belowD [OF assms(10) that] by auto
  have "same_volume vb vb' \<and> map_inv vb' \<and> unat (ObjectNum vb') = unat (ObjectNum vb) + 1 \<and>
    objs_below (ObjectNum vb') (blockStride vb) (vbMap vb') \<and> newer_than_map (blockStride vb) C (vbMap vb') rest \<and>
    readable (vb_Backend vb') = readable (vb_Backend vb) \<and>
    (blockOnBackend B vb' b = blockOnBackend B vb b \<or> (\<exists>x \<in> set g. bk_Block x = b \<and> blockOnBackend B vb' b = Some (bk_Data x)))"
  proof (cases r)
    case None
    note c = assms(1) [unfolded None]
    note ok = createChunk_ok [OF c assms(2,4,5) newer(1) assms(8,6)]
    note rd = createChunk_readable [OF c assms(2,4,5) newer(1) assms(8,6,3)]
    have num: "unat (ObjectNum vb') = unat (ObjectNum vb) + 1" unfolding ok(2) using assms(11) by (simp add: unat_plus_nowrap)
    have "objs_below (ObjectNum vb') (blockStride vb) (vbMap vb')"
      using objs_below_step [OF assms(10) ok(6,7) num] assms(5) by (simp add: matched_ok_def)
    moreover have "newer_than_map (blockStride vb) C (vbMap vb') rest"
      by (rule newer_than_map_step [OF newer(2) assms(8,9) _ ok(7)]) (auto simp: in_set_conv_nth ok(6))
    moreover have "blockOnBackend B vb' b = blockOnBackend B vb b \<or> (\<exists>x \<in> set g. bk_Block x = b \<and> blockOnBackend B vb' b = Some (bk_Data x))"
      using rd assms(12) fresh by (cases "b \<in> bk_Block ` set g") (auto simp: image_iff)
    ultimately show ?thesis using ok(1,3,5) num by simp
  next
    case (Some e)
    obtain s e' where s: "vb' = vb\<lparr>ObjectNum := ObjectNum vb + 1, vb_Backend := s\<rparr>"
      "be_Write B FileTypeChunk (ObjectNum vb) (ChunkHeader vb) (concat (map (storedForm vb) g)) (vb_Backend vb) = (Some e', s)"
      using createChunk_failed [OF assms(1) [unfolded Some] assms(4)] by metis
    have num: "unat (ObjectNum vb') = unat (ObjectNum vb) + 1" unfolding s(1) using assms(11) by (simp add: unat_plus_nowrap)
    have rd: "be_Read B s FileTypeChunk i off len = be_Read B (vb_Backend vb) FileTypeChunk i off len" if "i \<noteq> ObjectNum vb" for i off len
      unfolding Read_own using Write_frame(2) [OF s(2)] that by simp
    have "blockOnBackend B vb' b = blockOnBackend B vb b"
    proof (cases "blm.cell_at (blockStride vb) (vbMap vb) b")
      case None
      then show ?thesis using assms(2) LookupBlockToObject_eq [of "vb_BlocksToObject vb"]
        by (simp add: s(1) blockOnBackend_def map_inv_def)
    next
      case (Some c)
      obtain i off q where c: "c = (i, off, q)" by (cases c)
      have "openStored vb' = openStored vb" by (simp add: s(1) openStored_def fun_eq_iff)
      then show ?thesis using Some c fresh rd assms(2) LookupBlockToObject_eq [of "vb_BlocksToObject vb"]
        by (simp add: s(1) blockOnBackend_def map_inv_def split: sum.split)
    qed
    moreover have "gcMap vb' = gcMap vb" by (simp add: s(1) gcMap_def)
    ultimately show ?thesis using num objs_below_mono [OF assms(10) num] newer(2) Write_readable [OF s(2)] assms(2)
      by (simp add: s(1) same_volume_def map_inv_def)
  qed
  then show "same_volume vb vb'" "map_inv vb'" "unat (ObjectNum vb') = unat (ObjectNum vb) + 1"
    "objs_below (ObjectNum vb') (blockStride vb) (vbMap vb')" "newer_than_map (blockStride vb) C (vbMap vb') rest"
    "readable (vb_Backend vb') = readable (vb_Backend vb)"
    "blockOnBackend B vb' b = blockOnBackend B vb b \<or> (\<exists>x \<in> set g. bk_Block x = b \<and> blockOnBackend B vb' b = Some (bk_Data x))"
    by meson+
qed

lemma uploadJobs_any:
  assumes "uploadJobs B L late failed (map job_of gs) vb = (e, vb')" "map_inv vb" "geometry_ok vb"
    "\<forall>g \<in> set gs. full_blocks vb g \<and> matched_ok g \<and> ChunkHeaderSize + length g * unat (blockStride vb) < 4294967296"
    "distinct (map bk_Block (concat gs))" "newer_than_map (blockStride vb) C (vbMap vb) (concat gs)"
    "\<forall>i. ObjectNum vb \<le> i \<longrightarrow> i \<in> C" "objs_below (ObjectNum vb) (blockStride vb) (vbMap vb)"
    "unat (ObjectNum vb) + length gs < 2 ^ 64"
    "\<forall>i. readable (vb_Backend vb) (GetFilePath FileTypeChunk i vol)"
  shows "same_volume vb vb' \<and> map_inv vb' \<and> objs_below (ObjectNum vb') (blockStride vb) (vbMap vb') \<and>
    readable (vb_Backend vb') = readable (vb_Backend vb) \<and>
    (\<forall>b. blockOnBackend B vb' b = blockOnBackend B vb b \<or>
      (\<exists>x \<in> set (concat gs). bk_Block x = b \<and> blockOnBackend B vb' b = Some (bk_Data x)))"
  using assms
proof (induction gs arbitrary: vb e failed)
  case (Cons g gs)
  show ?case
  proof (cases "failed \<and> late (job_of g)")
    case True
    then have u: "uploadJobs B L late failed (map job_of gs) vb = (e, vb')" using Cons.prems(1) by simp
    have "newer_than_map (blockStride vb) C (vbMap vb) (concat gs)" using newer_than_map_sub [OF Cons.prems(6)] by auto
    then show ?thesis using Cons.IH [OF u Cons.prems(2,3)] Cons.prems(4,5,7-10) by fastforce
  next
    case False
    obtain r v1 e1 where c: "createChunkFile B L (job_of g) vb = (r, v1)"
      and u: "uploadJobs B L late (failed \<or> r \<noteq> None) (map job_of gs) v1 = (e1, vb')"
      using Cons.prems(1) False by (auto split: prod.splits)
    have g: "full_blocks vb g" "matched_ok g" "ChunkHeaderSize + length g * unat (blockStride vb) < 4294967296"
      using Cons.prems(4) by auto
    have disj: "bk_Block ` set (concat gs) \<inter> bk_Block ` set g = {}" using Cons.prems(5) by auto
    have newer: "newer_than_map (blockStride vb) C (vbMap vb) (g @ concat gs)" and inC: "ObjectNum vb \<in> C"
      and num: "unat (ObjectNum vb) + 1 < 2 ^ 64" using Cons.prems(6,7,9) by simp_all
    note ok = createChunk_any [OF c Cons.prems(2,3) g newer inC disj Cons.prems(8) num Cons.prems(10)]
    note sv = same_volume_simps [OF ok(1)]
    have "\<forall>i. ObjectNum v1 \<le> i \<longrightarrow> i \<in> C" using Cons.prems(7) ok(3) by (auto simp: word_le_nat_alt)
    then have p: "geometry_ok v1"
        "\<forall>g \<in> set gs. full_blocks v1 g \<and> matched_ok g \<and> ChunkHeaderSize + length g * unat (blockStride v1) < 4294967296"
        "distinct (map bk_Block (concat gs))" "newer_than_map (blockStride v1) C (vbMap v1) (concat gs)"
        "\<forall>i. ObjectNum v1 \<le> i \<longrightarrow> i \<in> C" "objs_below (ObjectNum v1) (blockStride v1) (vbMap v1)"
        "unat (ObjectNum v1) + length gs < 2 ^ 64" "\<forall>i. readable (vb_Backend v1) (GetFilePath FileTypeChunk i vol)"
      using Cons.prems(3,4,5,9,10) ok(3-6) by (simp_all add: sv)
    note IH = Cons.IH [OF u ok(2) p, unfolded sv]
    have "blockOnBackend B vb' b = blockOnBackend B vb b \<or>
        (\<exists>x \<in> set (concat (g # gs)). bk_Block x = b \<and> blockOnBackend B vb' b = Some (bk_Data x))" for b
    proof -
      have "blockOnBackend B vb' b = blockOnBackend B v1 b \<or>
        (\<exists>x \<in> set (concat gs). bk_Block x = b \<and> blockOnBackend B vb' b = Some (bk_Data x))" using IH by blast
      then show ?thesis using ok(7) [of b] by auto
    qed
    then show ?thesis using same_volume_trans [OF ok(1) IH [THEN conjunct1]] IH ok(6) by simp
  qed
qed simp

lemma uploadBlocks_any:
  assumes "uploadBlocks B L sched blocks vb = (e, vb')" "volume_inv vb" "fresh_blocks vb blocks"
    "\<forall>js. mset (us_order sched js) = mset js" "unat (ObjectNum vb) + length blocks < 2 ^ 64"
    "\<forall>i. readable (vb_Backend vb) (GetFilePath FileTypeChunk i vol)"
  shows "same_volume vb vb'" "volume_inv vb'" "readable (vb_Backend vb') = readable (vb_Backend vb)"
    "blockOnBackend B vb' b = blockOnBackend B vb b \<or>
       (\<exists>x \<in> set (sortedBlocks blocks). bk_Block x = b \<and> blockOnBackend B vb' b = Some (bk_Data x))"
proof -
  obtain gs where gs: "us_order sched (packChunks (unat (ObjBlockSize vb)) (sortedBlocks blocks)) = map job_of gs"
    "set (concat gs) = set (sortedBlocks blocks)" "distinct (map bk_Block (concat gs))"
    "\<forall>g \<in> set gs. full_blocks vb g \<and> matched_ok g \<and> ChunkHeaderSize + length g * unat (blockStride vb) < 4294967296"
    "length gs \<le> length (sortedBlocks blocks)"
    using pack_groups [OF assms(2-4)] by blast
  have inv: "map_inv vb" "geometry_ok vb" "objs_below (ObjectNum vb) (blockStride vb) (vbMap vb)"
    using assms(2) by (simp_all add: volume_inv_def)
  have bound: "unat (ObjectNum vb) + length gs < 2 ^ 64" using gs(5) assms(5) sortedBlocks_length [of blocks] by linarith
  obtain e' where up: "uploadJobs B L (us_late sched) False (map job_of gs) vb = (e', vb')"
    using assms(1) gs(1) by (auto simp: uploadBlocks_def split: prod.splits)
  have "set (concat gs) \<subseteq> set blocks" using gs(2) sortedBlocks_set by blast
  note any = uploadJobs_any [OF up inv(1,2) gs(4,3) fresh_newer [OF inv(3) assms(3) this] _ inv(3) bound assms(6)]
  have any': "same_volume vb vb'" "map_inv vb'" "objs_below (ObjectNum vb') (blockStride vb) (vbMap vb')"
    "readable (vb_Backend vb') = readable (vb_Backend vb)"
    "\<forall>b. blockOnBackend B vb' b = blockOnBackend B vb b \<or>
      (\<exists>x \<in> set (concat gs). bk_Block x = b \<and> blockOnBackend B vb' b = Some (bk_Data x))"
    using any by simp_all
  then show "same_volume vb vb'" "readable (vb_Backend vb') = readable (vb_Backend vb)"
    "blockOnBackend B vb' b = blockOnBackend B vb b \<or>
       (\<exists>x \<in> set (sortedBlocks blocks). bk_Block x = b \<and> blockOnBackend B vb' b = Some (bk_Data x))"
    unfolding gs(2) by blast+
  note sv = same_volume_simps(1,2) [OF any'(1)]
  have "chunk_fits vb' = chunk_fits vb" "BlockSize vb' = BlockSize vb"
    using any'(1) sv(1) by (simp_all add: chunk_fits_def same_volume_def)
  then show "volume_inv vb'" using any'(2,3) assms(2) unfolding volume_inv_def sv by argo
qed

lemma saveAttempts_any:
  assumes "saveAttempts B cp ctxDone err attempts vb = (e, vb')"
  shows "\<exists>s d. vb' = vb\<lparr>vb_Backend := s, vb_BlocksToObject := (vb_BlocksToObject vb)\<lparr>bto_dirty := d\<rparr>\<rparr> \<and>
    readable s = readable (vb_Backend vb) \<and>
    (\<forall>i. obj s (GetFilePath FileTypeChunk i vol) = obj (vb_Backend vb) (GetFilePath FileTypeChunk i vol))"
  using assms
proof (induction attempts arbitrary: vb err)
  case Nil
  then show ?case
    by (intro exI [of _ "vb_Backend vb"] exI [of _ "bto_dirty (vb_BlocksToObject vb)"]) auto
next
  case (Cons a attempts)
  obtain r s where w: "be_Write B FileTypeBlockCheckpointLive 0 [] cp (vb_Backend vb) = (r, s)" by fastforce
  have frame: "obj s (GetFilePath FileTypeChunk i vol) = obj (vb_Backend vb) (GetFilePath FileTypeChunk i vol)" for i
    using Write_frame(1) [OF w] chunk_key_other [of FileTypeBlockCheckpointLive 0 vol i] by simp
  note rd = Write_readable [OF w]
  show ?case
  proof (cases "r \<noteq> None \<and> \<not> (a < 2 \<and> ctxDone a)")
    case True
    then obtain e' where "r = Some e'" by auto
    with True have "saveAttempts B cp ctxDone (Some e') attempts (vb\<lparr>vb_Backend := s\<rparr>) = (e, vb')"
      using Cons.prems w by auto
    from Cons.IH [OF this] show ?thesis using frame rd by auto
  next
    case False
    have "vb' = vb\<lparr>vb_Backend := s, vb_BlocksToObject := (vb_BlocksToObject vb)\<lparr>bto_dirty :=
        (if r = None then False else bto_dirty (vb_BlocksToObject vb))\<rparr>\<rparr>"
    proof (cases r)
      case None
      then show ?thesis using Cons.prems w by simp
    next
      case (Some x)
      then show ?thesis using Cons.prems w False by auto
    qed
    then show ?thesis using frame rd by blast
  qed
qed

lemma SaveLive_any:
  assumes "SaveLiveCheckpoint B now ctxDone vb = (e, vb')"
  shows "same_volume vb vb'" "vbMap vb' = vbMap vb" "ObjectNum vb' = ObjectNum vb" "gcMap vb' = gcMap vb"
    "readable (vb_Backend vb') = readable (vb_Backend vb)" "blockOnBackend B vb' b = blockOnBackend B vb b"
proof -
  have "\<exists>s d. vb' = vb\<lparr>vb_Backend := s, vb_BlocksToObject := (vb_BlocksToObject vb)\<lparr>bto_dirty := d\<rparr>\<rparr> \<and>
    readable s = readable (vb_Backend vb) \<and>
    (\<forall>i. obj s (GetFilePath FileTypeChunk i vol) = obj (vb_Backend vb) (GetFilePath FileTypeChunk i vol))"
  proof (cases "bto_dirty (vb_BlocksToObject vb)")
    case True
    then show ?thesis using assms saveAttempts_any by (simp add: SaveLiveCheckpoint_def del: saveAttempts.simps)
  next
    case False
    then show ?thesis using assms
      by (intro exI [of _ "vb_Backend vb"] exI [of _ False]) (auto simp: SaveLiveCheckpoint_def)
  qed
  then obtain s d where s: "vb' = vb\<lparr>vb_Backend := s, vb_BlocksToObject := (vb_BlocksToObject vb)\<lparr>bto_dirty := d\<rparr>\<rparr>"
    "readable s = readable (vb_Backend vb)"
    "\<forall>i. obj s (GetFilePath FileTypeChunk i vol) = obj (vb_Backend vb) (GetFilePath FileTypeChunk i vol)" by blast
  show "same_volume vb vb'" "vbMap vb' = vbMap vb" "ObjectNum vb' = ObjectNum vb" "gcMap vb' = gcMap vb"
    "readable (vb_Backend vb') = readable (vb_Backend vb)" by (simp_all add: s same_volume_def gcMap_def)
  show "blockOnBackend B vb' b = blockOnBackend B vb b"
    by (rule blockOnBackend_cong) (simp_all add: s openStored_def fun_eq_iff)
qed

end

section \<open>Any outcome of a drain\<close>

lemma flushLoop_frame: "\<exists>w st. snd (snd (flushLoop os i blocks flushed vb)) = vb\<lparr>vb_WAL := w, BlockStore := st\<rparr>"
proof (induction blocks arbitrary: i flushed vb)
  case Nil
  then show ?case by (intro exI [of _ "vb_WAL vb"] exI [of _ "BlockStore vb"]) simp
next
  case (Cons block blocks)
  obtain r v where w: "vbWriteWAL (os i) block vb = (r, v)" by fastforce
  have "v = vb\<lparr>vb_WAL := vb_WAL v\<rparr>"
    using w by (auto simp: vbWriteWAL_def split: option.splits prod.splits if_splits)
  then obtain wl where v: "v = vb\<lparr>vb_WAL := wl\<rparr>" by blast
  show ?case
  proof (cases r)
    case None
    have "\<exists>st. markPending (bk_Block block) v = vb\<lparr>vb_WAL := wl, BlockStore := st\<rparr>"
      by (intro exI [of _ "BlockStore (markPending (bk_Block block) v)"]) (simp add: markPending_def v)
    then show ?thesis using None w Cons [of "Suc i" "gput (bk_Block block) (bk_SeqNum block) flushed" "markPending (bk_Block block) v"] by auto blast
  next
    case (Some e)
    then show ?thesis using w v by (intro exI [of _ wl] exI [of _ "BlockStore vb"]) simp
  qed
qed

lemma flushLocked_frame:
  "\<exists>w st ws ps. snd (flushLocked os vb) = vb\<lparr>vb_WAL := w, BlockStore := st, Writes := ws, PendingBackendWrites := ps\<rparr>"
proof -
  obtain i fl v where l: "flushLoop os 0 (Writes vb) [] vb = (i, fl, v)" by (metis prod_cases3)
  obtain w st where "v = vb\<lparr>vb_WAL := w, BlockStore := st\<rparr>" using flushLoop_frame [of os 0 "Writes vb" "[]" vb] l by auto
  then have "snd (flushLocked os vb) = vb\<lparr>vb_WAL := w, BlockStore := st, Writes := Writes (settleFlush (Writes vb) fl v),
      PendingBackendWrites := PendingBackendWrites (settleFlush (Writes vb) fl v)\<rparr>"
    by (simp add: flushLocked_def l Let_def settleFlush_def)
  then show ?thesis by blast
qed

context backend_laws
begin

lemma wal_update_only:
  assumes "v = vb\<lparr>vb_WAL := w\<rparr>"
  shows "volume_inv v = volume_inv vb" "fresh_blocks v blocks = fresh_blocks vb blocks" "vb_Backend v = vb_Backend vb"
    "blockOnBackend B v b = blockOnBackend B vb b" "ObjectNum v = ObjectNum vb"
proof -
  show "volume_inv v = volume_inv vb" "fresh_blocks v blocks = fresh_blocks vb blocks"
    unfolding assms volume_inv_def map_inv_def geometry_ok_def chunk_fits_def gcMap_def fresh_blocks_def walParams_def by simp_all
  show "blockOnBackend B v b = blockOnBackend B vb b"
    by (rule blockOnBackend_cong) (simp_all add: assms openStored_def fun_eq_iff)
qed (simp_all add: assms)

lemma WriteWALToChunk_cases:
  assumes "WriteWALToChunk B L sched d True vb = (e, vb')" "log_inv n blocks vb" "volume_inv vb" "fresh_blocks vb blocks"
    "unat n + 1 < 2 ^ 64"
  obtains (unchanged) w where "vb' = vb\<lparr>vb_WAL := w\<rparr>" "fst (rotateWAL d vb) = None \<longrightarrow> log_inv (n + 1) [] vb'"
    | (upload) w where "uploadBlocks B L sched blocks (vb\<lparr>vb_WAL := w\<rparr>) = (e, vb')" "log_inv (n + 1) [] (vb\<lparr>vb_WAL := w\<rparr>)"
proof (cases "fst (rotateWAL d vb)")
  case (Some e1)
  obtain v where rot: "rotateWAL d vb = (Some e1, v)" using Some by (cases "rotateWAL d vb") simp
  have "v = vb\<lparr>vb_WAL := vb_WAL v\<rparr>"
    using rot by (auto simp: rotateWAL_def openWALLocked_def Let_def split: option.splits prod.splits if_splits)
  moreover have "vb' = v"
    using assms(1,2) rot by (auto simp: WriteWALToChunk_def log_inv_def Let_def)
  ultimately show thesis using unchanged Some by (metis option.distinct(1))
next
  case None
  let ?wp = "walParams vb"
  obtain v where rot: "rotateWAL d vb = (None, v)" using None by (cases "rotateWAL d vb") simp
  obtain now where log: "\<not> UseShardedWAL vb" "wal_cur (vb_WAL vb) = Some (n, True)" "wal_WallNum (vb_WAL vb) = n"
    "map_of (wal_files (vb_WAL vb)) n = Some (WALHeader ?wp now @ concat (map (walRecord ?wp) blocks))"
    "\<forall>m > n. map_of (wal_files (vb_WAL vb)) m = None"
    using assms(2) by (auto simp: log_inv_def)
  have inc: "n < n + 1" "n + 1 \<noteq> n" using assms(5) by (simp_all add: word_less_nat_alt unat_plus_nowrap)
  obtain w where w: "v = vb\<lparr>vb_WAL := w\<rparr>" "wal_cur w = Some (n + 1, True)" "wal_WallNum w = n + 1"
    "map_of (wal_files w) = (map_of (wal_files (vb_WAL vb)))(n + 1 \<mapsto> walFile (n + 1) (vb_WAL vb) @ WALHeader ?wp (do_now d))"
    using rotateWAL_ok [OF rot log(2)] unfolding log(3) by metis
  have par: "walParams v = ?wp" by (simp add: w(1) walParams_def)
  have log': "log_inv (n + 1) [] v" using log(1,5) w inc par by (auto simp: log_inv_def walFile_def)
  have "map_of (wal_files (vb_WAL v)) n = Some (WALHeader ?wp now @ concat (map (walRecord ?wp) blocks))"
    using w inc(2) log(4) by simp
  then have eq: "(case readWALForChunk ?wp (if do_reopenOk d
        then Some (WALHeader ?wp now @ concat (map (walRecord ?wp) blocks)) else None) (do_io d) of
      Inl e \<Rightarrow> (Some e, v) | Inr blocks \<Rightarrow> uploadBlocks B L sched blocks v) = (e, vb')" (is "(case ?R of Inl e \<Rightarrow> _ | Inr blocks \<Rightarrow> _) = _")
    using assms(1) log(1-3) rot by (cases "do_reopenOk d") (simp_all add: WriteWALToChunk_def par Let_def)
  have wp: "wal_params_ok ?wp" "0 < unat (wp_blockSize ?wp)" "unat (wp_blockSize ?wp) + 28 < 4294967296"
    using assms(3) by (simp_all add: volume_inv_def geometry_ok_def wal_params_ok_def walParams_def)
  show thesis
  proof (cases ?R)
    case (Inl e1)
    then show thesis using unchanged eq w(1) log' by auto
  next
    case (Inr got)
    then have "got = blocks"
      using readWALForChunk_reads [OF wp(1) _ wp(2,3), of blocks now "do_io d"] assms(4)
      by (cases "do_reopenOk d") (auto simp: fresh_blocks_def readWALForChunk_def)
    then show thesis using upload [of w] eq Inr w(1) log' by simp
  qed
qed

lemma chunk_step_any:
  assumes "WriteWALToChunk B L sched d True vb = (e, vb')" "log_inv n blocks vb" "volume_inv vb" "fresh_blocks vb blocks"
    "\<forall>js. mset (us_order sched js) = mset js" "unat (ObjectNum vb) + length blocks < 2 ^ 64" "unat n + 1 < 2 ^ 64"
    "\<forall>i. readable (vb_Backend vb) (GetFilePath FileTypeChunk i vol)"
  shows "volume_inv vb'" "readable (vb_Backend vb') = readable (vb_Backend vb)"
    "blockOnBackend B vb' b = blockOnBackend B vb b \<or>
       (\<exists>x \<in> set (sortedBlocks blocks). bk_Block x = b \<and> blockOnBackend B vb' b = Some (bk_Data x))"
    "\<exists>w. same_volume (vb\<lparr>vb_WAL := w\<rparr>) vb'" "fst (rotateWAL d vb) = None \<Longrightarrow> log_inv (n + 1) [] vb'"
proof -
  have "volume_inv vb' \<and> readable (vb_Backend vb') = readable (vb_Backend vb) \<and>
    (blockOnBackend B vb' b = blockOnBackend B vb b \<or>
       (\<exists>x \<in> set (sortedBlocks blocks). bk_Block x = b \<and> blockOnBackend B vb' b = Some (bk_Data x))) \<and>
    (\<exists>w. same_volume (vb\<lparr>vb_WAL := w\<rparr>) vb') \<and> (fst (rotateWAL d vb) = None \<longrightarrow> log_inv (n + 1) [] vb')"
    using assms(1-4,7)
  proof (cases rule: WriteWALToChunk_cases)
    case (unchanged w)
    then show ?thesis using wal_update_only [OF unchanged(1)] assms(3) by (auto simp: same_volume_def)
  next
    case (upload w)
    note v = wal_update_only [OF refl, where vb = vb and w = w]
    have pre: "volume_inv (vb\<lparr>vb_WAL := w\<rparr>)" "fresh_blocks (vb\<lparr>vb_WAL := w\<rparr>) blocks"
      "unat (ObjectNum (vb\<lparr>vb_WAL := w\<rparr>)) + length blocks < 2 ^ 64"
      "\<forall>i. readable (vb_Backend (vb\<lparr>vb_WAL := w\<rparr>)) (GetFilePath FileTypeChunk i vol)"
      using assms(3,4,6,8) by (simp_all add: v)
    note any = uploadBlocks_any [OF upload(1) pre(1,2) assms(5) pre(3,4)]
    show ?thesis using any upload(2) same_volume_log(1) [OF any(1)] v(4) by auto
  qed
  then show "volume_inv vb'" "readable (vb_Backend vb') = readable (vb_Backend vb)"
    "blockOnBackend B vb' b = blockOnBackend B vb b \<or>
       (\<exists>x \<in> set (sortedBlocks blocks). bk_Block x = b \<and> blockOnBackend B vb' b = Some (bk_Data x))"
    "\<exists>w. same_volume (vb\<lparr>vb_WAL := w\<rparr>) vb'" "fst (rotateWAL d vb) = None \<Longrightarrow> log_inv (n + 1) [] vb'" by meson+
qed

lemma drainSteps_any:
  assumes "drainSteps B L sched d vb = (e, vb')" "log_inv n logged vb" "volume_inv vb"
    "fresh_blocks vb (logged @ Writes vb)" "\<forall>js. mset (us_order sched js) = mset js"
    "unat (ObjectNum vb) + length (logged @ Writes vb) < 2 ^ 64" "unat n + 1 < 2 ^ 64"
    "\<forall>i. readable (vb_Backend vb) (GetFilePath FileTypeChunk i vol)"
  shows "volume_inv vb' \<and> readable (vb_Backend vb') = readable (vb_Backend vb) \<and>
    (\<forall>b. blockOnBackend B vb' b = blockOnBackend B vb b \<or>
       (\<exists>x \<in> set (sortedBlocks (logged @ Writes vb)). bk_Block x = b \<and> blockOnBackend B vb' b = Some (bk_Data x))) \<and>
    (drain_good d vb \<longrightarrow> log_inv (n + 1) [] vb' \<and> Writes vb' = [] \<and> MaxPendingBytes vb' = MaxPendingBytes vb \<and> walParams vb' = walParams vb)"
proof -
  obtain fe v1 where f: "flushLocked (do_flush d) vb = (fe, v1)" by fastforce
  obtain w1 st ws ps where v1: "v1 = vb\<lparr>vb_WAL := w1, BlockStore := st, Writes := ws, PendingBackendWrites := ps\<rparr>"
    using flushLocked_frame [of "do_flush d" vb] f by auto
  have v1': "volume_inv v1 = volume_inv vb" "fresh_blocks v1 xs = fresh_blocks vb xs" "walParams v1 = walParams vb" for xs
    unfolding v1 volume_inv_def map_inv_def geometry_ok_def chunk_fits_def gcMap_def fresh_blocks_def walParams_def by simp_all
  have on1: "blockOnBackend B v1 b = blockOnBackend B vb b" for b
    by (rule blockOnBackend_cong) (simp_all add: v1 openStored_def fun_eq_iff)
  have sh: "\<not> UseShardedWAL vb" and cur: "wal_cur (vb_WAL vb) = Some (n, True)" using assms(2) by (simp_all add: log_inv_def)
  have good_flush: "fe = None" if "drain_good d vb"
    using flushLocked_succeeds [of "do_flush d" vb n] that assms(3,4) cur f
    by (auto simp: drain_good_def fresh_blocks_def wal_params_ok_def volume_inv_def geometry_ok_def walParams_def)
  show ?thesis
  proof (cases fe)
    case (Some x)
    then have "vb' = v1" using assms(1) f sh by (simp add: drainSteps_def Flush_def)
    then show ?thesis using v1' on1 assms(3) good_flush Some by (auto simp: v1)
  next
    case None
    note log1 = flush_logs [OF f [unfolded None] assms(2)]
    obtain ce v2 where c: "WriteWALToChunk B L sched d True v1 = (ce, v2)" by fastforce
    have pre: "volume_inv v1" "fresh_blocks v1 (logged @ Writes vb)" "unat (ObjectNum v1) + length (logged @ Writes vb) < 2 ^ 64"
      "\<forall>i. readable (vb_Backend v1) (GetFilePath FileTypeChunk i vol)"
      using v1'(1,2) assms(3,4,6,8) by (simp_all add: v1)
    note ch = chunk_step_any [OF c log1(1) pre(1,2) assms(5) pre(3) assms(7) pre(4)]
    obtain w2 where sv2: "same_volume (v1\<lparr>vb_WAL := w2\<rparr>) v2" using ch(4) by blast
    have rot: "fst (rotateWAL d v1) = None" if "drain_good d vb"
      using that log1(1) by (simp add: drain_good_def log_inv_def rotateWAL_def openWALLocked_def Let_def min_absorb2)
    have fin: "same_volume v2 vb' \<and> volume_inv vb' \<and> readable (vb_Backend vb') = readable (vb_Backend v2) \<and>
        (\<forall>b. blockOnBackend B vb' b = blockOnBackend B v2 b)"
    proof (cases ce)
      case (Some x)
      then have "vb' = v2" using assms(1) f \<open>fe = None\<close> c sh by (simp add: drainSteps_def Flush_def)
      then show ?thesis using ch(1) by simp
    next
      case None
      then have s: "SaveLiveCheckpoint B (do_now d) (do_ctxDone d) v2 = (e, vb')"
        using assms(1) f \<open>fe = None\<close> c sh by (simp add: drainSteps_def Flush_def)
      note sl = SaveLive_any [OF s]
      show ?thesis using sl same_volume_log(2) [OF sl(1) sl(2-4)] ch(1) by simp
    qed
    have "log_inv (n + 1) [] vb'" if "drain_good d vb" using ch(5) [OF rot [OF that]] same_volume_log(1) [OF fin [THEN conjunct1]] by simp
    moreover have "Writes vb' = []" "MaxPendingBytes vb' = MaxPendingBytes vb" "walParams vb' = walParams vb"
      using same_volume_trans [OF sv2 fin [THEN conjunct1]] log1(2) v1'(3) by (auto simp: same_volume_def walParams_def)
    ultimately show ?thesis using fin ch(2,3) on1 by (auto simp: v1)
  qed
qed

end

end
