(* ===== verification/Backpressure.thy ===== *)
theory Backpressure
  imports Drain_Errors
begin

text \<open>
  What callers can rely on when a drain fails, and when the backpressure loop of \<open>awaitBackpressure\<close>
  returns.
\<close>

section \<open>A failed drain loses nothing that was stored\<close>

lemma DrainToBackend_steps:
  assumes "DrainToBackend B L sched d vb = (e, vb')"
  obtains v where "drainSteps B L sched d vb = (e, v)" "vb' = v \<or> (\<exists>f. vb' = v\<lparr>backendFull := f\<rparr>)"
  using assms by (auto simp: DrainToBackend_def split: prod.splits option.splits if_splits)

lemma backendFull_only:
  "volume_inv (vb\<lparr>backendFull := f\<rparr>) = volume_inv vb" "log_inv n logged (vb\<lparr>backendFull := f\<rparr>) = log_inv n logged vb"
  "blockOnBackend B (vb\<lparr>backendFull := f\<rparr>) b = blockOnBackend B vb b" "walParams (vb\<lparr>backendFull := f\<rparr>) = walParams vb"
proof -
  show "volume_inv (vb\<lparr>backendFull := f\<rparr>) = volume_inv vb" "log_inv n logged (vb\<lparr>backendFull := f\<rparr>) = log_inv n logged vb"
    "walParams (vb\<lparr>backendFull := f\<rparr>) = walParams vb"
    unfolding volume_inv_def map_inv_def geometry_ok_def chunk_fits_def gcMap_def log_inv_def walParams_def by simp_all
  have "openStored (vb\<lparr>backendFull := f\<rparr>) = openStored vb" by (simp add: openStored_def fun_eq_iff)
  then show "blockOnBackend B (vb\<lparr>backendFull := f\<rparr>) b = blockOnBackend B vb b"
    by (simp add: blockOnBackend_def split: option.split sum.split)
qed

text \<open>
  C8. Error safety of the drain: whatever a drain returns, the volume's invariants hold afterwards and
  every block reads from the backend either exactly what it read before, or the data of its newest logged
  or buffered record; never a mixture and never an older record.\<close>

theorem drain_never_corrupts:
  assumes "DrainToBackend (fileBackend cfg) L sched d vb = (e, vb')"
    "drain_ready (file_readable cfg) (fc_VolumeName cfg) n logged vb" "\<forall>js. mset (us_order sched js) = mset js"
  shows "volume_inv vb' \<and>
    (blockOnBackend (fileBackend cfg) vb' b = blockOnBackend (fileBackend cfg) vb b \<or>
     (\<exists>x. x \<in> set (logged @ Writes vb) \<and> bk_Block x = b \<and>
        list_all (\<lambda>y. bk_Block y = b \<longrightarrow> bk_SeqNum y \<le> bk_SeqNum x) (logged @ Writes vb) \<and>
        blockOnBackend (fileBackend cfg) vb' b = Some (bk_Data x)))"
proof -
  obtain v where v: "drainSteps (fileBackend cfg) L sched d vb = (e, v)" "vb' = v \<or> (\<exists>f. vb' = v\<lparr>backendFull := f\<rparr>)"
    by (rule DrainToBackend_steps [OF assms(1)])
  have pre: "log_inv n logged vb" "volume_inv vb" "fresh_blocks vb (logged @ Writes vb)"
    "unat (ObjectNum vb) + length (logged @ Writes vb) < 2 ^ 64" "unat n + 1 < 2 ^ 64"
    "\<forall>i. file_readable cfg (vb_Backend vb) (GetFilePath FileTypeChunk i (fc_VolumeName cfg))"
    using assms(2) by (simp_all add: drain_ready_def)
  have any: "volume_inv v" "blockOnBackend (fileBackend cfg) v b = blockOnBackend (fileBackend cfg) vb b \<or>
       (\<exists>x \<in> set (sortedBlocks (logged @ Writes vb)). bk_Block x = b \<and> blockOnBackend (fileBackend cfg) v b = Some (bk_Data x))"
    using fbe.drainSteps_any [OF v(1) pre(1-3) assms(3) pre(4-6)] by blast+
  have eq: "volume_inv vb' = volume_inv v" "blockOnBackend (fileBackend cfg) vb' b = blockOnBackend (fileBackend cfg) v b"
    using v(2) by (auto simp: backendFull_only)
  from any(2) show ?thesis unfolding eq
  proof (elim disjE bexE conjE)
    fix x assume x: "x \<in> set (sortedBlocks (logged @ Writes vb))" "bk_Block x = b" "blockOnBackend (fileBackend cfg) v b = Some (bk_Data x)"
    then show "volume_inv v \<and> (blockOnBackend (fileBackend cfg) v b = blockOnBackend (fileBackend cfg) vb b \<or>
       (\<exists>x. x \<in> set (logged @ Writes vb) \<and> bk_Block x = b \<and>
          list_all (\<lambda>y. bk_Block y = b \<longrightarrow> bk_SeqNum y \<le> bk_SeqNum x) (logged @ Writes vb) \<and>
          blockOnBackend (fileBackend cfg) v b = Some (bk_Data x)))"
      using any(1) sortedBlocks_set [OF x(1)] by (intro conjI disjI2 exI [of _ x]) (simp_all add: list_all_iff)
  qed (use any(1) in simp)
qed

section \<open>The backpressure loop\<close>

text \<open>
  The accounting of buffered bytes, and a round of the loop in which this caller drains and nothing
  interferes.
\<close>

definition buffers_inv :: "Block list \<Rightarrow> ('s, 'l) VB \<Rightarrow> bool" where
  "buffers_inv logged vb \<longleftrightarrow> pendingBytes vb = bufSize (PendingBackendWrites vb @ Writes vb) \<and>
     bk_Block ` set (PendingBackendWrites vb) \<subseteq> bk_Block ` set (logged @ Writes vb)"

definition round_good :: "('s, 'l) VB \<Rightarrow> ('s, 'l) AwaitRound \<Rightarrow> bool" where
  "round_good vb r \<longleftrightarrow> \<not> ar_ctxErr r \<and> ar_cas r \<and> \<not> ar_ctxDone r \<and> ar_others r = id \<and> drain_good (ar_drain r) vb \<and>
     (\<forall>js. mset (us_order (ar_sched r) js) = mset js)"

text \<open>
  C13. Backpressure is relieved: when the buffered bytes are accounted for by the current log and no call
  fails, a writer that is over the high mark returns after a single drain, without error and with the
  counter at most half the mark.\<close>

theorem backpressure_relieved:
  assumes "disk_good cfg (vb_Backend vb)" "drain_ready (file_readable cfg) (fc_VolumeName cfg) n logged vb"
    "buffers_inv logged vb" "round_good vb (env 0)" "maxPendingBytes vb < PendingBytes vb"
  shows "\<exists>vb'. awaitBackpressure (fileBackend cfg) L env 1 vb = Some (None, vb') \<and> PendingBytes vb' = 0 \<and>
    Writes vb' = [] \<and> PendingBackendWrites vb' = []"
proof -
  let ?B = "fileBackend cfg" and ?r = "env 0"
  have r: "\<not> ar_ctxErr ?r" "ar_cas ?r" "drain_good (ar_drain ?r) vb" "\<forall>js. mset (us_order (ar_sched ?r) js) = mset js"
    using assms(4) by (simp_all add: round_good_def)
  have pre: "log_inv n logged vb" "volume_inv vb" "fresh_blocks vb (logged @ Writes vb)"
    "unat (ObjectNum vb) + length (logged @ Writes vb) < 2 ^ 64" "unat n + 1 < 2 ^ 64"
    "\<forall>i. file_readable cfg (vb_Backend vb) (GetFilePath FileTypeChunk i (fc_VolumeName cfg))"
    using assms(2) by (simp_all add: drain_ready_def)
  obtain v where d: "DrainToBackend ?B L (ar_sched ?r) (ar_drain ?r) vb = (None, v)"
    using drain_succeeds [OF file_writes_succeed assms(1) pre(1-3) r(4,3) pre(5)] by blast
  note ok = fbe.drain_ok [OF d pre(1-3) r(4) pre(4-6)]
  have "PendingBackendWrites v = []" unfolding ok(8) using assms(3) by (auto simp: buffers_inv_def filter_empty_conv)
  then have z: "PendingBackendWrites v = []" "PendingBytes v = 0" using ok(9) assms(3) by (simp_all add: buffers_inv_def PendingBytes_def)
  have "\<not> PendingBytes vb \<le> maxPendingBytes vb div 2"
    using assms(5) by (auto simp: word_le_nat_alt word_less_nat_alt unat_div)
  then have "awaitBackpressure ?B L env 1 vb = Some (None, v)"
    using assms(5) r(1,2) d z by (simp add: awaitBackpressure_def Let_def not_le [symmetric])
  then show ?thesis using z ok(3) by blast
qed

text \<open>
  A volume whose records were all read out of the log by earlier drains: the open segment is empty and so
  is the buffer of hot writes.
\<close>

definition stranded :: "FileConfig \<Rightarrow> WalParams \<Rightarrow> u64 \<Rightarrow> (FS, 'l) VB \<Rightarrow> bool" where
  "stranded cfg wp n vb \<longleftrightarrow> log_inv n [] vb \<and> volume_inv vb \<and> Writes vb = [] \<and> disk_good cfg (vb_Backend vb) \<and> walParams vb = wp \<and>
     (\<forall>i. file_readable cfg (vb_Backend vb) (GetFilePath FileTypeChunk i (fc_VolumeName cfg)))"

lemma stranded_step:
  assumes "stranded cfg wp n vb" "drain_good d vb" "\<forall>js. mset (us_order sched js) = mset js" "unat n + 1 < 2 ^ 64"
  obtains v where "DrainToBackend (fileBackend cfg) L sched d vb = (None, v)" "stranded cfg wp (n + 1) v" "PendingBytes v = PendingBytes vb"
proof -
  have s: "log_inv n [] vb" "volume_inv vb" "Writes vb = []" "disk_good cfg (vb_Backend vb)" "walParams vb = wp"
    "\<forall>i. file_readable cfg (vb_Backend vb) (GetFilePath FileTypeChunk i (fc_VolumeName cfg))"
    using assms(1) by (simp_all add: stranded_def)
  have fresh: "fresh_blocks vb ([] @ Writes vb)" "unat (ObjectNum vb) + length ([] @ Writes vb) < 2 ^ 64"
    by (simp_all add: s(3) fresh_blocks_def)
  obtain v where v: "DrainToBackend (fileBackend cfg) L sched d vb = (None, v)" "disk_good cfg (vb_Backend v)"
    using drain_succeeds [OF file_writes_succeed s(4,1,2) fresh(1) assms(3,2,4)] by blast
  note ok = fbe.drain_ok [OF v(1) s(1,2) fresh(1) assms(3) fresh(2) assms(4) s(6)]
  have "PendingBackendWrites v = PendingBackendWrites vb" unfolding ok(8) by (simp add: s(3))
  then have "pendingBytes v = pendingBytes vb" using ok(9) s(3) by simp
  then have "PendingBytes v = PendingBytes vb" by (simp add: PendingBytes_def)
  moreover have "stranded cfg wp (n + 1) v" using ok(1-3,5,13) v(2) s(5,6) by (simp add: stranded_def)
  ultimately show ?thesis using that v(1) by blast
qed

lemma stranded_loop:
  assumes "stranded cfg wp n vb" "\<forall>v i. walParams v = wp \<longrightarrow> round_good v (env i)" "low < PendingBytes vb" "unat n + fuel < 2 ^ 64"
  shows "awaitLoop (fileBackend cfg) L env low fuel i fails vb = None"
  using assms(1,3,4)
proof (induction fuel arbitrary: n i fails vb)
  case (Suc fuel)
  have wp: "walParams vb = wp" using Suc.prems(1) by (simp add: stranded_def)
  then have r: "\<not> ar_ctxErr (env i)" "ar_cas (env i)" "\<not> ar_ctxDone (env i)" "ar_others (env i) = id" "drain_good (ar_drain (env i)) vb"
    "\<forall>js. mset (us_order (ar_sched (env i)) js) = mset js"
    using assms(2) by (auto simp: round_good_def)
  have n1: "unat n + 1 < 2 ^ 64" using Suc.prems(3) by simp
  obtain v where v: "DrainToBackend (fileBackend cfg) L (ar_sched (env i)) (ar_drain (env i)) vb = (None, v)" "stranded cfg wp (n + 1) v"
    "PendingBytes v = PendingBytes vb"
    by (rule stranded_step [OF Suc.prems(1) r(5,6) n1])
  have "unat (n + 1) + fuel < 2 ^ 64" using Suc.prems(3) n1 by (simp add: unat_plus_nowrap)
  then have "awaitLoop (fileBackend cfg) L env low fuel (Suc i) 0 v = None"
    using Suc.IH [OF v(2)] Suc.prems(2) v(3) by simp
  then show ?case using Suc.prems(2) r(1-4) v by (simp add: not_le)
qed simp

text \<open>
  C33. A failed drain can block writers for good.  When a drain fails after the log was rotated, its
  records stay in a closed segment that no later drain reads, while their bytes stay in the counter.  If
  that leaves the counter above the high mark, then \<open>awaitBackpressure\<close> runs through every number of rounds
  without returning, although each of its drains succeeds.\<close>

theorem failed_drain_blocks_writers:
  assumes "DrainToBackend (fileBackend cfg) L sched d vb = (Some e, v)" "drain_good d vb"
    "drain_ready (file_readable cfg) (fc_VolumeName cfg) n logged vb" "\<forall>js. mset (us_order sched js) = mset js"
    "disk_good cfg (vb_Backend v)" "maxPendingBytes v < PendingBytes v"
    "\<forall>u i. walParams u = walParams vb \<longrightarrow> round_good u (env i)" "unat n + 1 + fuel < 2 ^ 64"
  shows "awaitBackpressure (fileBackend cfg) L env fuel v = None"
proof -
  obtain u where u: "drainSteps (fileBackend cfg) L sched d vb = (Some e, u)" "v = u \<or> (\<exists>f. v = u\<lparr>backendFull := f\<rparr>)"
    by (rule DrainToBackend_steps [OF assms(1)])
  have pre: "log_inv n logged vb" "volume_inv vb" "fresh_blocks vb (logged @ Writes vb)"
    "unat (ObjectNum vb) + length (logged @ Writes vb) < 2 ^ 64" "unat n + 1 < 2 ^ 64"
    "\<forall>i. file_readable cfg (vb_Backend vb) (GetFilePath FileTypeChunk i (fc_VolumeName cfg))"
    using assms(3) by (simp_all add: drain_ready_def)
  have "volume_inv u" "file_readable cfg (vb_Backend u) = file_readable cfg (vb_Backend vb)"
    "log_inv (n + 1) [] u" "Writes u = []" "walParams u = walParams vb"
    using fbe.drainSteps_any [OF u(1) pre(1-3) assms(4) pre(4-6)] assms(2) by blast+
  then have "stranded cfg (walParams vb) (n + 1) v"
    using u(2) assms(5) pre(6) by (auto simp: stranded_def backendFull_only)
  moreover have "maxPendingBytes v div 2 < PendingBytes v"
    using assms(6) by (auto simp: word_le_nat_alt word_less_nat_alt unat_div)
  moreover have "unat (n + 1) + fuel < 2 ^ 64" using assms(8) pre(5) by (simp add: unat_plus_nowrap)
  ultimately have "awaitLoop (fileBackend cfg) L env (maxPendingBytes v div 2) fuel 0 0 v = None"
    by (intro stranded_loop [OF _ assms(7)])
  then show ?thesis using assms(6) by (simp add: awaitBackpressure_def Let_def not_le [symmetric])
qed

lemma flushLoop_cur:
  "wal_cur (vb_WAL (snd (snd (flushLoop os i blocks flushed vb)))) = wal_cur (vb_WAL vb) \<and>
   UseShardedWAL (snd (snd (flushLoop os i blocks flushed vb))) = UseShardedWAL vb \<and>
   pendingBytes (snd (snd (flushLoop os i blocks flushed vb))) = pendingBytes vb"
proof (induction blocks arbitrary: i flushed vb)
  case (Cons block blocks)
  obtain r v where w: "vbWriteWAL (os i) block vb = (r, v)" by fastforce
  then have "wal_cur (vb_WAL v) = wal_cur (vb_WAL vb)" "UseShardedWAL v = UseShardedWAL vb" "pendingBytes v = pendingBytes vb"
    by (auto simp: vbWriteWAL_def split: option.splits prod.splits if_splits)
  then show ?case using w Cons.IH by (cases r) (simp_all add: markPending_def)
qed simp

lemma unsynced_drain_fails:
  assumes "\<not> UseShardedWAL vb" "wal_cur (vb_WAL vb) \<noteq> None" "\<not> do_syncOk d"
  obtains e v where "DrainToBackend B L sched d vb = (Some e, v)" "\<not> isNoSpace e" "\<not> UseShardedWAL v" "wal_cur (vb_WAL v) \<noteq> None"
    "PendingBytes v = PendingBytes vb"
proof -
  obtain r u where f: "flushLocked (do_flush d) vb = (r, u)" by fastforce
  have u: "\<not> UseShardedWAL u" "wal_cur (vb_WAL u) \<noteq> None" "PendingBytes u = PendingBytes vb"
    using f assms(1,2) flushLoop_cur [of "do_flush d" 0 "Writes vb" "[]" vb]
    by (auto simp: flushLocked_def Let_def settleFlush_def PendingBytes_def split: prod.splits)
  obtain e where "drainSteps B L sched d vb = (Some e, u)" "\<not> isNoSpace e"
    using f u assms by (cases r) (auto simp: drainSteps_def Flush_def WriteWALToChunk_def rotateWAL_def)
  then show ?thesis using that u by (fastforce simp: DrainToBackend_def)
qed

text \<open>The rounds before \<open>n\<close> in which the caller wins the right to drain.\<close>

definition roundsWon :: "(nat \<Rightarrow> ('s, 'l) AwaitRound) \<Rightarrow> nat \<Rightarrow> nat \<Rightarrow> nat" where
  "roundsWon env i n = length (filter (\<lambda>k. ar_cas (env k)) [i..<i + n])"

lemma roundsWon_simps [simp]:
  "roundsWon env i 0 = 0"
  "roundsWon env i (Suc n) = (if ar_cas (env i) then 1 else 0) + roundsWon env (Suc i) n"
  by (simp_all add: roundsWon_def upt_conv_Cons del: upt_Suc)

text \<open>
  What a round of the failing wait keeps: the segment that cannot be synced stays open, the context goes
  on, and other goroutines only add to the counter.\<close>

definition unsynced_rounds :: "(nat \<Rightarrow> ('s, 'l) AwaitRound) \<Rightarrow> bool" where
  "unsynced_rounds env \<longleftrightarrow> (\<forall>i. \<not> do_syncOk (ar_drain (env i)) \<and> \<not> ar_ctxErr (env i) \<and> \<not> ar_ctxDone (env i) \<and>
     (\<forall>v. UseShardedWAL (ar_others (env i) v) = UseShardedWAL v \<and> wal_cur (vb_WAL (ar_others (env i) v)) = wal_cur (vb_WAL v) \<and>
          PendingBytes v \<le> PendingBytes (ar_others (env i) v)))"

lemma unsynced_loop:
  assumes "unsynced_rounds env"
  shows "\<lbrakk>\<not> UseShardedWAL vb; wal_cur (vb_WAL vb) \<noteq> None; low < PendingBytes vb; fails < maxDrainFailures\<rbrakk> \<Longrightarrow>
     (if fails + roundsWon env i fuel < maxDrainFailures then awaitLoop B L env low fuel i fails vb = None
      else \<exists>e vb'. awaitLoop B L env low fuel i fails vb = Some (Some (AwaitAborted maxDrainFailures e), vb'))"
proof (induction fuel arbitrary: i fails vb)
  case (Suc fuel)
  have env: "\<not> do_syncOk (ar_drain (env i))" "\<not> ar_ctxErr (env i)" "\<not> ar_ctxDone (env i)"
    using assms by (simp_all add: unsynced_rounds_def)
  have others: "\<not> UseShardedWAL (ar_others (env i) v)" "wal_cur (vb_WAL (ar_others (env i) v)) \<noteq> None" "low < PendingBytes (ar_others (env i) v)"
    if "\<not> UseShardedWAL v" "wal_cur (vb_WAL v) \<noteq> None" "PendingBytes v = PendingBytes vb" for v
    using assms that Suc.prems(3) unfolding unsynced_rounds_def by (fastforce intro: order.strict_trans2)+
  show ?case
  proof (cases "ar_cas (env i)")
    case False
    then show ?thesis
      using Suc.IH [OF others [of vb] Suc.prems(4), of "Suc i"] Suc.prems env by (simp add: not_le)
  next
    case True
    obtain e v where v: "DrainToBackend B L (ar_sched (env i)) (ar_drain (env i)) vb = (Some e, v)" "\<not> isNoSpace e"
      "\<not> UseShardedWAL v" "wal_cur (vb_WAL v) \<noteq> None" "PendingBytes v = PendingBytes vb"
      by (rule unsynced_drain_fails [OF Suc.prems(1,2) env(1)])
    show ?thesis
    proof (cases "maxDrainFailures \<le> Suc fails")
      case True
      then have "Suc fails = maxDrainFailures" using Suc.prems(4) by simp
      then show ?thesis using v env Suc.prems \<open>ar_cas (env i)\<close> by (simp add: not_le)
    next
      case False
      then show ?thesis
        using Suc.IH [OF others [OF v(3-5)], of "Suc fails" "Suc i"] v env Suc.prems \<open>ar_cas (env i)\<close> by (simp add: not_le)
    qed
  qed
qed simp

text \<open>
  C34. The abort bound of the wait, on a plain log whose segment can no longer be synced, for a caller whose
  context does not end and while other goroutines only add to the counter.  A round in which another caller
  holds the right to drain is not counted.  The loop goes on while the caller has drained, and failed, fewer
  than ten times, and its tenth failure ends it with the abort error.\<close>

theorem failing_drains_end_wait:
  assumes "\<not> UseShardedWAL vb" "wal_cur (vb_WAL vb) \<noteq> None" "maxPendingBytes vb < PendingBytes vb" "unsynced_rounds env"
  shows "if roundsWon env 0 rounds < maxDrainFailures then awaitBackpressure B L env rounds vb = None
    else \<exists>e vb'. awaitBackpressure B L env rounds vb = Some (Some (AwaitAborted maxDrainFailures e), vb')"
proof -
  have "maxPendingBytes vb div 2 < PendingBytes vb"
    using assms(3) by (auto simp: word_le_nat_alt word_less_nat_alt unat_div)
  moreover have "0 < maxDrainFailures" by (simp add: maxDrainFailures_def)
  moreover have "awaitBackpressure B L env rounds vb = awaitLoop B L env (maxPendingBytes vb div 2) rounds 0 0 vb"
    using assms(3) by (simp add: awaitBackpressure_def Let_def not_le [symmetric])
  ultimately show ?thesis
    using unsynced_loop [OF assms(4,1,2), of "maxPendingBytes vb div 2" 0 0 rounds B L] by simp
qed

section \<open>A drain on a disk with one fault\<close>

definition demoFaulty :: "(FS, unit) VB" where
  "demoFaulty = (demoWrites False)\<lparr>vb_Backend := demoDisk\<lparr>fs_faults := [Some (EIO, 0)]\<rparr>, MaxPendingBytes := 2\<rparr>"

definition demoRound :: "(FS, unit) AwaitRound" where
  "demoRound = \<lparr>ar_ctxErr = False, ar_cas = True, ar_sched = demoSched, ar_drain = demoDrain, ar_ctxDone = False, ar_others = id\<rparr>"

lemma demoFaulty_ready:
  "drain_ready (file_readable demoCfg) (fc_VolumeName demoCfg) 0 [] demoFaulty" "drain_good demoDrain demoFaulty"
  "walParams demoFaulty = demoWp False"
proof -
  let ?v = "demoWrites False"
  have "volume_inv demoFaulty = volume_inv ?v" "log_inv 0 [] demoFaulty = log_inv 0 [] ?v" "fresh_blocks demoFaulty xs = fresh_blocks ?v xs"
    and wp: "walParams demoFaulty = walParams ?v" for xs
    unfolding demoFaulty_def volume_inv_def map_inv_def geometry_ok_def chunk_fits_def gcMap_def log_inv_def fresh_blocks_def walParams_def
    by simp_all
  moreover have "Writes demoFaulty = Writes ?v" "ObjectNum demoFaulty = 0" "vbMap demoFaulty = []" "blockStride demoFaulty = blockStride ?v"
    by (simp_all add: demoFaulty_def demoWrites_keeps) (simp add: demoWrites_def demoVB_def)
  ultimately show "drain_ready (file_readable demoCfg) (fc_VolumeName demoCfg) 0 [] demoFaulty"
    using demoWrites_keeps(1-3,7) [of False]
    by (simp add: drain_ready_def mappedBlocks_def) (simp add: file_readable_def demoFaulty_def demoDisk_def demoFS_def)
  show "drain_good demoDrain demoFaulty" using demo_drain_good [of False] wp by (simp add: drain_good_def)
  show "walParams demoFaulty = demoWp False" using wp demoWrites_keeps(4) by simp
qed

lemma MaxPendingBytes_ready: "drain_ready R vol n logged (vb\<lparr>MaxPendingBytes := z\<rparr>) = drain_ready R vol n logged vb"
  unfolding drain_ready_def volume_inv_def map_inv_def geometry_ok_def chunk_fits_def gcMap_def log_inv_def fresh_blocks_def
    walParams_def mappedBlocks_def by simp

lemma demoFault:
  "file_Write demoCfg ft i h d (demoDisk\<lparr>fs_faults := [Some (EIO, 0)]\<rparr>) = (Some (osErr EIO), demoDisk)"
  by (simp add: file_Write_def os_Create_def nextFault_def demoDisk_def demoFS_def classifyWriteErr_def)

lemma demoFaulty_drain:
  obtains e v where "DrainToBackend (fileBackend demoCfg) demoLru demoSched demoDrain demoFaulty = (Some e, v)"
    "vb_Backend v = demoDisk" "PendingBytes v = 3" "MaxPendingBytes v = 2"
proof -
  let ?blocks = "[demoBlock 1 5 10, demoBlock 2 6 11, demoBlock 3 5 12]"
  have r: "log_inv 0 [] demoFaulty" "volume_inv demoFaulty" "fresh_blocks demoFaulty (Writes demoFaulty)"
    using demoFaulty_ready(1) by (simp_all add: drain_ready_def)
  have ws: "Writes demoFaulty = ?blocks" by (simp add: demoFaulty_def demoWrites_keeps)
  have "fst (flushLocked (do_flush demoDrain) demoFaulty) = None"
    using r demoFaulty_ready(2) by (intro flushLocked_succeeds [where n = 0])
      (auto simp: drain_good_def fresh_blocks_def wal_params_ok_def volume_inv_def geometry_ok_def walParams_def log_inv_def)
  then obtain v1 where f: "flushLocked (do_flush demoDrain) demoFaulty = (None, v1)" by (cases "flushLocked (do_flush demoDrain) demoFaulty") simp
  note log1 = flush_logs [OF f r(1)]
  note v1 = flushed_simps [OF log1(2)]
  obtain w st where v1_eq: "v1 = demoFaulty\<lparr>vb_WAL := w, BlockStore := st, Writes := [], PendingBackendWrites := ?blocks\<rparr>"
    using log1(2) ws by (auto simp: demoFaulty_def demoWrites_def demoVB_def)
  have good: "drain_good demoDrain v1" using demoFaulty_ready(2) v1(12) by (simp add: drain_good_def)
  obtain w2 where up: "WriteWALToChunk (fileBackend demoCfg) demoLru demoSched demoDrain True v1 =
      uploadBlocks (fileBackend demoCfg) demoLru demoSched ?blocks (v1\<lparr>vb_WAL := w2\<rparr>)"
    using WriteWALToChunk_good [of 0 ?blocks v1 demoDrain "fileBackend demoCfg" demoLru demoSched] log1(1) v1(1,2) r(2,3) good ws
    by (auto simp: v1)
  have "sortedBlocks ?blocks = [demoBlock 3 5 12, demoBlock 2 6 11]" by (simp add: demoBlock_def) code_simp
  moreover have "packChunks 2 [demoBlock 3 5 12, demoBlock 2 6 11] = [job_of [demoBlock 3 5 12, demoBlock 2 6 11]]"
    by (simp add: demoBlock_def packChunks_def job_of_def)
  moreover define v2 where "v2 = v1\<lparr>vb_WAL := w2\<rparr>"
  moreover have v2: "EncryptionEnabled v2 = False" "vb_Backend v2 = demoDisk\<lparr>fs_faults := [Some (EIO, 0)]\<rparr>" "ObjectNum v2 = 0"
    "ObjBlockSize v2 = 2" "pendingBytes v2 = 3" "MaxPendingBytes v2 = 2"
    by (simp_all add: v2_def v1_eq demoFaulty_def demoWrites_def demoVB_def)
  ultimately have "uploadBlocks (fileBackend demoCfg) demoLru demoSched ?blocks v2 =
     (Some (ErrDrainChunk (ErrChunkBackend (osErr EIO))), v2\<lparr>ObjectNum := 1, vb_Backend := demoDisk\<rparr>)"
    by (simp add: uploadBlocks_def demoSched_def createChunkFile_def chunkBody_def job_of_def demoFault fileBackend_def)
  then have "drainSteps (fileBackend demoCfg) demoLru demoSched demoDrain demoFaulty =
     (Some (ErrDrainChunk (ErrChunkBackend (osErr EIO))), v2\<lparr>ObjectNum := 1, vb_Backend := demoDisk\<rparr>)"
    using f r(1) up by (simp add: drainSteps_def Flush_def log_inv_def v2_def)
  then have "DrainToBackend (fileBackend demoCfg) demoLru demoSched demoDrain demoFaulty =
     (Some (ErrDrainChunk (ErrChunkBackend (osErr EIO))), v2\<lparr>ObjectNum := 1, vb_Backend := demoDisk\<rparr>)"
    by (simp add: DrainToBackend_def osErr_def)
  then show ?thesis using that v2 by (simp add: PendingBytes_def)
qed

theorem drain_never_corrupts_witness:
  "volume_inv (snd (DrainToBackend (fileBackend demoCfg) demoLru demoSched demoDrain demoFaulty))"
  using drain_never_corrupts [where L = demoLru and sched = demoSched and d = demoDrain, OF prod.collapse [symmetric] demoFaulty_ready(1)]
  by simp

theorem backpressure_relieved_witness:
  "\<exists>vb'. awaitBackpressure (fileBackend demoCfg) demoLru (\<lambda>_. demoRound) 1 ((demoWrites True)\<lparr>MaxPendingBytes := 2\<rparr>) = Some (None, vb') \<and>
     PendingBytes vb' = 0"
proof -
  let ?v = "(demoWrites True)\<lparr>MaxPendingBytes := 2\<rparr>"
  have "bufSize (Writes (demoWrites True)) = 3" by (simp add: bufSize_def demoWrites_keeps) (simp add: demoBlock_def)
  then have "buffers_inv [] ?v" by (simp add: buffers_inv_def) (simp add: demoWrites_def demoVB_def)
  moreover have "drain_good demoDrain ?v" using demo_drain_good [of True] by (simp add: drain_good_def walParams_def)
  then have "round_good ?v demoRound" by (simp add: round_good_def demoRound_def)
  moreover have "maxPendingBytes ?v < PendingBytes ?v" by (simp add: maxPendingBytes_def PendingBytes_def demoWrites_def)
  ultimately have "\<exists>vb'. awaitBackpressure (fileBackend demoCfg) demoLru (\<lambda>_. demoRound) 1 ?v = Some (None, vb') \<and> PendingBytes vb' = 0 \<and>
    Writes vb' = [] \<and> PendingBackendWrites vb' = []"
    using demo_ready [of True] demoDisk_good by (intro backpressure_relieved) (simp_all add: demoWrites_keeps MaxPendingBytes_ready)
  then show ?thesis by blast
qed

theorem failed_drain_blocks_writers_witness:
  "awaitBackpressure (fileBackend demoCfg) demoLru (\<lambda>_. demoRound) 1000
     (snd (DrainToBackend (fileBackend demoCfg) demoLru demoSched demoDrain demoFaulty)) = None"
proof -
  obtain e v where v: "DrainToBackend (fileBackend demoCfg) demoLru demoSched demoDrain demoFaulty = (Some e, v)"
    "vb_Backend v = demoDisk" "PendingBytes v = 3" "MaxPendingBytes v = 2" by (rule demoFaulty_drain)
  have "round_good u demoRound" if "walParams u = walParams demoFaulty" for u :: "(FS, unit) VB"
    using that demoFaulty_ready(2) by (simp add: round_good_def demoRound_def drain_good_def)
  then show ?thesis
    using failed_drain_blocks_writers [OF v(1) demoFaulty_ready(2,1), of "\<lambda>_. demoRound" 1000] v demoDisk_good
    by (simp add: maxPendingBytes_def)
qed

theorem failing_drains_end_wait_witness:
  "\<exists>e vb'. awaitBackpressure (fileBackend demoCfg) demoLru
     (\<lambda>i. demoRound\<lparr>ar_cas := (i \<noteq> 3), ar_drain := demoDrain\<lparr>do_syncOk := False\<rparr>\<rparr>) 11 demoFaulty =
     Some (Some (AwaitAborted maxDrainFailures e), vb')"
proof -
  let ?env = "\<lambda>i :: nat. demoRound\<lparr>ar_cas := (i \<noteq> 3), ar_drain := demoDrain\<lparr>do_syncOk := False\<rparr>\<rparr>"
  have "roundsWon ?env 0 11 = 10" by (simp add: roundsWon_def upt_rec)
  moreover have "unsynced_rounds ?env" by (simp add: unsynced_rounds_def demoRound_def)
  moreover have "maxPendingBytes demoFaulty < PendingBytes demoFaulty" "\<not> UseShardedWAL demoFaulty" "wal_cur (vb_WAL demoFaulty) \<noteq> None"
    by (simp_all add: demoFaulty_def demoWrites_def demoVB_def maxPendingBytes_def PendingBytes_def)
  ultimately show ?thesis
    using failing_drains_end_wait [of demoFaulty ?env 11 "fileBackend demoCfg" demoLru] by (simp add: maxDrainFailures_def)
qed

end
