(* ===== verification/Envelope.thy ===== *)
theory Envelope
  imports Crypto
begin

text \<open>
  The metadata envelope of \<open>crypto.go\<close> as its readers see it: \<open>splitEnvelope\<close> and \<open>StateBody\<close>, and the
  base64 and hexadecimal decoders they and the snapshot code use.  The JSON decoder is the standard
  library's; here it is a function from the text to the raw payload and the tag text, with what the code
  relies on as \<open>env_ok\<close>.
\<close>

section \<open>Base64\<close>

definition base64Val :: "u8 \<Rightarrow> nat option" where
  "base64Val c =
     (let n = unat c
      in if 65 \<le> n \<and> n \<le> 90 then Some (n - 65)
         else if 97 \<le> n \<and> n \<le> 122 then Some (n - 71)
         else if 48 \<le> n \<and> n \<le> 57 then Some (n + 4)
         else if n = 43 then Some 62 else if n = 47 then Some 63 else None)"

text \<open>The bytes of a quantum from its six-bit values.\<close>

definition quantum1 :: "nat \<Rightarrow> nat \<Rightarrow> u8" where "quantum1 x y = of_nat (x * 4 + y div 16)"
definition quantum2 :: "nat \<Rightarrow> nat \<Rightarrow> u8" where "quantum2 y z = of_nat (y mod 16 * 16 + z div 4)"
definition quantum3 :: "nat \<Rightarrow> nat \<Rightarrow> u8" where "quantum3 z w = of_nat (z mod 4 * 64 + w)"

fun base64Quanta :: "bytes \<Rightarrow> bytes option" where
  "base64Quanta [] = Some []"
| "base64Quanta (a # b # c # d # r) =
     (case (base64Val a, base64Val b) of
        (Some x, Some y) \<Rightarrow>
          if c = 61 then (if d = 61 \<and> r = [] then Some [quantum1 x y] else None)
          else (case base64Val c of
                  None \<Rightarrow> None
                | Some z \<Rightarrow>
                    if d = 61 then (if r = [] then Some [quantum1 x y, quantum2 y z] else None)
                    else (case base64Val d of
                            None \<Rightarrow> None
                          | Some w \<Rightarrow> map_option (\<lambda>bs. quantum1 x y # quantum2 y z #
                              quantum3 z w # bs) (base64Quanta r)))
      | _ \<Rightarrow> None)"
| "base64Quanta _ = None"

text \<open>The decoder skips line breaks.\<close>

definition base64Decode :: "bytes \<Rightarrow> bytes option" where
  "base64Decode text = base64Quanta (filter (\<lambda>c. c \<noteq> 10 \<and> c \<noteq> 13) text)"

lemma base64Char_val:
  assumes "n < 64"
  shows "unat (base64Char n) = (if n < 26 then 65 + n else if n < 52 then 97 + (n - 26)
     else if n < 62 then 48 + (n - 52) else if n = 62 then 43 else 47)"
  unfolding base64Char_def by (subst unat_of_nat) (use assms in simp)

lemma base64Val_char [simp]: "n < 64 \<Longrightarrow> base64Val (base64Char n) = Some n"
  by (auto simp: base64Val_def base64Char_val Let_def)

lemma base64Char_plain:
  assumes "n < 64"
  shows "base64Char n \<noteq> 61" "base64Char n \<noteq> 10" "base64Char n \<noteq> 13"
proof -
  have "unat (base64Char n) \<noteq> 61" "unat (base64Char n) \<noteq> 10" "unat (base64Char n) \<noteq> 13"
    using assms by (auto simp: base64Char_val)
  then show "base64Char n \<noteq> 61" "base64Char n \<noteq> 10" "base64Char n \<noteq> 13" by auto
qed

lemma base64_bounds [simp]:
  "unat (a :: u8) div 4 < 64" "unat a mod 4 * 16 + unat (b :: u8) div 16 < 64" "unat b mod 16 * 4 + unat (c :: u8) div 64 < 64"
  "unat c mod 64 < 64" "unat b mod 16 * 4 < 64" "unat a mod 4 * 16 < 64"
proof -
  have "unat a mod 4 < 4" "unat b mod 16 < 16" "unat b div 16 < 16" "unat c div 64 < 4" "unat a div 4 < 64"
    by (simp_all add: div_less_iff_less_mult)
  then show "unat a div 4 < 64" "unat a mod 4 * 16 + unat b div 16 < 64" "unat b mod 16 * 4 + unat c div 64 < 64"
    "unat c mod 64 < 64" "unat b mod 16 * 4 < 64" "unat a mod 4 * 16 < 64" by simp_all
qed

lemma base64_bytes:
  "quantum1 (unat a div 4) (unat a mod 4 * 16 + unat (b :: u8) div 16) = a"
  "quantum2 (unat a mod 4 * 16 + unat b div 16) (unat b mod 16 * 4 + unat (c :: u8) div 64) = b"
  "quantum3 (unat b mod 16 * 4 + unat c div 64) (unat c mod 64) = c"
  "quantum1 (unat a div 4) (unat a mod 4 * 16) = a"
  "quantum2 (unat a mod 4 * 16 + unat b div 16) (unat b mod 16 * 4) = b"
proof -
  have d: "unat a div 16 < 16" "unat b div 16 < 16" "unat c div 64 < 4"
    by (simp_all add: div_less_iff_less_mult)
  then have eq: "unat a div 4 * 4 + (unat a mod 4 * 16 + unat b div 16) div 16 = unat a"
    "(unat a mod 4 * 16 + unat b div 16) mod 16 * 16 + (unat b mod 16 * 4 + unat c div 64) div 4 = unat b"
    "(unat b mod 16 * 4 + unat c div 64) mod 4 * 64 + unat c mod 64 = unat c"
    "unat a div 4 * 4 + unat a mod 4 * 16 div 16 = unat a"
    "(unat a mod 4 * 16 + unat b div 16) mod 16 * 16 + unat b mod 16 * 4 div 4 = unat b"
    by (simp_all add: div_mult_mod_eq)
  have u: "of_nat (unat x) = x" for x :: u8 by simp
  show "quantum1 (unat a div 4) (unat a mod 4 * 16 + unat b div 16) = a"
    "quantum2 (unat a mod 4 * 16 + unat b div 16) (unat b mod 16 * 4 + unat c div 64) = b"
    "quantum3 (unat b mod 16 * 4 + unat c div 64) (unat c mod 64) = c"
    "quantum1 (unat a div 4) (unat a mod 4 * 16) = a"
    "quantum2 (unat a mod 4 * 16 + unat b div 16) (unat b mod 16 * 4) = b"
    unfolding quantum1_def quantum2_def quantum3_def by (simp_all only: eq u)
qed

lemma base64_decodes: "base64Decode (base64 bs) = Some bs"
proof -
  have "filter (\<lambda>c. c \<noteq> 10 \<and> c \<noteq> 13) (base64 bs) = base64 bs"
    by (induction bs rule: base64.induct) (simp_all add: base64Char_plain)
  moreover have "base64Quanta (base64 bs) = Some bs"
    by (induction bs rule: base64.induct) (simp_all add: base64Char_plain base64_bytes)
  ultimately show ?thesis by (simp add: base64Decode_def)
qed

section \<open>Hexadecimal text\<close>

definition hexDigit :: "nat \<Rightarrow> char" where
  "hexDigit n = (if n < 10 then char_of (48 + n) else char_of (87 + n))"

definition hexVal :: "char \<Rightarrow> nat option" where
  "hexVal c =
     (let n = of_char c :: nat
      in if 48 \<le> n \<and> n \<le> 57 then Some (n - 48) else if 97 \<le> n \<and> n \<le> 102 then Some (n - 87)
         else if 65 \<le> n \<and> n \<le> 70 then Some (n - 55) else None)"

definition hexEncode :: "bytes \<Rightarrow> string" where
  "hexEncode bs = concat (map (\<lambda>b. [hexDigit (unat b div 16), hexDigit (unat b mod 16)]) bs)"

fun hexDecode :: "string \<Rightarrow> bytes option" where
  "hexDecode [] = Some []"
| "hexDecode [c] = None"
| "hexDecode (a # b # r) =
     (case (hexVal a, hexVal b) of
        (Some x, Some y) \<Rightarrow> map_option (\<lambda>bs. of_nat (x * 16 + y) # bs) (hexDecode r)
      | _ \<Rightarrow> None)"

lemma hexVal_digit [simp]: "n < 16 \<Longrightarrow> hexVal (hexDigit n) = Some n"
  by (auto simp: hexVal_def hexDigit_def Let_def)

lemma hex_decodes [simp]: "hexDecode (hexEncode bs) = Some bs"
proof (induction bs)
  case (Cons b bs)
  have "unat b div 16 < 16" by (simp add: div_less_iff_less_mult)
  then show ?case using Cons by (simp add: hexEncode_def)
qed (simp add: hexEncode_def)

section \<open>The envelope\<close>

definition envelopeText :: "bytes \<Rightarrow> bytes \<Rightarrow> bytes" where
  "envelopeText payload tag =
     stringBytes (CHR 0x7B # CHR 0x22 # ''v'' @ CHR 0x22 # '':1,'' @ CHR 0x22 # ''payload'' @ CHR 0x22 # '':'') @
     payload @
     stringBytes ('','' @ CHR 0x22 # ''authtag'' @ CHR 0x22 # '':'' @ [CHR 0x22]) @
     tag @ stringBytes [CHR 0x22, CHR 0x7D]"

lemma sealMeta_text: "sealMeta a p d n = envelopeText p (base64 (metaTag a p d n))"
  by (simp add: sealMeta_def envelopeText_def)

text \<open>
  \<open>env\<close> decodes a document into the raw payload and the text of the tag; a missing member is empty.  It
  finds them again in an envelope around a JSON document with a tag of AES-GCM's length.
\<close>

type_synonym envDecoder = "bytes \<Rightarrow> (bytes \<times> bytes) option"

definition env_ok :: "(bytes \<Rightarrow> bool) \<Rightarrow> envDecoder \<Rightarrow> bool" where
  "env_ok json env \<longleftrightarrow> (\<forall>p t. json p \<and> length t = 16 \<longrightarrow> p \<noteq> [] \<and> env (envelopeText p (base64 t)) = Some (p, base64 t))"

datatype EnvelopeError =
    ErrEnvelopeParse
  | ErrEnvelopeMissing
  | ErrEnvelopeTag

definition splitEnvelope :: "envDecoder \<Rightarrow> bytes \<Rightarrow> EnvelopeError + bytes \<times> bytes" where
  "splitEnvelope env blob =
     (case env blob of
        None \<Rightarrow> Inl ErrEnvelopeParse
      | Some (payload, authTag) \<Rightarrow>
          if payload = [] \<or> authTag = [] then Inl ErrEnvelopeMissing
          else (case base64Decode authTag of None \<Rightarrow> Inl ErrEnvelopeTag | Some tag \<Rightarrow> Inr (payload, tag)))"

definition StateBody :: "envDecoder \<Rightarrow> bytes \<Rightarrow> bytes" where
  "StateBody env raw =
     (case env raw of
        None \<Rightarrow> raw
      | Some (payload, authTag) \<Rightarrow> if payload \<noteq> [] \<and> authTag \<noteq> [] then payload else raw)"

lemma base64_eq_Nil [simp]: "base64 bs = [] \<longleftrightarrow> bs = []"
  by (cases bs rule: base64.cases) simp_all

lemma envelope_opens:
  assumes "env_ok json env" "json p" "aead_ok a"
  shows "splitEnvelope env (sealMeta a p d n) = Inr (p, metaTag a p d n)"
    "StateBody env (sealMeta a p d n) = p" "verifyMeta a p (metaTag a p d n) d n = None"
proof -
  have len: "length (metaTag a p d n) = 16" using aead_okD(2) [OF assms(3)] by (simp add: metaTag_def)
  then have "metaTag a p d n \<noteq> []" by auto
  with len show "splitEnvelope env (sealMeta a p d n) = Inr (p, metaTag a p d n)" "StateBody env (sealMeta a p d n) = p"
    using assms(1,2) by (simp_all add: env_ok_def splitEnvelope_def StateBody_def sealMeta_text base64_decodes)
  show "verifyMeta a p (metaTag a p d n) d n = None"
    using len aead_okD(1) [OF assms(3)] by (simp add: verifyMeta_def metaTag_def aead_Overhead_def)
qed

text \<open>An instance: the payload ends twelve bytes and a sixteen-byte tag's text before the closing bytes.\<close>

definition demoEnv :: envDecoder where
  "demoEnv blob =
     (let n = length blob
      in if take 17 blob \<noteq> take 17 (envelopeText [] []) \<or> n < 55 then None
         else Some (take (n - 55) (drop 17 blob), take 24 (drop (n - 26) blob)))"

lemma base64_length: "length (base64 t) = 4 * ((length t + 2) div 3)"
proof (induction t rule: base64.induct)
  case (1 a b c r)
  have "(5 + length r) div 3 = Suc ((2 + length r) div 3)" by presburger
  then show ?case using 1 by simp
qed simp_all

lemma demoEnv_ok: "env_ok (\<lambda>p. p \<noteq> []) demoEnv"
proof -
  have "demoEnv (envelopeText p (base64 t)) = Some (p, base64 t)" if "length t = 16" for p t :: bytes
  proof -
    let ?pre = "take 17 (envelopeText [] [])" and ?suf = "take 12 (drop 17 (envelopeText [] []))"
    have parts: "envelopeText p (base64 t) = (?pre @ p @ ?suf) @ base64 t @ [34, 125]" and len: "length ?pre = 17" "length ?suf = 12"
      by (simp_all add: envelopeText_def stringBytes_def)
    have n: "length (envelopeText p (base64 t)) = length p + 55" "length (base64 t) = 24"
      unfolding parts using that len by (simp_all add: base64_length)
    have "take 24 (drop (length (?pre @ p @ ?suf)) ((?pre @ p @ ?suf) @ base64 t @ [34, 125])) = base64 t"
      using n(2) by (simp only: append_eq_conv_conj [THEN iffD1, OF refl, THEN conjunct2] drop_append) simp
    moreover have "take 17 (envelopeText p (base64 t)) = ?pre" "take (length p) (drop 17 (envelopeText p (base64 t))) = p"
      unfolding parts using len by simp_all
    ultimately show ?thesis using n len parts by (simp add: demoEnv_def Let_def)
  qed
  then show ?thesis by (simp add: env_ok_def)
qed

end
