(* ===== verification/Snapshot_Map.thy ===== *)
theory Snapshot_Map
  imports Envelope Load
begin

text \<open>
  Reading snapshots (\<open>snapshot.go\<close>): the frozen block map with its flat section of inherited layers, its
  authenticated metadata, and opening a volume as a clone.  The JSON codec of the metadata is a parameter.
\<close>

section \<open>Metadata\<close>

record SnapshotState =
  ss_SnapshotID :: string
  ss_SourceVolumeName :: string
  ss_SeqNum :: u64
  ss_ObjectNum :: u64
  ss_BlockSize :: u32
  ss_ObjBlockSize :: u32
  ss_BlockCount :: u64
  ss_CreatedAt :: int
  ss_SourceVolumeUUID :: string
  ss_SourceVolumeNameHash :: string
  ss_StateSeqNum :: u64
  ss_HasFlatSection :: bool

record InheritedLayer =
  il_Blocks :: BlocksToObject
  il_SourceVolumeName :: string
  il_SourceVolumeUUID :: bytes
  il_SourceVolumeNameHash :: bytes

record SnapshotIdentity =
  si_SourceVolumeName :: string
  si_SourceVolumeUUID :: bytes
  si_SourceVolumeNameHash :: bytes
  si_InheritedLayers :: "InheritedLayer list"

text \<open>\<open>json.Marshal\<close> and \<open>json.Unmarshal\<close> for one type of document.\<close>

record 'a JsonCodec =
  js_Marshal :: "'a \<Rightarrow> bytes"
  js_Unmarshal :: "bytes \<Rightarrow> 'a option"

definition codec_ok :: "(bytes \<Rightarrow> bool) \<Rightarrow> 'a JsonCodec \<Rightarrow> bool" where
  "codec_ok json J \<longleftrightarrow> (\<forall>x. json (js_Marshal J x) \<and> js_Unmarshal J (js_Marshal J x) = Some x)"

section \<open>The flat section\<close>

definition flatSectionMagic :: bytes where
  "flatSectionMagic = [0x46, 0x4C, 0x41, 0x54]"

record sourceGroup =
  sg_name :: string
  sg_uuid :: bytes
  sg_nameHash :: bytes
  sg_blocks :: "BlockLookup list"

datatype FlatError =
    ErrTooManySources
  | ErrSourceName
  | ErrSourceBlocks
  | ErrFlatShort
  | ErrFlatMagic
  | ErrFlatNameLength
  | ErrFlatName
  | ErrFlatIdentity
  | ErrFlatTruncated
  | ErrFlatRecord CheckpointError

fun collectGroup :: "u64 list \<Rightarrow> (u64, BlockLookup) gomap \<Rightarrow> BlockLookup list \<times> u64 list" where
  "collectGroup seen [] = ([], seen)"
| "collectGroup seen ((k, v) # m) =
     (if k \<in> set seen then collectGroup seen m
      else case collectGroup (k # seen) m of (bs, seen') \<Rightarrow> (v # bs, seen'))"

fun collectSources :: "u64 list \<Rightarrow> snapshotAncestor list \<Rightarrow> sourceGroup list" where
  "collectSources seen [] = []"
| "collectSources seen (a # as) =
     (case collectGroup seen (bto_BlockLookup (anc_blocks a)) of
        (bs, seen') \<Rightarrow>
          \<lparr>sg_name = anc_sourceVolumeName a, sg_uuid = anc_sourceVolumeUUID a, sg_nameHash = anc_sourceVolumeNameHash a,
           sg_blocks = bs\<rparr> # collectSources seen' as)"

definition ownBlocks :: "(u64, BlockLookup) gomap \<Rightarrow> u64 list" where
  "ownBlocks m = concat (map (\<lambda>p. map (\<lambda>i. bl_StartBlock (snd p) + of_nat i) [0..<unat (bl_NumBlocks (snd p))]) m)"

definition encodeSource :: "sourceGroup \<Rightarrow> FlatError + bytes" where
  "encodeSource src =
     (let nameBytes = stringBytes (sg_name src)
      in if 65535 < length nameBytes then Inl ErrSourceName
         else if 4294967295 < length (sg_blocks src) then Inl ErrSourceBlocks
         else Inr (PutUint16 (of_nat (length nameBytes)) @ nameBytes @ sg_uuid src @ sg_nameHash src @
                   PutUint32 (of_nat (length (sg_blocks src))) @ concat (map writeBlockWalChunk (sg_blocks src))))"

fun encodeSources :: "sourceGroup list \<Rightarrow> FlatError + bytes" where
  "encodeSources [] = Inr []"
| "encodeSources (src # srcs) =
     (case encodeSource src of
        Inl e \<Rightarrow> Inl e
      | Inr b \<Rightarrow> (case encodeSources srcs of Inl e \<Rightarrow> Inl e | Inr r \<Rightarrow> Inr (b @ r)))"

text \<open>The layers in priority order: the base map first, then the deeper ancestors.\<close>

definition flatSources :: "BlocksToObject \<Rightarrow> ('s, 'l) VB \<Rightarrow> sourceGroup list" where
  "flatSources base vb =
     collectSources (ownBlocks (bto_BlockLookup (vb_BlocksToObject vb)))
       (\<lparr>anc_blocks = base, anc_sourceVolumeName = SourceVolumeName vb, anc_sourceVolumeUUID = SourceVolumeUUID vb,
         anc_sourceVolumeNameHash = sourceVolumeNameHash vb\<rparr> # ancestors vb)"

definition buildFlatSection :: "BlocksToObject \<Rightarrow> ('s, 'l) VB \<Rightarrow> FlatError + bytes" where
  "buildFlatSection base vb =
     (let sources = flatSources base vb
      in if 255 < length sources then Inl ErrTooManySources
         else case encodeSources sources of
                Inl e \<Rightarrow> Inl e
              | Inr b \<Rightarrow> Inr (flatSectionMagic @ [1, of_nat (length sources)] @ b))"

fun parseFlatBlocks :: "nat \<Rightarrow> bytes \<Rightarrow> FlatError + (BlockLookup list \<times> bytes)" where
  "parseFlatBlocks 0 data = Inr ([], data)"
| "parseFlatBlocks (Suc n) data =
     (if length data < blockWalChunkSize then Inl ErrFlatTruncated
      else case readBlockWalChunk (take blockWalChunkSize data) of
             Inl e \<Rightarrow> Inl (ErrFlatRecord e)
           | Inr block \<Rightarrow>
               (case parseFlatBlocks n (drop blockWalChunkSize data) of
                  Inl e \<Rightarrow> Inl e
                | Inr (bs, rest) \<Rightarrow> Inr (block # bs, rest)))"

definition bytesString :: "bytes \<Rightarrow> string" where
  "bytesString bs = map (\<lambda>b. char_of (unat b)) bs"

definition parseFlatSource :: "bytes \<Rightarrow> FlatError + (InheritedLayer \<times> bytes)" where
  "parseFlatSource data =
     (if length data < 2 then Inl ErrFlatNameLength
      else let nameLen = unat (GetUint16 (take 2 data)); data = drop 2 data
           in if length data < nameLen then Inl ErrFlatName
              else let name = bytesString (take nameLen data); data = drop nameLen data
                   in if length data < 40 then Inl ErrFlatIdentity
                      else case parseFlatBlocks (unat (GetUint32 (slice 36 40 data))) (drop 40 data) of
                             Inl e \<Rightarrow> Inl e
                           | Inr (bs, rest) \<Rightarrow>
                               Inr (\<lparr>il_Blocks = \<lparr>bto_dirty = False, bto_BlockLookup = flatMap bs\<rparr>,
                                     il_SourceVolumeName = name, il_SourceVolumeUUID = take 4 data,
                                     il_SourceVolumeNameHash = slice 4 36 data\<rparr>, rest))"

fun parseFlatSources :: "nat \<Rightarrow> bytes \<Rightarrow> FlatError + InheritedLayer list" where
  "parseFlatSources 0 data = Inr []"
| "parseFlatSources (Suc n) data =
     (case parseFlatSource data of
        Inl e \<Rightarrow> Inl e
      | Inr (layer, rest) \<Rightarrow>
          (case parseFlatSources n rest of Inl e \<Rightarrow> Inl e | Inr layers \<Rightarrow> Inr (layer # layers)))"

definition parseFlatSection :: "bytes \<Rightarrow> FlatError + InheritedLayer list" where
  "parseFlatSection data =
     (if length data < 6 then Inl ErrFlatShort
      else if take 4 data \<noteq> flatSectionMagic then Inl ErrFlatMagic
      else parseFlatSources (unat (data ! 5)) (drop 6 data))"

section \<open>Loading a snapshot\<close>

datatype SnapError =
    ErrSnapConfigRead BackendError
  | ErrSnapEnvelope EnvelopeError
  | ErrSnapPeek
  | ErrSnapUUID
  | ErrSnapNameHash
  | ErrSnapTag MetaError
  | ErrSnapParse
  | ErrSnapCheckpointRead BackendError
  | ErrSnapHeader
  | ErrSnapMagic
  | ErrSnapVersion
  | ErrSnapBlockCount
  | ErrSnapTrailing
  | ErrSnapRecord CheckpointError
  | ErrSnapMismatch
  | ErrSnapFlat FlatError
  | ErrSnapSourceName
  | PanicSlice

text \<open>The authenticated payload of the configuration object.\<close>

definition openSnapshotConfig ::
    "envDecoder \<Rightarrow> SnapshotState JsonCodec \<Rightarrow> string \<Rightarrow> bytes \<Rightarrow> ('s, 'l) VB \<Rightarrow> SnapError + bytes" where
  "openSnapshotConfig env J snapshotID configData vb =
     (if \<not> EncryptionEnabled vb then Inr configData
      else case splitEnvelope env configData of
             Inl e \<Rightarrow> Inl (ErrSnapEnvelope e)
           | Inr (payload, tag) \<Rightarrow>
               (case js_Unmarshal J payload of
                  None \<Rightarrow> Inl ErrSnapPeek
                | Some peek \<Rightarrow>
                    (case hexDecode (ss_SourceVolumeUUID peek) of
                       None \<Rightarrow> Inl ErrSnapUUID
                     | Some uuid \<Rightarrow>
                         if length uuid \<noteq> 4 then Inl ErrSnapUUID
                         else (case hexDecode (ss_SourceVolumeNameHash peek) of
                                 None \<Rightarrow> Inl ErrSnapNameHash
                               | Some nameHash \<Rightarrow>
                                   if length nameHash \<noteq> 32 then Inl ErrSnapNameHash
                                   else (case verifyMeta (vb_aead vb) payload tag
                                            (makeMetaAAD nameHash (''snap:'' @ snapshotID) (ss_StateSeqNum peek))
                                            (makeNonce (ss_StateSeqNum peek) uuid DomainSnapshotMeta) of
                                           Some e \<Rightarrow> Inl (ErrSnapTag e)
                                         | None \<Rightarrow> Inr payload)))))"

definition hexField :: "nat \<Rightarrow> string \<Rightarrow> bytes option" where
  "hexField n s = (if s = [] then Some (replicate n 0)
     else case hexDecode s of None \<Rightarrow> None | Some bs \<Rightarrow> if length bs = n then Some bs else None)"

text \<open>
  The entries of the own section.  A slice past the end of the checkpoint panics: the file backend reads
  the whole object into a slice without spare capacity.
\<close>

fun readOwnEntries :: "nat \<Rightarrow> bytes \<Rightarrow> SnapError + BlockLookup list" where
  "readOwnEntries 0 data = Inr []"
| "readOwnEntries (Suc n) data =
     (if length data < blockWalChunkSize then Inl PanicSlice
      else case readBlockWalChunk (take blockWalChunkSize data) of
             Inl e \<Rightarrow> Inl (ErrSnapRecord e)
           | Inr block \<Rightarrow>
               (case readOwnEntries n (drop blockWalChunkSize data) of Inl e \<Rightarrow> Inl e | Inr bs \<Rightarrow> Inr (block # bs)))"

definition parseSnapshotCheckpoint ::
    "SnapshotState \<Rightarrow> u16 \<Rightarrow> bytes \<Rightarrow> SnapError + ((u64, BlockLookup) gomap \<times> InheritedLayer list)" where
  "parseSnapshotCheckpoint snap version checkpoint =
     (if length checkpoint < blockCheckpointHeaderSize then Inl ErrSnapHeader
      else if take 4 checkpoint \<noteq> blockToObjectWALMagic then Inl ErrSnapMagic
      else if GetUint16 (slice 4 6 checkpoint) \<noteq> version then Inl ErrSnapVersion
      else if ss_HasFlatSection snap \<and> 271275648142787523 < unat (ss_BlockCount snap) then Inl ErrSnapBlockCount
      else let dataSize = length checkpoint - blockCheckpointHeaderSize;
               ownBlocksSize = (if ss_HasFlatSection snap then unat (ss_BlockCount snap) * blockWalChunkSize else dataSize)
           in if ownBlocksSize mod blockWalChunkSize \<noteq> 0 then Inl ErrSnapTrailing
              else case readOwnEntries (ownBlocksSize div blockWalChunkSize) (drop blockCheckpointHeaderSize checkpoint) of
                     Inl e \<Rightarrow> Inl e
                   | Inr bs \<Rightarrow>
                       let baseMap = flatMap bs
                       in if 0 < ss_BlockCount snap \<and> length baseMap \<noteq> unat (ss_BlockCount snap) then Inl ErrSnapMismatch
                          else if \<not> ss_HasFlatSection snap then Inr (baseMap, [])
                          else (case parseFlatSection (drop (blockCheckpointHeaderSize + ownBlocksSize) checkpoint) of
                                  Inl e \<Rightarrow> Inl (ErrSnapFlat e)
                                | Inr layers \<Rightarrow> Inr (baseMap, layers)))"

definition LoadSnapshotBlockMap ::
    "'s Backend \<Rightarrow> envDecoder \<Rightarrow> SnapshotState JsonCodec \<Rightarrow> string \<Rightarrow> ('s, 'l) VB \<Rightarrow> SnapError + (BlocksToObject \<times> SnapshotIdentity)" where
  "LoadSnapshotBlockMap B env J snapshotID vb =
     (case be_ReadFrom B (vb_Backend vb) snapshotID FileTypeConfig 0 0 0 of
        Inl e \<Rightarrow> Inl (ErrSnapConfigRead e)
      | Inr configData \<Rightarrow>
          (case openSnapshotConfig env J snapshotID configData vb of
             Inl e \<Rightarrow> Inl e
           | Inr payload \<Rightarrow>
               (case js_Unmarshal J payload of
                  None \<Rightarrow> Inl ErrSnapParse
                | Some snap \<Rightarrow>
                    (case hexField 4 (ss_SourceVolumeUUID snap) of
                       None \<Rightarrow> Inl ErrSnapUUID
                     | Some uuid \<Rightarrow>
                         (case hexField 32 (ss_SourceVolumeNameHash snap) of
                            None \<Rightarrow> Inl ErrSnapNameHash
                          | Some nameHash \<Rightarrow>
                              (case be_ReadFrom B (vb_Backend vb) snapshotID FileTypeBlockCheckpoint 0 0 0 of
                                 Inl e \<Rightarrow> Inl (ErrSnapCheckpointRead e)
                               | Inr checkpoint \<Rightarrow>
                                   (case parseSnapshotCheckpoint snap (Version vb) checkpoint of
                                      Inl e \<Rightarrow> Inl e
                                    | Inr (baseMap, layers) \<Rightarrow>
                                        Inr (\<lparr>bto_dirty = False, bto_BlockLookup = baseMap\<rparr>,
                                             \<lparr>si_SourceVolumeName = ss_SourceVolumeName snap, si_SourceVolumeUUID = uuid,
                                              si_SourceVolumeNameHash = nameHash, si_InheritedLayers = layers\<rparr>))))))))"

definition layerAncestor :: "InheritedLayer \<Rightarrow> snapshotAncestor" where
  "layerAncestor layer =
     \<lparr>anc_blocks = il_Blocks layer, anc_sourceVolumeName = il_SourceVolumeName layer,
      anc_sourceVolumeUUID = il_SourceVolumeUUID layer, anc_sourceVolumeNameHash = il_SourceVolumeNameHash layer\<rparr>"

definition OpenFromSnapshot ::
    "'s Backend \<Rightarrow> envDecoder \<Rightarrow> SnapshotState JsonCodec \<Rightarrow> string \<Rightarrow> ('s, 'l) VB \<Rightarrow> SnapError option \<times> ('s, 'l) VB" where
  "OpenFromSnapshot B env J snapshotID vb =
     (case LoadSnapshotBlockMap B env J snapshotID vb of
        Inl e \<Rightarrow> (Some e, vb)
      | Inr (baseMap, ident) \<Rightarrow>
          if si_SourceVolumeName ident = [] then (Some ErrSnapSourceName, vb)
          else (None, vb\<lparr>BaseBlockMap := Some baseMap, SourceVolumeName := si_SourceVolumeName ident, SnapshotID := snapshotID,
                  SourceVolumeUUID := si_SourceVolumeUUID ident, sourceVolumeNameHash := si_SourceVolumeNameHash ident,
                  ancestors := map layerAncestor (si_InheritedLayers ident)\<rparr>))"

text \<open>Looking a block up below the volume's own map: the base map first, then the ancestors in order.\<close>

definition LookupBaseBlockToObject :: "u64 \<Rightarrow> ('s, 'l) VB \<Rightarrow> (u64 \<times> u32 \<times> u64) option" where
  "LookupBaseBlockToObject block vb =
     (case BaseBlockMap vb of
        None \<Rightarrow> None
      | Some base \<Rightarrow>
          map_option (\<lambda>l. (bl_ObjectID l, bl_ObjectOffset l, bl_SeqNum l)) (map_of (bto_BlockLookup base) block))"

section \<open>The flat section keeps every inherited block\<close>

text \<open>Where a stack of layers holds a block: the identity of the first layer that has it, and the location.\<close>

definition locate :: "snapshotAncestor list \<Rightarrow> u64 \<Rightarrow> (string \<times> bytes \<times> bytes \<times> u64 \<times> u32 \<times> u64) option" where
  "locate as b =
     (case find (\<lambda>a. map_of (bto_BlockLookup (anc_blocks a)) b \<noteq> None) as of
        None \<Rightarrow> None
      | Some a \<Rightarrow> map_option (\<lambda>l. (anc_sourceVolumeName a, anc_sourceVolumeUUID a, anc_sourceVolumeNameHash a,
          bl_ObjectID l, bl_ObjectOffset l, bl_SeqNum l)) (map_of (bto_BlockLookup (anc_blocks a)) b))"

definition layer_ok :: "snapshotAncestor \<Rightarrow> bool" where
  "layer_ok a \<longleftrightarrow> length (anc_sourceVolumeUUID a) = 4 \<and> length (anc_sourceVolumeNameHash a) = 32 \<and>
     gomap_ok (bto_BlockLookup (anc_blocks a)) \<and> (\<forall>p \<in> set (bto_BlockLookup (anc_blocks a)). bl_StartBlock (snd p) = fst p)"

definition baseLayer :: "BlocksToObject \<Rightarrow> ('s, 'l) VB \<Rightarrow> snapshotAncestor" where
  "baseLayer base vb = \<lparr>anc_blocks = base, anc_sourceVolumeName = SourceVolumeName vb, anc_sourceVolumeUUID = SourceVolumeUUID vb,
     anc_sourceVolumeNameHash = sourceVolumeNameHash vb\<rparr>"

abbreviation stripSeqs :: "BlockLookup \<Rightarrow> BlockLookup" where
  "stripSeqs l \<equiv> l\<lparr>bl_SeqNums := []\<rparr>"

definition groupLayer :: "sourceGroup \<Rightarrow> InheritedLayer" where
  "groupLayer g = \<lparr>il_Blocks = \<lparr>bto_dirty = False, bto_BlockLookup = flatMap (map stripSeqs (sg_blocks g))\<rparr>,
     il_SourceVolumeName = sg_name g, il_SourceVolumeUUID = sg_uuid g, il_SourceVolumeNameHash = sg_nameHash g\<rparr>"

lemma bytesString_stringBytes [simp]: "bytesString (stringBytes s) = s"
proof -
  have "unat (of_nat (of_char c) :: u8) = of_char c" for c :: char
    by (subst unat_of_nat) (use nat_of_char_less_256 [of c] in simp)
  then show ?thesis by (simp add: bytesString_def stringBytes_def o_def)
qed

lemma parse_flat_blocks:
  "parseFlatBlocks (length bs) (concat (map writeBlockWalChunk bs) @ rest) = Inr (map stripSeqs bs, rest)"
  by (induction bs) (simp_all add: blockWalChunkSize_def readBlockWalChunk_def decode_write)

lemma parse_flat_source:
  assumes "encodeSource g = Inr b" "length (sg_uuid g) = 4" "length (sg_nameHash g) = 32"
  shows "parseFlatSource (b @ rest) = Inr (groupLayer g, rest)"
proof -
  let ?n = "stringBytes (sg_name g)"
  have n: "length ?n \<le> 65535" "length (sg_blocks g) \<le> 4294967295"
    and b: "b = PutUint16 (of_nat (length ?n)) @ ?n @ sg_uuid g @ sg_nameHash g @ PutUint32 (of_nat (length (sg_blocks g))) @
      concat (map writeBlockWalChunk (sg_blocks g))"
    using assms(1) by (auto simp: encodeSource_def Let_def split: if_splits)
  have len: "unat (of_nat (length ?n) :: u16) = length ?n" "unat (of_nat (length (sg_blocks g)) :: u32) = length (sg_blocks g)"
    using n by (simp_all add: unat_of_nat_u16 unat_of_nat_u32)
  show ?thesis using assms(2,3) parse_flat_blocks [of "sg_blocks g" rest]
    by (simp add: b parseFlatSource_def Let_def len slice_def groupLayer_def)
qed

lemma parse_flat_sources:
  assumes "encodeSources gs = Inr b" "\<forall>g \<in> set gs. length (sg_uuid g) = 4 \<and> length (sg_nameHash g) = 32"
  shows "parseFlatSources (length gs) b = Inr (map groupLayer gs)"
  using assms
proof (induction gs arbitrary: b)
  case (Cons g gs)
  obtain b1 b2 where b: "encodeSource g = Inr b1" "encodeSources gs = Inr b2" "b = b1 @ b2"
    using Cons.prems(1) by (auto split: sum.splits)
  then show ?case using Cons parse_flat_source [OF b(1)] by simp
qed simp

lemma collectGroup_spec:
  assumes "collectGroup seen m = (bs, seen')" "gomap_ok m" "\<forall>p \<in> set m. bl_StartBlock (snd p) = fst p"
  shows "set seen' = set seen \<union> fst ` set m"
    "map_of (flatMap (map stripSeqs bs)) b = (if b \<in> set seen then None else map_option stripSeqs (map_of m b))"
proof -
  have "set seen' = set seen \<union> fst ` set m \<and> bs = map snd (filter (\<lambda>p. fst p \<notin> set seen) m)"
    using assms(1,2)
  proof (induction m arbitrary: seen bs)
    case (Cons p m)
    obtain k v where p: "p = (k, v)" by fastforce
    have k: "k \<notin> fst ` set m" "gomap_ok m" using Cons.prems(2) p by auto
    show ?case
    proof (cases "k \<in> set seen")
      case True
      then show ?thesis using Cons p k by (auto simp: insert_absorb)
    next
      case False
      obtain bs1 where c: "collectGroup (k # seen) m = (bs1, seen')" "bs = v # bs1"
        using Cons.prems(1) p False by (auto split: prod.splits)
      have "filter (\<lambda>p. fst p \<notin> set (k # seen)) m = filter (\<lambda>p. fst p \<notin> set seen) m"
        using k(1) by (intro filter_cong) auto
      then show ?thesis using Cons.IH [OF c(1) k(2)] c(2) False by (auto simp: p)
    qed
  qed simp
  then have s: "set seen' = set seen \<union> fst ` set m" and bs: "bs = map snd (filter (\<lambda>p. fst p \<notin> set seen) m)" by blast+
  show "set seen' = set seen \<union> fst ` set m" by (rule s)
  have mem: "r \<in> set (map stripSeqs bs) \<and> bl_StartBlock r = b \<longleftrightarrow> b \<notin> set seen \<and> map_option stripSeqs (map_of m b) = Some r" for r
  proof -
    have "r \<in> set (map stripSeqs bs) \<and> bl_StartBlock r = b \<longleftrightarrow>
        (\<exists>p \<in> set m. fst p \<notin> set seen \<and> r = stripSeqs (snd p) \<and> fst p = b)"
    proof
      assume a: "r \<in> set (map stripSeqs bs) \<and> bl_StartBlock r = b"
      then obtain p where "p \<in> set m" "fst p \<notin> set seen" "r = stripSeqs (snd p)" by (auto simp: bs)
      moreover from this have "fst p = b" using a assms(3) by auto
      ultimately show "\<exists>p \<in> set m. fst p \<notin> set seen \<and> r = stripSeqs (snd p) \<and> fst p = b" by blast
    qed (use assms(3) in \<open>auto simp: bs\<close>)
    also have "\<dots> \<longleftrightarrow> b \<notin> set seen \<and> (\<exists>v. (b, v) \<in> set m \<and> r = stripSeqs v)" by force
    also have "\<dots> \<longleftrightarrow> b \<notin> set seen \<and> map_option stripSeqs (map_of m b) = Some r"
      by (auto simp: gomap_in_iff [OF assms(2)])
    finally show ?thesis .
  qed
  show "map_of (flatMap (map stripSeqs bs)) b = (if b \<in> set seen then None else map_option stripSeqs (map_of m b))"
  proof (cases "map_of (flatMap (map stripSeqs bs)) b")
    case None
    then have "\<forall>r \<in> set (map stripSeqs bs). bl_StartBlock r \<noteq> b" using flatMap_get by blast
    then have "\<not> (b \<notin> set seen \<and> map_option stripSeqs (map_of m b) = Some r)" for r using mem by blast
    then show ?thesis using None by (cases "map_of m b") auto
  next
    case (Some r)
    then have "r \<in> set (map stripSeqs bs) \<and> bl_StartBlock r = b" using flatMap_get by blast
    then have "b \<notin> set seen" "map_option stripSeqs (map_of m b) = Some r" using mem by blast+
    then show ?thesis using Some by argo
  qed
qed

lemma locate_Cons:
  "locate (a # as) b = (case map_of (bto_BlockLookup (anc_blocks a)) b of
     None \<Rightarrow> locate as b
   | Some l \<Rightarrow> Some (anc_sourceVolumeName a, anc_sourceVolumeUUID a, anc_sourceVolumeNameHash a, bl_ObjectID l, bl_ObjectOffset l, bl_SeqNum l))"
  by (simp add: locate_def split: option.split)

lemma locate_collected:
  assumes "\<forall>a \<in> set as. layer_ok a"
  shows "locate (map (layerAncestor \<circ> groupLayer) (collectSources seen as)) b = (if b \<in> set seen then None else locate as b)"
  using assms
proof (induction as arbitrary: seen)
  case Nil
  then show ?case by (simp add: locate_def)
next
  case (Cons a as)
  let ?m = "bto_BlockLookup (anc_blocks a)"
  obtain bs seen' where c: "collectGroup seen ?m = (bs, seen')" by fastforce
  have ok: "gomap_ok ?m" "\<forall>p \<in> set ?m. bl_StartBlock (snd p) = fst p" using Cons.prems by (simp_all add: layer_ok_def)
  note spec = collectGroup_spec [OF c ok]
  have "b \<in> set seen' \<longleftrightarrow> b \<in> set seen \<or> map_of ?m b \<noteq> None" using spec(1) by (auto simp: map_of_eq_None_iff)
  then show ?case using Cons spec(2) [of b] c
    by (auto simp: locate_Cons layerAncestor_def groupLayer_def split: option.splits)
qed

text \<open>
  C36. A snapshot of a clone is self-contained: the flat section built from the base map and the ancestor
  layers parses back, and the parsed layers resolve every block that is not in the volume's own map to
  the same source, identity and location as the layers did.\<close>

theorem flat_section_roundtrip:
  assumes "buildFlatSection base vb = Inr data" "\<forall>a \<in> set (baseLayer base vb # ancestors vb). layer_ok a"
  shows "\<exists>layers. parseFlatSection data = Inr layers \<and>
    (\<forall>b. locate (map layerAncestor layers) b =
       (if b \<in> set (ownBlocks (bto_BlockLookup (vb_BlocksToObject vb))) then None else locate (baseLayer base vb # ancestors vb) b))"
proof -
  let ?gs = "flatSources base vb" and ?own = "ownBlocks (bto_BlockLookup (vb_BlocksToObject vb))"
  obtain b where b: "encodeSources ?gs = Inr b" "data = flatSectionMagic @ [1, of_nat (length ?gs)] @ b" and n: "length ?gs \<le> 255"
    using assms(1) by (auto simp: buildFlatSection_def Let_def split: if_splits sum.splits)
  have gs: "?gs = collectSources ?own (baseLayer base vb # ancestors vb)" by (simp add: flatSources_def baseLayer_def)
  have "\<forall>g \<in> set (collectSources seen as). length (sg_uuid g) = 4 \<and> length (sg_nameHash g) = 32"
    if "\<forall>a \<in> set as. layer_ok a" for seen as
    using that by (induction seen as rule: collectSources.induct) (auto simp: layer_ok_def split: prod.splits)
  then have ids: "\<forall>g \<in> set ?gs. length (sg_uuid g) = 4 \<and> length (sg_nameHash g) = 32" unfolding gs using assms(2) by blast
  have "unat (of_nat (length ?gs) :: u8) = length ?gs" using n by (subst unat_of_nat) simp
  then have "parseFlatSection data = Inr (map groupLayer ?gs)"
    using parse_flat_sources [OF b(1) ids] by (simp add: parseFlatSection_def b(2) flatSectionMagic_def)
  moreover have "locate (map layerAncestor (map groupLayer ?gs)) b =
      (if b \<in> set ?own then None else locate (baseLayer base vb # ancestors vb) b)" for b
    using locate_collected [OF assms(2), of ?own b] unfolding gs by (simp add: o_def)
  ultimately show ?thesis by blast
qed

lemma readOwn_short:
  "\<lbrakk>length bs < n; length tail < 34\<rbrakk> \<Longrightarrow> readOwnEntries n (concat (map writeBlockWalChunk bs) @ tail) = Inl PanicSlice"
proof (induction bs arbitrary: n)
  case Nil
  then show ?case by (cases n) (simp_all add: blockWalChunkSize_def)
next
  case (Cons b bs)
  then show ?case by (cases n) (simp_all add: blockWalChunkSize_def readBlockWalChunk_def decode_write)
qed

lemma cut_entries:
  "k < 34 * length bs \<Longrightarrow> \<exists>cut tail. take k (concat (map writeBlockWalChunk bs) @ rest) = concat (map writeBlockWalChunk cut) @ tail \<and>
     length cut < length bs \<and> length tail < 34"
proof (induction bs arbitrary: k)
  case (Cons b bs)
  show ?case
  proof (cases "k < 34")
    case True
    then show ?thesis by (intro exI [of _ "[]"] exI [of _ "take k (concat (map writeBlockWalChunk (b # bs)) @ rest)"]) simp
  next
    case False
    then have "k - 34 < 34 * length bs" using Cons.prems by simp
    then obtain cut tail where "take (k - 34) (concat (map writeBlockWalChunk bs) @ rest) = concat (map writeBlockWalChunk cut) @ tail"
      "length cut < length bs" "length tail < 34" using Cons.IH by blast
    then show ?thesis using False by (intro exI [of _ "b # cut"] exI [of _ tail]) simp
  qed
qed simp

text \<open>
  C37. A truncated checkpoint of a clone snapshot is not refused.  Take the checkpoint of a flat snapshot,
  its header, one entry for each block that the metadata counts and any flat section, and cut it anywhere
  among the entries: reading the entries runs past the end of the data, which in Go is a run-time panic
  for a buffer without spare capacity, as the file backend returns.\<close>

theorem short_flat_checkpoint_panics:
  assumes "ss_HasFlatSection snap" "unat (ss_BlockCount snap) = length bs" "length bs \<le> 271275648142787523" "k < 34 * length bs"
  shows "parseSnapshotCheckpoint snap version
     (BlockToObjectWALHeader version now @ take k (concat (map writeBlockWalChunk bs) @ flat)) = Inl PanicSlice"
proof -
  obtain cut tail where cut: "take k (concat (map writeBlockWalChunk bs) @ flat) = concat (map writeBlockWalChunk cut) @ tail"
    "length cut < length bs" "length tail < 34" using cut_entries [OF assms(4)] by blast
  then have "readOwnEntries (length bs) (concat (map writeBlockWalChunk cut) @ tail) = Inl PanicSlice"
    by (intro readOwn_short)
  then show ?thesis using assms(1-3) unfolding cut(1)
    by (simp add: parseSnapshotCheckpoint_def Let_def blockCheckpointHeaderSize_def BlockToObjectWALHeader_def blockToObjectWALMagic_def
        slice_def blockWalChunkSize_def)
qed

definition demoLayer :: "string \<Rightarrow> u64 list \<Rightarrow> snapshotAncestor" where
  "demoLayer name bs = \<lparr>anc_blocks = \<lparr>bto_dirty = False, bto_BlockLookup = map (\<lambda>b. (b, zeroLookup\<lparr>bl_StartBlock := b, bl_NumBlocks := 1,
     bl_ObjectID := b + 1, bl_SeqNum := b + 2\<rparr>)) bs\<rparr>, anc_sourceVolumeName = name, anc_sourceVolumeUUID = [1, 2, 3, 4],
     anc_sourceVolumeNameHash = replicate 32 5\<rparr>"

definition demoClone :: "(unit, unit) VB" where
  "demoClone = (demoVB False ())\<lparr>SourceVolumeName := ''src'', SourceVolumeUUID := [1, 2, 3, 4], sourceVolumeNameHash := replicate 32 5,
     ancestors := [demoLayer ''old'' [3, 4, 9]], vb_BlocksToObject := anc_blocks (demoLayer ''v'' [2, 3])\<rparr>"

theorem flat_section_roundtrip_witness:
  "\<exists>data layers. buildFlatSection (anc_blocks (demoLayer ''src'' [1, 2, 4])) demoClone = Inr data \<and> parseFlatSection data = Inr layers \<and>
     locate (map layerAncestor layers) 9 = Some (''old'', [1, 2, 3, 4], replicate 32 5, 10, 0, 11) \<and>
     locate (map layerAncestor layers) 4 = Some (''src'', [1, 2, 3, 4], replicate 32 5, 5, 0, 6) \<and>
     locate (map layerAncestor layers) 3 = None"
proof -
  let ?base = "anc_blocks (demoLayer ''src'' [1, 2, 4])"
  have "\<exists>data. buildFlatSection ?base demoClone = Inr data"
    by (simp add: buildFlatSection_def flatSources_def demoClone_def demoLayer_def ownBlocks_def encodeSource_def stringBytes_def Let_def)
  then obtain data where data: "buildFlatSection ?base demoClone = Inr data" by blast
  have "\<forall>a \<in> set (baseLayer ?base demoClone # ancestors demoClone). layer_ok a"
    by (simp add: layer_ok_def baseLayer_def demoClone_def demoLayer_def)
  from flat_section_roundtrip [OF data this] obtain layers where l: "parseFlatSection data = Inr layers"
    "\<forall>b. locate (map layerAncestor layers) b = (if b \<in> set (ownBlocks (bto_BlockLookup (vb_BlocksToObject demoClone))) then None
        else locate (baseLayer ?base demoClone # ancestors demoClone) b)" by blast
  have "locate (map layerAncestor layers) 9 = Some (''old'', [1, 2, 3, 4], replicate 32 5, 10, 0, 11)"
    "locate (map layerAncestor layers) 4 = Some (''src'', [1, 2, 3, 4], replicate 32 5, 5, 0, 6)"
    "locate (map layerAncestor layers) 3 = None"
    unfolding l(2) [rule_format]
    by (simp_all add: locate_Cons baseLayer_def demoClone_def demoLayer_def ownBlocks_def zeroLookup_def)
  then show ?thesis using data l(1) by blast
qed

theorem short_flat_checkpoint_panics_witness:
  "parseSnapshotCheckpoint \<lparr>ss_SnapshotID = ''s'', ss_SourceVolumeName = ''v'', ss_SeqNum = 1, ss_ObjectNum = 1, ss_BlockSize = 1,
     ss_ObjBlockSize = 2, ss_BlockCount = 2, ss_CreatedAt = 0, ss_SourceVolumeUUID = [], ss_SourceVolumeNameHash = [],
     ss_StateSeqNum = 0, ss_HasFlatSection = True\<rparr> 1 (BlockToObjectWALHeader 1 0 @
       take 40 (concat (map writeBlockWalChunk [zeroLookup, zeroLookup]) @ [7])) = Inl PanicSlice"
  by (rule short_flat_checkpoint_panics) simp_all

end
