(* ===== verification/State.thy ===== *)
theory State
  imports Snapshot_Map
begin

text \<open>
  The persistent volume state (\<open>VBState\<close>): saving it atomically on the local disk and on the backend,
  loading and reconciling the two copies, and the reservation of sequence numbers, which seed the
  nonces of an encrypted volume and must never repeat.
\<close>

section \<open>The state and its two copies\<close>

text \<open>The part of \<open>VolumeConfig\<close> the engine reads is the size; the rest is carried through.\<close>

record VolumeConfig =
  vc_SizeGiB :: u64
  vc_metadata :: string

record VBState =
  st_VolumeName :: string
  st_VolumeSize :: u64
  st_BlockSize :: u32
  st_ObjBlockSize :: u32
  st_SeqNum :: u64
  st_ObjectNum :: u64
  st_WALNum :: u64
  st_BlockToObjectWALNum :: u64
  st_Version :: u16
  st_VolumeConfig :: VolumeConfig
  st_ShardedWAL :: bool
  st_SnapshotID :: string
  st_SourceVolumeName :: string
  st_EncryptionEnabled :: bool
  st_VolumeUUID :: bytes
  st_SeqNumHighWater :: u64
  st_StateSeqNum :: u64
  st_KeyFingerprint :: string

text \<open>
  A volume together with its local \<open>config.json\<close>.  \<open>nd_readable\<close> says whether the file can be read;
  \<open>nd_Fingerprint\<close> is the fingerprint of the loaded master key.
\<close>

record ('s, 'l) Node =
  nd_vb :: "('s, 'l) VB"
  nd_config :: "bytes option"
  nd_readable :: bool
  nd_VolumeConfig :: VolumeConfig
  nd_Fingerprint :: string

datatype StateError =
    ErrMint
  | ErrAtomicWrite
  | ErrDirSync
  | ErrSeqNumLimit
  | ErrStateBackend BackendError
  | ErrStateLocal
  | ErrStateMissing
  | ErrStateEnvelope EnvelopeError
  | ErrStatePeek
  | ErrEncryptionMismatch
  | ErrStateTag MetaError
  | ErrStateDecode
  | ErrStateNotFound
  | ErrStateBackendUnavailable
  | ErrStateSnapshot SnapError
  | Diverges

text \<open>\<open>writeFileAtomic\<close>: the outcome of each system call is an argument; the rename replaces the file.\<close>

record AtomicOs =
  ao_mkdirOk :: bool
  ao_openOk :: bool
  ao_writeOk :: bool
  ao_syncOk :: bool
  ao_closeOk :: bool
  ao_renameOk :: bool
  ao_dirSyncOk :: bool

definition writeFileAtomic :: "AtomicOs \<Rightarrow> bytes \<Rightarrow> bytes option \<Rightarrow> StateError option \<times> bytes option" where
  "writeFileAtomic os data file =
     (if \<not> ao_mkdirOk os \<or> \<not> ao_openOk os \<or> \<not> ao_writeOk os \<or> \<not> ao_syncOk os \<or> \<not> ao_closeOk os \<or> \<not> ao_renameOk os
      then (Some ErrAtomicWrite, file)
      else (if ao_dirSyncOk os then None else Some ErrDirSync, Some data))"

definition currentState :: "u64 \<Rightarrow> ('s, 'l) Node \<Rightarrow> VBState" where
  "currentState highWater nd =
     (let vb = nd_vb nd
      in \<lparr>st_VolumeName = VolumeName vb, st_VolumeSize = VolumeSize vb, st_BlockSize = BlockSize vb,
          st_ObjBlockSize = ObjBlockSize vb, st_SeqNum = SeqNum vb, st_ObjectNum = ObjectNum vb,
          st_WALNum = (if UseShardedWAL vb then sw_WallNum (vb_ShardedWAL vb) else wal_WallNum (vb_WAL vb)),
          st_BlockToObjectWALNum = BlockToObjectWallNum vb, st_Version = Version vb, st_VolumeConfig = nd_VolumeConfig nd,
          st_ShardedWAL = UseShardedWAL vb, st_SnapshotID = SnapshotID vb, st_SourceVolumeName = SourceVolumeName vb,
          st_EncryptionEnabled = EncryptionEnabled vb, st_VolumeUUID = VolumeUUID vb, st_SeqNumHighWater = highWater,
          st_StateSeqNum = nextStateSeqNum vb + 1,
          st_KeyFingerprint = (if EncryptionEnabled vb then nd_Fingerprint nd else [])\<rparr>)"

definition sealState :: "VBState JsonCodec \<Rightarrow> ('s, 'l) VB \<Rightarrow> VBState \<Rightarrow> bytes" where
  "sealState J vb state =
     (if EncryptionEnabled vb
      then sealMeta (vb_aead vb) (js_Marshal J state) (makeMetaAAD (volumeNameHash vb) ''vbstate'' (st_StateSeqNum state))
             (makeNonce (st_StateSeqNum state) (VolumeUUID vb) DomainVBStateMeta)
      else js_Marshal J state)"

definition persistStateLocal ::
    "VBState JsonCodec \<Rightarrow> AtomicOs \<Rightarrow> u64 \<Rightarrow> ('s, 'l) Node \<Rightarrow> (StateError + bytes) \<times> ('s, 'l) Node" where
  "persistStateLocal J os highWater nd =
     (let state = currentState highWater nd;
          persisted = sealState J (nd_vb nd) state;
          nd = nd\<lparr>nd_vb := (nd_vb nd)\<lparr>nextStateSeqNum := nextStateSeqNum (nd_vb nd) + 1\<rparr>\<rparr>
      in case writeFileAtomic os persisted (nd_config nd) of
           (Some e, file) \<Rightarrow> (Inl e, nd\<lparr>nd_config := file\<rparr>)
         | (None, file) \<Rightarrow> (Inr persisted, nd\<lparr>nd_config := file\<rparr>))"

definition pushStateToBackend :: "'s Backend \<Rightarrow> bytes \<Rightarrow> ('s, 'l) Node \<Rightarrow> StateError option \<times> ('s, 'l) Node" where
  "pushStateToBackend B persisted nd =
     (case be_Write B FileTypeConfig 0 [] persisted (vb_Backend (nd_vb nd)) of
        (e, s) \<Rightarrow> (map_option ErrStateBackend e, nd\<lparr>nd_vb := (nd_vb nd)\<lparr>vb_Backend := s\<rparr>\<rparr>))"

definition saveStateWithHighWater ::
    "'s Backend \<Rightarrow> VBState JsonCodec \<Rightarrow> AtomicOs \<Rightarrow> u64 \<Rightarrow> ('s, 'l) Node \<Rightarrow> StateError option \<times> ('s, 'l) Node" where
  "saveStateWithHighWater B J os highWater nd =
     (case persistStateLocal J os highWater nd of
        (Inl e, nd) \<Rightarrow> (Some e, nd)
      | (Inr persisted, nd) \<Rightarrow> pushStateToBackend B persisted nd)"

section \<open>The nonce subspace\<close>

text \<open>
  A call of \<open>crypto/rand\<close> either fills the array, or fails and leaves in it whatever it had stored so
  far.\<close>

type_synonym RandRead = "bytes + bytes"

definition mintVolumeUUID :: "RandRead \<Rightarrow> ('s, 'l) VB \<Rightarrow> (StateError + bool) \<times> ('s, 'l) VB" where
  "mintVolumeUUID rnd vb =
     (if VolumeUUID vb \<noteq> [0, 0, 0, 0] then (Inr False, vb)
      else case rnd of
             Inl partial \<Rightarrow> (Inl ErrMint, vb\<lparr>VolumeUUID := partial\<rparr>)
           | Inr uuid \<Rightarrow> (Inr True, vb\<lparr>VolumeUUID := uuid\<rparr>))"

definition SaveState ::
    "'s Backend \<Rightarrow> VBState JsonCodec \<Rightarrow> AtomicOs \<Rightarrow> RandRead \<Rightarrow> ('s, 'l) Node \<Rightarrow> StateError option \<times> ('s, 'l) Node" where
  "SaveState B J os rnd nd =
     (if EncryptionEnabled (nd_vb nd)
      then case mintVolumeUUID rnd (nd_vb nd) of
             (Inl e, vb) \<Rightarrow> (Some e, nd\<lparr>nd_vb := vb\<rparr>)
           | (Inr minted, vb) \<Rightarrow>
               let vb = (if minted then vb\<lparr>seqNumHighWater := seqNumReservation\<rparr> else vb)
               in saveStateWithHighWater B J os (seqNumHighWater vb) (nd\<lparr>nd_vb := vb\<rparr>)
      else saveStateWithHighWater B J os (seqNumHighWater (nd_vb nd)) nd)"

text \<open>The loop that raises the high-water mark to a target; it may wrap, hence the option.\<close>

partial_function (option) raiseHighWater :: "u64 \<Rightarrow> u64 \<Rightarrow> u64 option" where
  "raiseHighWater target hw = (if hw < target then raiseHighWater target (hw + seqNumReservation) else Some hw)"

definition EnsureVolumeUUID ::
    "'s Backend \<Rightarrow> VBState JsonCodec \<Rightarrow> AtomicOs \<Rightarrow> RandRead \<Rightarrow> ('s, 'l) Node \<Rightarrow> StateError option \<times> ('s, 'l) Node" where
  "EnsureVolumeUUID B J os rnd nd =
     (if \<not> EncryptionEnabled (nd_vb nd) \<or> VolumeUUID (nd_vb nd) \<noteq> [0, 0, 0, 0] then (None, nd)
      else case mintVolumeUUID rnd (nd_vb nd) of
             (Inl e, vb) \<Rightarrow> (Some e, nd\<lparr>nd_vb := vb\<rparr>)
           | (Inr minted, vb) \<Rightarrow>
               (case raiseHighWater (SeqNum vb) (max (seqNumHighWater vb) seqNumReservation) of
                  None \<Rightarrow> (Some Diverges, nd\<lparr>nd_vb := vb\<rparr>)
                | Some hw \<Rightarrow>
                    (case persistStateLocal J os hw (nd\<lparr>nd_vb := vb\<rparr>) of
                       (Inl e, nd) \<Rightarrow> (Some e, nd)
                     | (Inr persisted, nd) \<Rightarrow>
                         pushStateToBackend B persisted (nd\<lparr>nd_vb := (nd_vb nd)\<lparr>seqNumHighWater := hw\<rparr>\<rparr>))))"

definition reserveSeqNum ::
    "'s Backend \<Rightarrow> VBState JsonCodec \<Rightarrow> AtomicOs \<Rightarrow> RandRead \<Rightarrow> u64 \<Rightarrow> ('s, 'l) Node \<Rightarrow> (StateError + u64) \<times> ('s, 'l) Node" where
  "reserveSeqNum B J os rnd n nd =
     (let start = SeqNum (nd_vb nd); end' = start + n;
          vb = (nd_vb nd)\<lparr>SeqNum := end'\<rparr>; nd = nd\<lparr>nd_vb := vb\<rparr>
      in if \<not> EncryptionEnabled vb then (Inr start, nd)
         else if MaxSeqNum < end' then (Inl ErrSeqNumLimit, nd)
         else if end' \<le> seqNumHighWater vb then (Inr start, nd)
         else case mintVolumeUUID rnd vb of
                (Inl e, vb) \<Rightarrow> (Inl e, nd\<lparr>nd_vb := vb\<rparr>)
              | (Inr minted, vb) \<Rightarrow>
                  (case raiseHighWater end' (seqNumHighWater vb) of
                     None \<Rightarrow> (Inl Diverges, nd\<lparr>nd_vb := vb\<rparr>)
                   | Some hw \<Rightarrow>
                       (case persistStateLocal J os hw (nd\<lparr>nd_vb := vb\<rparr>) of
                          (Inl e, nd) \<Rightarrow> (Inl e, nd)
                        | (Inr persisted, nd) \<Rightarrow>
                            (Inr start, snd (pushStateToBackend B persisted (nd\<lparr>nd_vb := (nd_vb nd)\<lparr>seqNumHighWater := hw\<rparr>\<rparr>))))))"

definition bumpSeqNumHighWater ::
    "'s Backend \<Rightarrow> VBState JsonCodec \<Rightarrow> AtomicOs \<Rightarrow> ('s, 'l) Node \<Rightarrow> StateError option \<times> ('s, 'l) Node" where
  "bumpSeqNumHighWater B J os nd =
     (let newHW = seqNumHighWater (nd_vb nd) + seqNumReservation
      in case persistStateLocal J os newHW nd of
           (Inl e, nd) \<Rightarrow> (Some e, nd)
         | (Inr persisted, nd) \<Rightarrow>
             (None, snd (pushStateToBackend B persisted (nd\<lparr>nd_vb := (nd_vb nd)\<lparr>seqNumHighWater := newHW\<rparr>\<rparr>))))"

section \<open>Loading\<close>

definition openState :: "envDecoder \<Rightarrow> VBState JsonCodec \<Rightarrow> bytes \<Rightarrow> ('s, 'l) Node \<Rightarrow> StateError + bytes" where
  "openState env J blob nd =
     (let vb = nd_vb nd
      in if \<not> EncryptionEnabled vb then Inr blob
         else case splitEnvelope env blob of
                Inl e \<Rightarrow> Inl (ErrStateEnvelope e)
              | Inr (payload, tag) \<Rightarrow>
                  (case js_Unmarshal J payload of
                     None \<Rightarrow> Inl ErrStatePeek
                   | Some peek \<Rightarrow>
                       if st_KeyFingerprint peek \<noteq> nd_Fingerprint nd then Inl ErrEncryptionMismatch
                       else (case verifyMeta (vb_aead vb) payload tag
                                (makeMetaAAD (volumeNameHash vb) ''vbstate'' (st_StateSeqNum peek))
                                (makeNonce (st_StateSeqNum peek) (st_VolumeUUID peek) DomainVBStateMeta) of
                               Some e \<Rightarrow> Inl (ErrStateTag e)
                             | None \<Rightarrow> Inr payload)))"

definition LoadStateRequest ::
    "envDecoder \<Rightarrow> VBState JsonCodec \<Rightarrow> StateError + bytes \<Rightarrow> ('s, 'l) Node \<Rightarrow> StateError + VBState" where
  "LoadStateRequest env J blob nd =
     (case blob of
        Inl e \<Rightarrow> Inl e
      | Inr jsonData \<Rightarrow>
          (case openState env J jsonData nd of
             Inl e \<Rightarrow> Inl e
           | Inr payload \<Rightarrow>
               (case js_Unmarshal J (StateBody env payload) of None \<Rightarrow> Inl ErrStateDecode | Some state \<Rightarrow> Inr state)))"

definition localBlob :: "('s, 'l) Node \<Rightarrow> StateError + bytes" where
  "localBlob nd = (case nd_config nd of None \<Rightarrow> Inl ErrStateMissing | Some b \<Rightarrow> if nd_readable nd then Inr b else Inl ErrStateLocal)"

definition backendBlob :: "'s Backend \<Rightarrow> ('s, 'l) Node \<Rightarrow> StateError + bytes" where
  "backendBlob B nd = (case be_Read B (vb_Backend (nd_vb nd)) FileTypeConfig 0 0 0 of Inl e \<Rightarrow> Inl (ErrStateBackend e) | Inr b \<Rightarrow> Inr b)"

text \<open>Failures that fail the load at once: an integrity violation or an encryption mismatch.\<close>

fun fatalLoad :: "StateError + VBState \<Rightarrow> bool" where
  "fatalLoad (Inl (ErrStateEnvelope e)) = True"
| "fatalLoad (Inl ErrStatePeek) = True"
| "fatalLoad (Inl ErrEncryptionMismatch) = True"
| "fatalLoad (Inl (ErrStateTag e)) = True"
| "fatalLoad r = False"

fun stateMissing :: "StateError + VBState \<Rightarrow> bool" where
  "stateMissing (Inl ErrStateMissing) = True"
| "stateMissing (Inl (ErrStateBackend BNotExist)) = True"
| "stateMissing (Inl e) = False"
| "stateMissing (Inr s) = True"

definition classifyStateLoad :: "StateError + VBState \<Rightarrow> StateError" where
  "classifyStateLoad backend = (if \<not> stateMissing backend then ErrStateBackendUnavailable else ErrStateNotFound)"

fun blockSizeOf :: "StateError + VBState \<Rightarrow> u32" where
  "blockSizeOf (Inl e) = 0"
| "blockSizeOf (Inr s) = st_BlockSize s"

definition zeroState :: VBState where
  "zeroState = \<lparr>st_VolumeName = [], st_VolumeSize = 0, st_BlockSize = 0, st_ObjBlockSize = 0, st_SeqNum = 0, st_ObjectNum = 0,
     st_WALNum = 0, st_BlockToObjectWALNum = 0, st_Version = 0, st_VolumeConfig = \<lparr>vc_SizeGiB = 0, vc_metadata = []\<rparr>,
     st_ShardedWAL = False, st_SnapshotID = [], st_SourceVolumeName = [], st_EncryptionEnabled = False,
     st_VolumeUUID = [0, 0, 0, 0], st_SeqNumHighWater = 0, st_StateSeqNum = 0, st_KeyFingerprint = []\<rparr>"

fun stateOf :: "StateError + VBState \<Rightarrow> VBState" where
  "stateOf (Inl e) = zeroState"
| "stateOf (Inr s) = s"

text \<open>The authoritative copy: the later generation, and the backend's when the local one did not load.\<close>

definition chooseState :: "StateError + VBState \<Rightarrow> StateError + VBState \<Rightarrow> VBState" where
  "chooseState loc backend =
     (case loc of
        Inl e \<Rightarrow> stateOf backend
      | Inr state \<Rightarrow> if st_StateSeqNum state < st_StateSeqNum (stateOf backend) then stateOf backend else state)"

definition reconcileSize :: "VBState \<Rightarrow> VBState" where
  "reconcileSize state =
     (let configSizeBytes = vc_SizeGiB (st_VolumeConfig state) * 1024 * 1024 * 1024
      in if 0 < configSizeBytes \<and> st_VolumeSize state < configSizeBytes then state\<lparr>st_VolumeSize := configSizeBytes\<rparr> else state)"

definition installState :: "VBState \<Rightarrow> ('s, 'l) Node \<Rightarrow> ('s, 'l) Node" where
  "installState state nd =
     (let vb = nd_vb nd;
          vb = vb\<lparr>VolumeName := st_VolumeName state, VolumeSize := st_VolumeSize state, BlockSize := st_BlockSize state,
             ObjBlockSize := st_ObjBlockSize state, SeqNum := st_SeqNum state, ObjectNum := st_ObjectNum state,
             vb_WAL := (vb_WAL vb)\<lparr>wal_WallNum := st_WALNum state\<rparr>, BlockToObjectWallNum := st_BlockToObjectWALNum state,
             Version := st_Version state, nextStateSeqNum := st_StateSeqNum state\<rparr>;
          vb = (if st_ShardedWAL state
                then vb\<lparr>UseShardedWAL := True, vb_ShardedWAL := (vb_ShardedWAL vb)\<lparr>sw_WallNum := st_WALNum state\<rparr>\<rparr> else vb)
      in nd\<lparr>nd_vb := vb, nd_VolumeConfig := st_VolumeConfig state\<rparr>)"

definition restoreBase ::
    "'s Backend \<Rightarrow> envDecoder \<Rightarrow> SnapshotState JsonCodec \<Rightarrow> VBState \<Rightarrow> ('s, 'l) Node \<Rightarrow> StateError option \<times> ('s, 'l) Node" where
  "restoreBase B env SJ state nd =
     (if st_SnapshotID state = [] then (None, nd)
      else case OpenFromSnapshot B env SJ (st_SnapshotID state) (nd_vb nd) of
             (e, vb) \<Rightarrow> (map_option ErrStateSnapshot e, nd\<lparr>nd_vb := vb\<rparr>))"

definition LoadState ::
    "'s Backend \<Rightarrow> envDecoder \<Rightarrow> VBState JsonCodec \<Rightarrow> SnapshotState JsonCodec \<Rightarrow> AtomicOs \<Rightarrow> ('s, 'l) Node \<Rightarrow>
     StateError option \<times> ('s, 'l) Node" where
  "LoadState B env J SJ os nd =
     (let loc = LoadStateRequest env J (localBlob nd) nd;
          backend = LoadStateRequest env J (backendBlob B nd) nd;
          state = chooseState loc backend
      in if fatalLoad loc then (case loc of Inl e \<Rightarrow> Some e | Inr s \<Rightarrow> None, nd)
         else if fatalLoad backend then (case backend of Inl e \<Rightarrow> Some e | Inr s \<Rightarrow> None, nd)
         else if blockSizeOf loc = 0 \<and> blockSizeOf backend = 0 then (Some (classifyStateLoad backend), nd)
         else if EncryptionEnabled (nd_vb nd) \<noteq> st_EncryptionEnabled state then (Some ErrEncryptionMismatch, nd)
         else if EncryptionEnabled (nd_vb nd) \<and> st_KeyFingerprint state \<noteq> nd_Fingerprint nd then (Some ErrEncryptionMismatch, nd)
         else let state = reconcileSize state
              in case restoreBase B env SJ state (installState state nd) of
                   (Some e, nd) \<Rightarrow> (Some e, nd)
                 | (None, nd) \<Rightarrow>
                     if \<not> EncryptionEnabled (nd_vb nd) then (None, nd)
                     else bumpSeqNumHighWater B J os (nd\<lparr>nd_vb := (nd_vb nd)\<lparr>VolumeUUID := st_VolumeUUID state,
                            SeqNum := st_SeqNumHighWater state, seqNumHighWater := st_SeqNumHighWater state\<rparr>\<rparr>))"

end
