(* ===== verification/State_Props.thy ===== *)
theory State_Props
  imports State
begin

text \<open>
  Sequence numbers never repeat across crashes, as long as the local copy of the state survives; and the
  two ways in which the code can still issue a number twice.
\<close>

section \<open>What a saved state looks like to a loader\<close>

definition state_codec :: "(bytes \<Rightarrow> bool) \<Rightarrow> envDecoder \<Rightarrow> VBState JsonCodec \<Rightarrow> bool" where
  "state_codec json env J \<longleftrightarrow> codec_ok json J \<and> env_ok json env \<and> (\<forall>x. StateBody env (js_Marshal J x) = js_Marshal J x)"

definition sealedState :: "VBState JsonCodec \<Rightarrow> ('s, 'l) Node \<Rightarrow> VBState \<Rightarrow> bytes" where
  "sealedState J nd st = sealMeta (vb_aead (nd_vb nd)) (js_Marshal J st)
     (makeMetaAAD (volumeNameHash (nd_vb nd)) ''vbstate'' (st_StateSeqNum st))
     (makeNonce (st_StateSeqNum st) (st_VolumeUUID st) DomainVBStateMeta)"

text \<open>Two incarnations of one volume: the same key and the same identity.\<close>

definition same_key :: "('s, 'l) Node \<Rightarrow> ('s, 'm) Node \<Rightarrow> bool" where
  "same_key nd nd' \<longleftrightarrow> EncryptionEnabled (nd_vb nd) \<and> EncryptionEnabled (nd_vb nd') \<and> aead_ok (vb_aead (nd_vb nd)) \<and>
     vb_aead (nd_vb nd') = vb_aead (nd_vb nd) \<and> volumeNameHash (nd_vb nd') = volumeNameHash (nd_vb nd) \<and>
     nd_Fingerprint nd' = nd_Fingerprint nd"

lemma sealed_loads:
  assumes "state_codec json env J" "same_key nd nd'" "st_KeyFingerprint st = nd_Fingerprint nd"
  shows "LoadStateRequest env J (Inr (sealedState J nd st)) nd' = Inr st"
proof -
  have J: "json (js_Marshal J st)" "js_Unmarshal J (js_Marshal J st) = Some st" "StateBody env (js_Marshal J st) = js_Marshal J st"
    "env_ok json env" using assms(1) by (simp_all add: state_codec_def codec_ok_def)
  have k: "EncryptionEnabled (nd_vb nd')" "aead_ok (vb_aead (nd_vb nd))" "vb_aead (nd_vb nd') = vb_aead (nd_vb nd)"
    "volumeNameHash (nd_vb nd') = volumeNameHash (nd_vb nd)" "nd_Fingerprint nd' = nd_Fingerprint nd"
    using assms(2) by (simp_all add: same_key_def)
  show ?thesis using envelope_opens [OF J(4,1) k(2)] J(2,3) k assms(3)
    by (simp add: LoadStateRequest_def openState_def sealedState_def Let_def)
qed

lemma persistStateLocal_cases:
  assumes "persistStateLocal J os hw nd = (r, nd')"
  shows "nd' = nd\<lparr>nd_vb := (nd_vb nd)\<lparr>nextStateSeqNum := nextStateSeqNum (nd_vb nd) + 1\<rparr>, nd_config := nd_config nd'\<rparr>"
    "nd_config nd' = nd_config nd \<and> r = Inl ErrAtomicWrite \<or>
     nd_config nd' = Some (sealState J (nd_vb nd) (currentState hw nd)) \<and>
       (r = Inl ErrDirSync \<or> r = Inr (sealState J (nd_vb nd) (currentState hw nd)))"
  using assms by (auto simp: persistStateLocal_def writeFileAtomic_def Let_def split: if_splits)

lemma sealState_sealed:
  "EncryptionEnabled (nd_vb nd) \<Longrightarrow> sealState J (nd_vb nd) (currentState hw nd) = sealedState J nd (currentState hw nd)"
  by (simp add: sealState_def sealedState_def currentState_def Let_def)

section \<open>Raising the high-water mark\<close>

lemma raiseHighWater_reaches:
  assumes "target \<le> MaxSeqNum"
  shows "\<exists>hw'. raiseHighWater target hw = Some hw' \<and> target \<le> hw' \<and> hw \<le> hw'"
proof (induction "unat target - unat hw" arbitrary: hw rule: less_induct)
  case less
  show ?case
  proof (cases "hw < target")
    case True
    have t: "unat target \<le> 72057594037927935" using assms by (simp add: MaxSeqNum_def word_le_nat_alt)
    have lt: "unat hw < unat target" using True by (simp add: word_less_nat_alt)
    have up: "unat (hw + seqNumReservation) = unat hw + 1048576"
      using t lt by (simp add: seqNumReservation_def unat_plus_nowrap)
    then have "unat target - unat (hw + seqNumReservation) < unat target - unat hw" using lt by linarith
    from less [OF this] obtain hw' where "raiseHighWater target (hw + seqNumReservation) = Some hw'" "target \<le> hw'" "hw + seqNumReservation \<le> hw'"
      by blast
    moreover have "hw \<le> hw + seqNumReservation" using up by (simp add: word_le_nat_alt)
    ultimately show ?thesis using True by (auto simp: raiseHighWater.simps [of target hw])
  next
    case False
    then have "raiseHighWater target hw = Some hw" by (simp add: raiseHighWater.simps [of target hw])
    then show ?thesis using False by (simp add: not_less)
  qed
qed

section \<open>Runs of a volume with crashes\<close>

text \<open>The numbers a successful call hands out.\<close>

definition issuedBy :: "u64 \<Rightarrow> u64 \<Rightarrow> u64 list" where
  "issuedBy start n = map (\<lambda>i. start + of_nat (Suc i)) [0..<unat n]"

text \<open>
  A restarted process: a new engine with the same key on the same disk, on which the local state can be
  read, while the backend's copy is not readable or not newer.
\<close>

definition restarts :: "'s Backend \<Rightarrow> envDecoder \<Rightarrow> VBState JsonCodec \<Rightarrow> ('s, 'l) Node \<Rightarrow> ('s, 'l) Node \<Rightarrow> bool" where
  "restarts B env J nd nd0 \<longleftrightarrow> same_key nd nd0 \<and> nd_config nd0 = nd_config nd \<and> nd_config nd \<noteq> None \<and> nd_readable nd0 \<and>
     (case LoadStateRequest env J (backendBlob B nd0) nd0 of
        Inl e \<Rightarrow> True
      | Inr sb \<Rightarrow> st_StateSeqNum sb \<le> st_StateSeqNum (stateOf (LoadStateRequest env J (localBlob nd0) nd0)))"

text \<open>
  The runs of an encrypted volume, with the numbers issued so far: reservations, saves and restarts in
  any order and with any outcome.  When only the last sync of the directory fails, a crash may bring the
  old file back.
\<close>

inductive volume_run ::
    "'s Backend \<Rightarrow> envDecoder \<Rightarrow> VBState JsonCodec \<Rightarrow> SnapshotState JsonCodec \<Rightarrow> ('s, 'l) Node \<Rightarrow> u64 list \<Rightarrow> bool"
  for B env J SJ where
  created: "\<lbrakk>same_key nd nd; nd_config nd = None; VolumeUUID (nd_vb nd) = [0, 0, 0, 0]; seqNumHighWater (nd_vb nd) = 0\<rbrakk>
    \<Longrightarrow> volume_run B env J SJ nd []"
| reserve: "\<lbrakk>volume_run B env J SJ nd iss; reserveSeqNum B J os (Inr uuid) n nd = (Inr start, nd');
    uuid \<noteq> [0, 0, 0, 0]; unat (SeqNum (nd_vb nd)) + unat n < 2 ^ 64\<rbrakk> \<Longrightarrow> volume_run B env J SJ nd' (iss @ issuedBy start n)"
| reserve_fails: "\<lbrakk>volume_run B env J SJ nd iss; reserveSeqNum B J os (Inr uuid) n nd = (Inl e, nd');
    uuid \<noteq> [0, 0, 0, 0]; unat (SeqNum (nd_vb nd)) + unat n < 2 ^ 64\<rbrakk> \<Longrightarrow> volume_run B env J SJ nd' iss"
| save: "\<lbrakk>volume_run B env J SJ nd iss; SaveState B J os (Inr uuid) nd = (e, nd'); uuid \<noteq> [0, 0, 0, 0]\<rbrakk>
    \<Longrightarrow> volume_run B env J SJ nd' iss"
| unsynced: "\<lbrakk>volume_run B env J SJ nd iss; reserveSeqNum B J os (Inr uuid) n nd = (Inl ErrDirSync, nd');
    uuid \<noteq> [0, 0, 0, 0]; unat (SeqNum (nd_vb nd)) + unat n < 2 ^ 64\<rbrakk> \<Longrightarrow> volume_run B env J SJ (nd'\<lparr>nd_config := nd_config nd\<rparr>) iss"
| restart: "\<lbrakk>volume_run B env J SJ nd iss; restarts B env J nd nd0; LoadState B env J SJ os nd0 = (None, nd');
    unat (seqNumHighWater (nd_vb nd')) \<ge> 1048576\<rbrakk> \<Longrightarrow> volume_run B env J SJ nd' iss"

definition run_inv :: "VBState JsonCodec \<Rightarrow> ('s, 'l) Node \<Rightarrow> u64 list \<Rightarrow> bool" where
  "run_inv J nd iss \<longleftrightarrow> same_key nd nd \<and> distinct iss \<and>
     (\<forall>q \<in> set iss. q \<le> SeqNum (nd_vb nd) \<and> q \<le> seqNumHighWater (nd_vb nd) \<and> q \<le> MaxSeqNum) \<and>
     (VolumeUUID (nd_vb nd) = [0, 0, 0, 0] \<longrightarrow> seqNumHighWater (nd_vb nd) = 0 \<and> iss = [] \<and> nd_config nd = None) \<and>
     (\<forall>blob. nd_config nd = Some blob \<longrightarrow> (\<exists>st. blob = sealedState J nd st \<and> st_KeyFingerprint st = nd_Fingerprint nd \<and>
        seqNumHighWater (nd_vb nd) \<le> st_SeqNumHighWater st \<and> st_VolumeUUID st \<noteq> [0, 0, 0, 0]))"

lemma same_key_cong:
  assumes "EncryptionEnabled (nd_vb nd') = EncryptionEnabled (nd_vb nd)" "vb_aead (nd_vb nd') = vb_aead (nd_vb nd)"
    "volumeNameHash (nd_vb nd') = volumeNameHash (nd_vb nd)" "nd_Fingerprint nd' = nd_Fingerprint nd"
  shows "same_key nd' nd' = same_key nd nd" "sealedState J nd' = sealedState J nd"
  using assms by (simp_all add: same_key_def sealedState_def fun_eq_iff)

lemma run_inv_mono:
  assumes "run_inv J nd iss" "EncryptionEnabled (nd_vb nd') = EncryptionEnabled (nd_vb nd)" "vb_aead (nd_vb nd') = vb_aead (nd_vb nd)"
    "volumeNameHash (nd_vb nd') = volumeNameHash (nd_vb nd)" "nd_Fingerprint nd' = nd_Fingerprint nd" "nd_config nd' = nd_config nd"
    "SeqNum (nd_vb nd) \<le> SeqNum (nd_vb nd')" "seqNumHighWater (nd_vb nd') = seqNumHighWater (nd_vb nd)"
    "VolumeUUID (nd_vb nd) \<noteq> [0, 0, 0, 0] \<longrightarrow> VolumeUUID (nd_vb nd') = VolumeUUID (nd_vb nd)"
  shows "run_inv J nd' iss"
proof -
  note c = same_key_cong [OF assms(2-5)]
  have "q \<le> SeqNum (nd_vb nd')" if "q \<in> set iss" for q
    using assms(1,7) that unfolding run_inv_def by (auto intro: order_trans)
  then show ?thesis using assms(1,9) unfolding run_inv_def c assms(5,6,8) by metis
qed

lemma persist_inv:
  assumes "run_inv J nd iss" "persistStateLocal J os hw nd = (r, nd')" "seqNumHighWater (nd_vb nd) \<le> hw" "VolumeUUID (nd_vb nd) \<noteq> [0, 0, 0, 0]"
  shows "run_inv J nd' iss" "nd_vb nd' = (nd_vb nd)\<lparr>nextStateSeqNum := nextStateSeqNum (nd_vb nd) + 1\<rparr>"
    "nd_Fingerprint nd' = nd_Fingerprint nd" "r = Inr b \<Longrightarrow> nd_config nd' = Some (sealedState J nd' (currentState hw nd))"
proof -
  note p = persistStateLocal_cases [OF assms(2)]
  have enc: "EncryptionEnabled (nd_vb nd)" using assms(1) by (simp add: run_inv_def same_key_def)
  show f: "nd_vb nd' = (nd_vb nd)\<lparr>nextStateSeqNum := nextStateSeqNum (nd_vb nd) + 1\<rparr>" "nd_Fingerprint nd' = nd_Fingerprint nd"
    using arg_cong [OF p(1), of nd_Fingerprint] arg_cong [OF p(1), of nd_vb] by simp_all
  have k: "same_key nd' nd' = same_key nd nd" "sealedState J nd' = sealedState J nd"
    by (rule same_key_cong; simp add: f)+
  show "r = Inr b \<Longrightarrow> nd_config nd' = Some (sealedState J nd' (currentState hw nd))"
    using p(2) sealState_sealed [OF enc] by (auto simp: k)
  have st: "st_KeyFingerprint (currentState hw nd) = nd_Fingerprint nd" "st_SeqNumHighWater (currentState hw nd) = hw"
    "st_VolumeUUID (currentState hw nd) = VolumeUUID (nd_vb nd)" using enc by (simp_all add: currentState_def Let_def)
  from p(2) show "run_inv J nd' iss"
  proof
    assume "nd_config nd' = nd_config nd \<and> r = Inl ErrAtomicWrite"
    then show ?thesis by (intro run_inv_mono [OF assms(1)]) (simp_all add: f)
  next
    assume "nd_config nd' = Some (sealState J (nd_vb nd) (currentState hw nd)) \<and> (r = Inl ErrDirSync \<or> r = Inr (sealState J (nd_vb nd) (currentState hw nd)))"
    then have cfg: "nd_config nd' = Some (sealedState J nd (currentState hw nd))" using sealState_sealed [OF enc] by simp
    show ?thesis using assms(1,3,4) st unfolding run_inv_def k cfg f by auto
  qed
qed

lemma publish_inv:
  assumes "run_inv J nd iss" "nd_config nd = Some (sealedState J nd st)" "st_KeyFingerprint st = nd_Fingerprint nd"
    "st_SeqNumHighWater st = hw" "st_VolumeUUID st \<noteq> [0, 0, 0, 0]" "seqNumHighWater (nd_vb nd) \<le> hw" "VolumeUUID (nd_vb nd) \<noteq> [0, 0, 0, 0]"
  shows "run_inv J (nd\<lparr>nd_vb := (nd_vb nd)\<lparr>seqNumHighWater := hw\<rparr>\<rparr>) iss"
proof -
  let ?nd = "nd\<lparr>nd_vb := (nd_vb nd)\<lparr>seqNumHighWater := hw\<rparr>\<rparr>"
  have k: "same_key ?nd ?nd = same_key nd nd" "sealedState J ?nd = sealedState J nd"
    by (rule same_key_cong; simp)+
  have "q \<le> hw" if "q \<in> set iss" for q using assms(1,6) that unfolding run_inv_def by (auto intro: order_trans)
  then show ?thesis using assms unfolding run_inv_def k by auto
qed

lemma issuedBy_new:
  assumes "unat start + unat n < 2 ^ 64" "q \<in> set (issuedBy start n)"
  shows "start < q" "q \<le> start + n"
proof -
  obtain i where i: "i < unat n" "q = start + of_nat (Suc i)" using assms(2) by (auto simp: issuedBy_def)
  have lt: "Suc i < 18446744073709551616" using i(1) unat_less_2p64 [of n] by linarith
  have "unat q = unat start + Suc i"
    using i assms(1) lt by (simp del: of_nat_Suc add: unat_plus_nowrap unat_of_nat_u64)
  then show "start < q" "q \<le> start + n"
    using i(1) assms(1) by (simp_all add: word_less_nat_alt word_le_nat_alt unat_plus_nowrap)
qed

lemma issuedBy_distinct:
  assumes "unat start + unat n < 2 ^ 64"
  shows "distinct (issuedBy start n)"
proof -
  have "of_nat (Suc i) = (of_nat (Suc j) :: u64) \<longleftrightarrow> i = j" if "i < unat n" "j < unat n" for i j
  proof -
    have "Suc i < 18446744073709551616" "Suc j < 18446744073709551616" using that unat_less_2p64 [of n] by linarith+
    then have "unat (of_nat (Suc i) :: u64) = Suc i" "unat (of_nat (Suc j) :: u64) = Suc j" by (simp_all only: unat_of_nat_u64)
    then show ?thesis by (metis Suc_inject)
  qed
  then show ?thesis unfolding issuedBy_def distinct_map inj_on_def by auto
qed

lemma issue_inv:
  assumes "run_inv J nd iss" "unat (SeqNum (nd_vb nd)) + unat n < 2 ^ 64" "SeqNum (nd_vb nd) + n \<le> MaxSeqNum"
    "run_inv J nd' iss" "SeqNum (nd_vb nd') = SeqNum (nd_vb nd) + n" "SeqNum (nd_vb nd) + n \<le> seqNumHighWater (nd_vb nd')"
  shows "run_inv J nd' (iss @ issuedBy (SeqNum (nd_vb nd)) n)"
proof -
  let ?s = "SeqNum (nd_vb nd)"
  have new: "?s < q" "q \<le> ?s + n" if "q \<in> set (issuedBy ?s n)" for q using issuedBy_new [OF assms(2) that] .
  have old: "q \<le> ?s" if "q \<in> set iss" for q using assms(1) that by (simp add: run_inv_def)
  have "set iss \<inter> set (issuedBy ?s n) = {}" using new(1) old by fastforce
  then have "distinct (iss @ issuedBy ?s n)" using assms(4) issuedBy_distinct [OF assms(2)] by (simp add: run_inv_def)
  moreover have "q \<le> SeqNum (nd_vb nd') \<and> q \<le> seqNumHighWater (nd_vb nd') \<and> q \<le> MaxSeqNum" if "q \<in> set (iss @ issuedBy ?s n)" for q
  proof (cases "q \<in> set iss")
    case True
    then show ?thesis using assms(4) by (simp add: run_inv_def)
  next
    case False
    then have "q \<le> ?s + n" using that new(2) by simp
    then show ?thesis using assms(3,5,6) by (auto intro: order_trans)
  qed
  moreover have "issuedBy ?s n = []" if "seqNumHighWater (nd_vb nd') = 0"
  proof -
    have "unat ?s + unat n = 0" using assms(2,6) that by (simp add: unat_plus_nowrap word_le_nat_alt)
    then show ?thesis by (simp add: issuedBy_def)
  qed
  ultimately show ?thesis using assms(4) unfolding run_inv_def by auto
qed

section \<open>Every step keeps the invariant\<close>

lemma push_fields:
  "nd_config (snd (pushStateToBackend B p nd)) = nd_config nd" "nd_Fingerprint (snd (pushStateToBackend B p nd)) = nd_Fingerprint nd"
  "\<exists>s. nd_vb (snd (pushStateToBackend B p nd)) = (nd_vb nd)\<lparr>vb_Backend := s\<rparr>"
  by (auto simp: pushStateToBackend_def split: prod.splits)

lemma push_inv: "run_inv J nd iss \<Longrightarrow> run_inv J (snd (pushStateToBackend B p nd)) iss"
  by (erule run_inv_mono) (use push_fields [of B p nd] in auto)

text \<open>Minting, persisting a higher mark and publishing it: the slow path every caller shares.\<close>

lemma raise_inv:
  fixes B :: "'s Backend" and nd nd1 :: "('s, 'l) Node"
  assumes "run_inv J nd iss" "persistStateLocal J os hw nd = (Inr p, nd1)" "seqNumHighWater (nd_vb nd) \<le> hw" "VolumeUUID (nd_vb nd) \<noteq> [0, 0, 0, 0]"
  defines "nd2 \<equiv> snd (pushStateToBackend B p (nd1\<lparr>nd_vb := (nd_vb nd1)\<lparr>seqNumHighWater := hw\<rparr>\<rparr>))"
  shows "run_inv J nd2 iss" "seqNumHighWater (nd_vb nd2) = hw" "SeqNum (nd_vb nd2) = SeqNum (nd_vb nd)" "VolumeUUID (nd_vb nd2) = VolumeUUID (nd_vb nd)"
proof -
  note p = persist_inv [OF assms(1-4)]
  have enc: "EncryptionEnabled (nd_vb nd)" using assms(1) by (simp add: run_inv_def same_key_def)
  have "run_inv J (nd1\<lparr>nd_vb := (nd_vb nd1)\<lparr>seqNumHighWater := hw\<rparr>\<rparr>) iss"
    using enc assms(3,4) by (intro publish_inv [OF p(1) p(4) [OF refl]]) (simp_all add: p(2,3) currentState_def Let_def)
  then show "run_inv J nd2 iss" unfolding nd2_def by (rule push_inv)
  obtain s where "nd_vb nd2 = (nd_vb nd1)\<lparr>seqNumHighWater := hw, vb_Backend := s\<rparr>"
    using push_fields(3) [of B p "nd1\<lparr>nd_vb := (nd_vb nd1)\<lparr>seqNumHighWater := hw\<rparr>\<rparr>"] unfolding nd2_def by auto
  then show "seqNumHighWater (nd_vb nd2) = hw" "SeqNum (nd_vb nd2) = SeqNum (nd_vb nd)" "VolumeUUID (nd_vb nd2) = VolumeUUID (nd_vb nd)"
    by (simp_all add: p(2))
qed

lemma mint_cases:
  assumes "uuid \<noteq> [0, 0, 0, 0]"
  obtains m u where "mintVolumeUUID (Inr uuid) vb = (Inr m, vb\<lparr>VolumeUUID := u\<rparr>)" "u \<noteq> [0, 0, 0, 0]"
    "m \<longleftrightarrow> VolumeUUID vb = [0, 0, 0, 0]" "VolumeUUID vb \<noteq> [0, 0, 0, 0] \<longrightarrow> u = VolumeUUID vb"
proof (cases "VolumeUUID vb = [0, 0, 0, 0]")
  case True
  then show ?thesis using assms by (intro that [of True uuid]) (simp_all add: mintVolumeUUID_def)
next
  case False
  then show ?thesis by (intro that [of False "VolumeUUID vb"]) (simp_all add: mintVolumeUUID_def)
qed

lemma reserve_inv:
  assumes "run_inv J nd iss" "reserveSeqNum B J os (Inr uuid) n nd = (r, nd')" "uuid \<noteq> [0, 0, 0, 0]"
    "unat (SeqNum (nd_vb nd)) + unat n < 2 ^ 64"
  shows "run_inv J nd' iss" "r = Inr start \<Longrightarrow> run_inv J nd' (iss @ issuedBy start n)"
    "r = Inl e \<Longrightarrow> run_inv J (nd'\<lparr>nd_config := nd_config nd\<rparr>) iss"
proof -
  let ?s = "SeqNum (nd_vb nd)" and ?hw = "seqNumHighWater (nd_vb nd)"
  let ?nd = "nd\<lparr>nd_vb := (nd_vb nd)\<lparr>SeqNum := ?s + n\<rparr>\<rparr>"
  have enc: "EncryptionEnabled (nd_vb nd)" using assms(1) by (simp add: run_inv_def same_key_def)
  have grow: "?s \<le> ?s + n" using assms(4) by (simp add: word_le_nat_alt unat_plus_nowrap)
  have base: "run_inv J ?nd iss" by (rule run_inv_mono [OF assms(1)]) (simp_all add: grow)
  have "run_inv J nd' iss \<and> (\<forall>start. r = Inr start \<longrightarrow> run_inv J nd' (iss @ issuedBy start n)) \<and>
    (\<forall>e. r = Inl e \<longrightarrow> run_inv J (nd'\<lparr>nd_config := nd_config nd\<rparr>) iss)"
  proof (cases "MaxSeqNum < ?s + n \<or> ?s + n \<le> ?hw")
    case True
    then have "nd' = ?nd \<and> (r = Inl ErrSeqNumLimit \<or> r = Inr ?s \<and> ?s + n \<le> ?hw \<and> ?s + n \<le> MaxSeqNum)"
      using assms(2) enc by (auto simp: reserveSeqNum_def Let_def split: if_splits)
    then show ?thesis using base issue_inv [OF assms(1,4) _ base] by auto
  next
    case False
    then have le: "?s + n \<le> MaxSeqNum" by (simp add: not_less)
    obtain hw where hw: "raiseHighWater (?s + n) ?hw = Some hw" "?s + n \<le> hw" "?hw \<le> hw" using raiseHighWater_reaches [OF le] by blast
    obtain m u where m: "mintVolumeUUID (Inr uuid) (nd_vb ?nd) = (Inr m, (nd_vb ?nd)\<lparr>VolumeUUID := u\<rparr>)" "u \<noteq> [0, 0, 0, 0]"
      "m \<longleftrightarrow> VolumeUUID (nd_vb ?nd) = [0, 0, 0, 0]" "VolumeUUID (nd_vb ?nd) \<noteq> [0, 0, 0, 0] \<longrightarrow> u = VolumeUUID (nd_vb ?nd)"
      by (rule mint_cases [OF assms(3)])
    define nd1 where "nd1 = nd\<lparr>nd_vb := (nd_vb nd)\<lparr>SeqNum := ?s + n, VolumeUUID := u\<rparr>\<rparr>"
    have inv1: "run_inv J nd1 iss" unfolding nd1_def using m(4) grow by (intro run_inv_mono [OF assms(1)]) simp_all
    have f1: "seqNumHighWater (nd_vb nd1) \<le> hw" "VolumeUUID (nd_vb nd1) \<noteq> [0, 0, 0, 0]" "SeqNum (nd_vb nd1) = ?s + n"
      using m(2) hw(3) by (simp_all add: nd1_def)
    obtain rp nd2 where p: "persistStateLocal J os hw nd1 = (rp, nd2)" by fastforce
    have res: "(r, nd') = (case rp of Inl e \<Rightarrow> (Inl e, nd2)
       | Inr b \<Rightarrow> (Inr ?s, snd (pushStateToBackend B b (nd2\<lparr>nd_vb := (nd_vb nd2)\<lparr>seqNumHighWater := hw\<rparr>\<rparr>))))"
      using assms(2) enc False hw(1) m(1) p by (simp add: reserveSeqNum_def Let_def nd1_def split: sum.splits)
    note pi = persist_inv [OF inv1 p f1(1,2)]
    show ?thesis
    proof (cases rp)
      case (Inl e)
      have "run_inv J (nd2\<lparr>nd_config := nd_config nd\<rparr>) iss"
        by (rule run_inv_mono [OF inv1]) (simp_all add: pi(2,3) nd1_def)
      then show ?thesis using res Inl pi(1) by simp
    next
      case (Inr b)
      note ri = raise_inv [OF inv1 p [unfolded Inr] f1(1,2), of B]
      have "run_inv J nd' iss" "SeqNum (nd_vb nd') = ?s + n" "?s + n \<le> seqNumHighWater (nd_vb nd')" "r = Inr ?s"
        using res Inr ri f1(3) hw(2) by simp_all
      then show ?thesis using issue_inv [OF assms(1,4) le] by simp
    qed
  qed
  then show "run_inv J nd' iss" "r = Inr start \<Longrightarrow> run_inv J nd' (iss @ issuedBy start n)"
    "r = Inl e \<Longrightarrow> run_inv J (nd'\<lparr>nd_config := nd_config nd\<rparr>) iss" by blast+
qed

lemma saveWith_inv:
  assumes "run_inv J nd iss" "saveStateWithHighWater B J os (seqNumHighWater (nd_vb nd)) nd = (e, nd')" "VolumeUUID (nd_vb nd) \<noteq> [0, 0, 0, 0]"
  shows "run_inv J nd' iss"
proof -
  obtain rp nd1 where p: "persistStateLocal J os (seqNumHighWater (nd_vb nd)) nd = (rp, nd1)" by fastforce
  note pi = persist_inv [OF assms(1) p order_refl assms(3)]
  show ?thesis
  proof (cases rp)
    case (Inr b)
    then have "nd' = snd (pushStateToBackend B b nd1)" using assms(2) p by (simp add: saveStateWithHighWater_def)
    then show ?thesis using push_inv [OF pi(1)] by simp
  qed (use assms(2) p pi(1) in \<open>simp add: saveStateWithHighWater_def\<close>)
qed

lemma save_inv:
  assumes "run_inv J nd iss" "SaveState B J os (Inr uuid) nd = (e, nd')" "uuid \<noteq> [0, 0, 0, 0]"
  shows "run_inv J nd' iss"
proof -
  have enc: "EncryptionEnabled (nd_vb nd)" using assms(1) by (simp add: run_inv_def same_key_def)
  obtain m u where m: "mintVolumeUUID (Inr uuid) (nd_vb nd) = (Inr m, (nd_vb nd)\<lparr>VolumeUUID := u\<rparr>)" "u \<noteq> [0, 0, 0, 0]"
    "m \<longleftrightarrow> VolumeUUID (nd_vb nd) = [0, 0, 0, 0]" "VolumeUUID (nd_vb nd) \<noteq> [0, 0, 0, 0] \<longrightarrow> u = VolumeUUID (nd_vb nd)"
    by (rule mint_cases [OF assms(3)])
  show ?thesis
  proof (cases m)
    case True
    let ?nd = "nd\<lparr>nd_vb := (nd_vb nd)\<lparr>VolumeUUID := u, seqNumHighWater := seqNumReservation\<rparr>\<rparr>"
    have "same_key ?nd ?nd = same_key nd nd" "sealedState J ?nd = sealedState J nd" by (rule same_key_cong; simp)+
    then have "run_inv J ?nd iss" using assms(1) m(2,3) True by (auto simp: run_inv_def)
    moreover have "saveStateWithHighWater B J os (seqNumHighWater (nd_vb ?nd)) ?nd = (e, nd')"
      using assms(2) enc m True by (simp add: SaveState_def Let_def)
    ultimately show ?thesis using saveWith_inv [of J ?nd iss B os e nd'] m(2) by simp
  next
    case False
    then have "saveStateWithHighWater B J os (seqNumHighWater (nd_vb nd)) nd = (e, nd')"
      using assms(2) enc m by (simp add: SaveState_def Let_def)
    then show ?thesis using saveWith_inv [OF assms(1)] m False by simp
  qed
qed

text \<open>Restoring the base map of a clone touches only the fields that describe the base.\<close>

lemma OpenFromSnapshot_frame:
  assumes "OpenFromSnapshot B env SJ sid vb = (e, vb')"
  shows "SeqNum vb' = SeqNum vb" "seqNumHighWater vb' = seqNumHighWater vb" "EncryptionEnabled vb' = EncryptionEnabled vb"
    "vb_aead vb' = vb_aead vb" "volumeNameHash vb' = volumeNameHash vb" "vb_Backend vb' = vb_Backend vb"
  using assms by (auto simp: OpenFromSnapshot_def split: sum.splits prod.splits if_splits)

lemma restoreBase_frame:
  assumes "restoreBase B env SJ st nd = (e, nd')"
  shows "EncryptionEnabled (nd_vb nd') = EncryptionEnabled (nd_vb nd)" "vb_aead (nd_vb nd') = vb_aead (nd_vb nd)"
    "volumeNameHash (nd_vb nd') = volumeNameHash (nd_vb nd)" "nd_Fingerprint nd' = nd_Fingerprint nd" "nd_config nd' = nd_config nd"
    "vb_Backend (nd_vb nd') = vb_Backend (nd_vb nd)"
  using assms OpenFromSnapshot_frame [of B env SJ "st_SnapshotID st" "nd_vb nd"]
  by (auto simp: restoreBase_def split: if_splits prod.splits)

lemma installState_frame:
  "EncryptionEnabled (nd_vb (installState st nd)) = EncryptionEnabled (nd_vb nd)" "vb_aead (nd_vb (installState st nd)) = vb_aead (nd_vb nd)"
  "volumeNameHash (nd_vb (installState st nd)) = volumeNameHash (nd_vb nd)" "nd_Fingerprint (installState st nd) = nd_Fingerprint nd"
  "nd_config (installState st nd) = nd_config nd" "vb_Backend (nd_vb (installState st nd)) = vb_Backend (nd_vb nd)"
  by (simp_all add: installState_def Let_def)

lemma reconcileSize_frame [simp]:
  "st_SeqNumHighWater (reconcileSize st) = st_SeqNumHighWater st" "st_VolumeUUID (reconcileSize st) = st_VolumeUUID st"
  "st_SnapshotID (reconcileSize st) = st_SnapshotID st" "st_StateSeqNum (reconcileSize st) = st_StateSeqNum st"
  by (simp_all add: reconcileSize_def Let_def)

text \<open>A successful load of an encrypted volume resumes from the high-water mark of the chosen copy.\<close>

lemma LoadState_resumes:
  assumes "LoadState B env J SJ os nd0 = (None, nd')" "EncryptionEnabled (nd_vb nd0)"
    "chooseState (LoadStateRequest env J (localBlob nd0) nd0) (LoadStateRequest env J (backendBlob B nd0) nd0) = st"
  obtains nd1 where "nd_config nd1 = nd_config nd0" "nd_Fingerprint nd1 = nd_Fingerprint nd0" "EncryptionEnabled (nd_vb nd1)"
    "vb_aead (nd_vb nd1) = vb_aead (nd_vb nd0)" "volumeNameHash (nd_vb nd1) = volumeNameHash (nd_vb nd0)" "vb_Backend (nd_vb nd1) = vb_Backend (nd_vb nd0)"
    "SeqNum (nd_vb nd1) = st_SeqNumHighWater st" "seqNumHighWater (nd_vb nd1) = st_SeqNumHighWater st" "VolumeUUID (nd_vb nd1) = st_VolumeUUID st"
    "bumpSeqNumHighWater B J os nd1 = (None, nd')"
proof -
  let ?st = "reconcileSize st"
  obtain e nd2 where r: "restoreBase B env SJ ?st (installState ?st nd0) = (e, nd2)" by fastforce
  note fr = restoreBase_frame [OF r, unfolded installState_frame]
  let ?nd = "nd2\<lparr>nd_vb := (nd_vb nd2)\<lparr>VolumeUUID := st_VolumeUUID ?st, SeqNum := st_SeqNumHighWater ?st, seqNumHighWater := st_SeqNumHighWater ?st\<rparr>\<rparr>"
  have "e = None \<and> bumpSeqNumHighWater B J os ?nd = (None, nd')"
    using assms r fr(1) by (auto simp: LoadState_def Let_def split: if_splits sum.splits option.splits)
  then show ?thesis using fr assms(2) by (intro that [of ?nd]) simp_all
qed

lemma reservation_grows:
  assumes "1048576 \<le> unat (x + seqNumReservation)"
  shows "x \<le> x + seqNumReservation"
proof (cases "unat x + 1048576 < 18446744073709551616")
  case True
  then show ?thesis by (simp add: seqNumReservation_def word_le_nat_alt unat_plus_nowrap)
next
  case False
  have "unat (x + seqNumReservation) = (unat x + 1048576) mod 18446744073709551616"
    by (simp add: seqNumReservation_def unat_word_ariths)
  also have "\<dots> = unat x + 1048576 - 18446744073709551616"
    using False unat_less_2p64 [of x] by (subst le_mod_geq) (simp_all del: unat_less_2p64)
  also have "\<dots> < 1048576" using unat_less_2p64 [of x] by linarith
  finally show ?thesis using assms by simp
qed

lemma restart_inv:
  assumes "run_inv J nd iss" "state_codec json env J" "restarts B env J nd nd0" "LoadState B env J SJ os nd0 = (None, nd')"
    "1048576 \<le> unat (seqNumHighWater (nd_vb nd'))"
  shows "run_inv J nd' iss"
proof -
  obtain blob where k: "same_key nd nd0" "nd_config nd0 = nd_config nd" "nd_readable nd0" and blob: "nd_config nd = Some blob"
    using assms(3) by (auto simp: restarts_def)
  obtain st where st: "blob = sealedState J nd st" "st_KeyFingerprint st = nd_Fingerprint nd"
    "seqNumHighWater (nd_vb nd) \<le> st_SeqNumHighWater st" "st_VolumeUUID st \<noteq> [0, 0, 0, 0]"
    using assms(1) blob by (auto simp: run_inv_def)
  have enc: "EncryptionEnabled (nd_vb nd0)" using k(1) by (simp add: same_key_def)
  have loc: "LoadStateRequest env J (localBlob nd0) nd0 = Inr st"
    using sealed_loads [OF assms(2) k(1) st(2)] k(2,3) blob st(1) by (simp add: localBlob_def)
  have ch: "chooseState (LoadStateRequest env J (localBlob nd0) nd0) (LoadStateRequest env J (backendBlob B nd0) nd0) = st"
    using assms(3) by (auto simp: chooseState_def restarts_def loc zeroState_def split: sum.splits)
  obtain nd1 where n1: "nd_config nd1 = nd_config nd0" "nd_Fingerprint nd1 = nd_Fingerprint nd0" "EncryptionEnabled (nd_vb nd1)"
    "vb_aead (nd_vb nd1) = vb_aead (nd_vb nd0)" "volumeNameHash (nd_vb nd1) = volumeNameHash (nd_vb nd0)" "vb_Backend (nd_vb nd1) = vb_Backend (nd_vb nd0)"
    "SeqNum (nd_vb nd1) = st_SeqNumHighWater st" "seqNumHighWater (nd_vb nd1) = st_SeqNumHighWater st" "VolumeUUID (nd_vb nd1) = st_VolumeUUID st"
    "bumpSeqNumHighWater B J os nd1 = (None, nd')" by (rule LoadState_resumes [OF assms(4) enc ch])
  have sk: "EncryptionEnabled (nd_vb nd1) = EncryptionEnabled (nd_vb nd)" "vb_aead (nd_vb nd1) = vb_aead (nd_vb nd)"
    "volumeNameHash (nd_vb nd1) = volumeNameHash (nd_vb nd)" "nd_Fingerprint nd1 = nd_Fingerprint nd"
    using k(1) n1(2-5) by (simp_all add: same_key_def)
  note c = same_key_cong [OF sk]
  have "q \<le> st_SeqNumHighWater st \<and> q \<le> MaxSeqNum" if "q \<in> set iss" for q
    using assms(1) st(3) that unfolding run_inv_def by (meson order_trans)
  then have inv1: "run_inv J nd1 iss" using assms(1) st n1(1,7-9) k(2) blob sk(4) unfolding run_inv_def c by auto
  let ?hw = "st_SeqNumHighWater st + seqNumReservation"
  obtain p nd2 where p: "persistStateLocal J os ?hw nd1 = (Inr p, nd2)"
    "nd' = snd (pushStateToBackend B p (nd2\<lparr>nd_vb := (nd_vb nd2)\<lparr>seqNumHighWater := ?hw\<rparr>\<rparr>))"
    using n1(8,10) by (auto simp: bumpSeqNumHighWater_def Let_def split: prod.splits sum.splits)
  have "seqNumHighWater (nd_vb nd') = ?hw" using push_fields(3) [of B p "nd2\<lparr>nd_vb := (nd_vb nd2)\<lparr>seqNumHighWater := ?hw\<rparr>\<rparr>"] p(2) by auto
  then have "st_SeqNumHighWater st \<le> ?hw" using assms(5) by (intro reservation_grows) simp
  then have "seqNumHighWater (nd_vb nd1) \<le> ?hw" "VolumeUUID (nd_vb nd1) \<noteq> [0, 0, 0, 0]" using n1(8,9) st(4) by simp_all
  from raise_inv(1) [OF inv1 p(1) this] show ?thesis using p(2) by simp
qed

lemma run_invariant:
  assumes "state_codec json env J" "volume_run B env J SJ nd iss"
  shows "run_inv J nd iss"
  using assms(2)
proof (induction rule: volume_run.induct)
  case (created nd)
  then show ?case by (simp add: run_inv_def)
next
  case (reserve nd iss os uuid n start nd')
  then show ?case using reserve_inv(2) by blast
next
  case (reserve_fails nd iss os uuid n e nd')
  then show ?case using reserve_inv(1) by blast
next
  case (save nd iss os uuid e nd')
  then show ?case using save_inv by blast
next
  case (unsynced nd iss os uuid n nd')
  then show ?case using reserve_inv(3) by blast
next
  case (restart nd iss nd0 os nd')
  then show ?case using restart_inv [OF _ assms(1)] by blast
qed

text \<open>
  C3. No nonce is ever used twice.  In every run of an encrypted volume - reservations, saves and
  crashes with restarts in any order, each system call succeeding or failing - the sequence numbers
  handed out give distinct nonces, in whichever domain they are used.  Saves and reservations of a run
  follow one another; what happens when they overlap is stated below.\<close>

theorem nonces_never_repeat:
  assumes "state_codec json env J" "volume_run B env J SJ nd iss" "length u = 4"
  shows "distinct (map (\<lambda>q. makeNonce q u d) iss)"
proof -
  have inv: "distinct iss" "\<forall>q \<in> set iss. q \<le> MaxSeqNum"
    using run_invariant [OF assms(1,2)] by (simp_all add: run_inv_def)
  then have "inj_on (\<lambda>q. makeNonce q u d) (set iss)"
    using makeNonce_inj [OF _ _ assms(3,3)] by (auto simp: inj_on_def)
  then show ?thesis using inv(1) by (simp add: distinct_map)
qed

section \<open>How a number can be issued twice\<close>

lemma restart_resumes:
  assumes "state_codec json env J" "restarts B env J nd nd0" "LoadState B env J SJ os nd0 = (None, nd')"
    "nd_config nd = Some (sealedState J nd st)" "st_KeyFingerprint st = nd_Fingerprint nd"
  shows "SeqNum (nd_vb nd') = st_SeqNumHighWater st" "seqNumHighWater (nd_vb nd') = st_SeqNumHighWater st + seqNumReservation"
    "EncryptionEnabled (nd_vb nd')"
proof -
  have k: "same_key nd nd0" "nd_config nd0 = nd_config nd" "nd_readable nd0" using assms(2) by (auto simp: restarts_def)
  have enc: "EncryptionEnabled (nd_vb nd0)" using k(1) by (simp add: same_key_def)
  have loc: "LoadStateRequest env J (localBlob nd0) nd0 = Inr st"
    using sealed_loads [OF assms(1) k(1) assms(5)] k(2,3) assms(4) by (simp add: localBlob_def)
  have ch: "chooseState (LoadStateRequest env J (localBlob nd0) nd0) (LoadStateRequest env J (backendBlob B nd0) nd0) = st"
    using assms(2) by (auto simp: chooseState_def restarts_def loc zeroState_def split: sum.splits)
  obtain nd1 where n1: "EncryptionEnabled (nd_vb nd1)" "SeqNum (nd_vb nd1) = st_SeqNumHighWater st" "seqNumHighWater (nd_vb nd1) = st_SeqNumHighWater st"
    "bumpSeqNumHighWater B J os nd1 = (None, nd')" using LoadState_resumes [OF assms(3) enc ch] by metis
  let ?hw = "st_SeqNumHighWater st + seqNumReservation"
  obtain p nd2 where p: "persistStateLocal J os ?hw nd1 = (Inr p, nd2)"
    "nd' = snd (pushStateToBackend B p (nd2\<lparr>nd_vb := (nd_vb nd2)\<lparr>seqNumHighWater := ?hw\<rparr>\<rparr>))"
    using n1(3,4) by (auto simp: bumpSeqNumHighWater_def Let_def split: prod.splits sum.splits)
  have nd2: "nd_vb nd2 = (nd_vb nd1)\<lparr>nextStateSeqNum := nextStateSeqNum (nd_vb nd1) + 1\<rparr>"
    using arg_cong [OF persistStateLocal_cases(1) [OF p(1)], of nd_vb] by simp
  obtain s where s: "nd_vb nd' = (nd_vb nd2)\<lparr>seqNumHighWater := ?hw, vb_Backend := s\<rparr>"
    using push_fields(3) [of B p "nd2\<lparr>nd_vb := (nd_vb nd2)\<lparr>seqNumHighWater := ?hw\<rparr>\<rparr>"] p(2) by auto
  show "SeqNum (nd_vb nd') = st_SeqNumHighWater st" "seqNumHighWater (nd_vb nd') = ?hw" "EncryptionEnabled (nd_vb nd')"
    using n1 by (simp_all add: s nd2)
qed

lemma saved_config:
  assumes "saveStateWithHighWater B J os hw nd = (r, nd')" "r = None \<or> (\<exists>be. r = Some (ErrStateBackend be))" "EncryptionEnabled (nd_vb nd')"
  shows "nd_config nd' = Some (sealedState J nd' (currentState hw nd))" "st_KeyFingerprint (currentState hw nd) = nd_Fingerprint nd'"
proof -
  obtain p nd1 where p: "persistStateLocal J os hw nd = (Inr p, nd1)" "nd' = snd (pushStateToBackend B p nd1)"
    using assms(1,2) persistStateLocal_cases(2) [of J os hw nd]
    by (fastforce simp: saveStateWithHighWater_def split: prod.splits sum.splits)
  note c = persistStateLocal_cases [OF p(1)]
  obtain s where s: "nd_vb nd' = (nd_vb nd1)\<lparr>vb_Backend := s\<rparr>" using push_fields(3) [of B p nd1] p(2) by auto
  have f: "nd_vb nd1 = (nd_vb nd)\<lparr>nextStateSeqNum := nextStateSeqNum (nd_vb nd) + 1\<rparr>" "nd_Fingerprint nd1 = nd_Fingerprint nd"
    using arg_cong [OF c(1), of nd_Fingerprint] arg_cong [OF c(1), of nd_vb] by simp_all
  have n: "nd_config nd' = nd_config nd1" "nd_Fingerprint nd' = nd_Fingerprint nd1" using push_fields(1,2) p(2) by simp_all
  have enc: "EncryptionEnabled (nd_vb nd)" using assms(3) by (simp add: s f)
  have "sealedState J nd' = sealedState J nd" by (rule same_key_cong) (simp_all add: s f n)
  then show "nd_config nd' = Some (sealedState J nd' (currentState hw nd))" using c(2) n sealState_sealed [OF enc] by auto
  show "st_KeyFingerprint (currentState hw nd) = nd_Fingerprint nd'" using enc n f by (simp add: currentState_def Let_def)
qed

lemma issuedBy_mem:
  assumes "unat start + unat n < 2 ^ 64" "start < q" "q \<le> start + n"
  shows "q \<in> set (issuedBy start n)"
proof -
  let ?i = "unat q - unat start - 1"
  have lt: "unat start < unat q" "unat q \<le> unat start + unat n"
    using assms by (simp_all add: word_less_nat_alt word_le_nat_alt unat_plus_nowrap)
  then have "Suc ?i = unat q - unat start" "?i < unat n" by linarith+
  moreover have "start + of_nat (unat q - unat start) = q" using lt by (simp add: of_nat_diff)
  ultimately show ?thesis by (auto simp: issuedBy_def simp del: of_nat_Suc intro!: image_eqI [where x = ?i])
qed

text \<open>
  C35. A save that overlaps a reservation loses the durable mark.  \<open>SaveState\<close> reads the mark before it takes
  the lock under which the state is written.  If a reservation raises and persists the mark in between,
  the save writes the old mark as the newer generation; after a crash the volume resumes from the old
  mark and hands out a number the reservation had already issued.\<close>

theorem save_race_reissues:
  assumes "state_codec json env J" "reserveSeqNum B J os rnd n nd = (Inr start, nd1)"
    "saveStateWithHighWater B J os1 (seqNumHighWater (nd_vb nd)) nd1 = (r, nd2)" "r = None \<or> (\<exists>be. r = Some (ErrStateBackend be))"
    "restarts B env J nd2 nd0" "LoadState B env J SJ os2 nd0 = (None, nd3)"
    "start \<le> seqNumHighWater (nd_vb nd)" "seqNumHighWater (nd_vb nd) < start + n" "start + n \<le> MaxSeqNum" "unat start + unat n < 2 ^ 64"
  shows "fst (reserveSeqNum B J os3 rnd3 1 nd3) = Inr (seqNumHighWater (nd_vb nd)) \<and>
    set (issuedBy (seqNumHighWater (nd_vb nd)) 1) \<subseteq> set (issuedBy start n)"
proof -
  define hw where "hw = seqNumHighWater (nd_vb nd)"
  have lt: "unat hw < 72057594037927935"
    using assms(8,9) by (simp add: hw_def [symmetric] MaxSeqNum_def word_less_nat_alt word_le_nat_alt)
  have "EncryptionEnabled (nd_vb nd2)" using assms(5) by (simp add: restarts_def same_key_def)
  note s = saved_config [OF assms(3,4) this]
  have "st_SeqNumHighWater (currentState hw nd1) = hw" by (simp add: currentState_def Let_def)
  then have r: "SeqNum (nd_vb nd3) = hw" "seqNumHighWater (nd_vb nd3) = hw + seqNumReservation" "EncryptionEnabled (nd_vb nd3)"
    using restart_resumes [OF assms(1,5,6) s] by (simp_all add: hw_def)
  have one: "unat (hw + 1) = unat hw + 1" "unat (hw + seqNumReservation) = unat hw + 1048576"
    using lt by (simp_all add: seqNumReservation_def unat_plus_nowrap)
  have le: "hw + 1 \<le> MaxSeqNum" "hw + 1 \<le> hw + seqNumReservation"
    unfolding word_le_nat_alt one using lt by (simp_all add: MaxSeqNum_def)
  have "hw + 1 \<in> set (issuedBy start n)"
  proof (rule issuedBy_mem [OF assms(10)])
    show "start < hw + 1" "hw + 1 \<le> start + n"
      using assms(7,8) one(1) by (simp_all add: hw_def [symmetric] word_less_nat_alt word_le_nat_alt)
  qed
  moreover have "set (issuedBy hw 1) = {hw + 1}" by (simp add: issuedBy_def)
  ultimately show ?thesis using r le by (simp add: hw_def [symmetric] reserveSeqNum_def Let_def)
qed

section \<open>A concrete volume\<close>

text \<open>A stand-in for the JSON text of the state: each field after its length in unary.\<close>

definition encodeFields :: "bytes list \<Rightarrow> bytes" where
  "encodeFields fs = concat (map (\<lambda>f. replicate (length f) 1 @ 0 # f) fs)"

primrec decodeFields :: "nat \<Rightarrow> bytes \<Rightarrow> bytes list" where
  "decodeFields 0 data = []"
| "decodeFields (Suc n) data =
     (let k = length (takeWhile (\<lambda>b. b = 1) data) in take k (drop (Suc k) data) # decodeFields n (drop (Suc (2 * k)) data))"

lemma decodeFields_encode: "decodeFields (length fs) (encodeFields fs) = fs"
proof (induction fs)
  case (Cons f fs)
  have "length (takeWhile (\<lambda>b. b = 1) (encodeFields (f # fs))) = length f"
    by (simp add: encodeFields_def takeWhile_append)
  moreover have "drop (Suc (2 * length f)) (encodeFields (f # fs)) = encodeFields fs" "take (length f) (drop (Suc (length f)) (encodeFields (f # fs))) = f"
    by (simp_all add: encodeFields_def)
  ultimately show ?case using Cons by (simp add: Let_def)
qed (simp add: encodeFields_def)

definition flag :: "bool \<Rightarrow> bytes" where
  "flag b = (if b then [1] else [])"

definition stateFields :: "VBState \<Rightarrow> bytes list" where
  "stateFields st = [stringBytes (st_VolumeName st), PutUint64 (st_VolumeSize st), PutUint32 (st_BlockSize st),
     PutUint32 (st_ObjBlockSize st), PutUint64 (st_SeqNum st), PutUint64 (st_ObjectNum st), PutUint64 (st_WALNum st),
     PutUint64 (st_BlockToObjectWALNum st), PutUint16 (st_Version st), PutUint64 (vc_SizeGiB (st_VolumeConfig st)),
     stringBytes (vc_metadata (st_VolumeConfig st)), flag (st_ShardedWAL st), stringBytes (st_SnapshotID st),
     stringBytes (st_SourceVolumeName st), flag (st_EncryptionEnabled st), st_VolumeUUID st, PutUint64 (st_SeqNumHighWater st),
     PutUint64 (st_StateSeqNum st), stringBytes (st_KeyFingerprint st)]"

definition fieldsState :: "bytes list \<Rightarrow> VBState" where
  "fieldsState fs = \<lparr>st_VolumeName = bytesString (fs ! 0), st_VolumeSize = GetUint64 (fs ! 1), st_BlockSize = GetUint32 (fs ! 2),
     st_ObjBlockSize = GetUint32 (fs ! 3), st_SeqNum = GetUint64 (fs ! 4), st_ObjectNum = GetUint64 (fs ! 5), st_WALNum = GetUint64 (fs ! 6),
     st_BlockToObjectWALNum = GetUint64 (fs ! 7), st_Version = GetUint16 (fs ! 8),
     st_VolumeConfig = \<lparr>vc_SizeGiB = GetUint64 (fs ! 9), vc_metadata = bytesString (fs ! 10)\<rparr>,
     st_ShardedWAL = (fs ! 11 \<noteq> []), st_SnapshotID = bytesString (fs ! 12), st_SourceVolumeName = bytesString (fs ! 13),
     st_EncryptionEnabled = (fs ! 14 \<noteq> []), st_VolumeUUID = fs ! 15, st_SeqNumHighWater = GetUint64 (fs ! 16),
     st_StateSeqNum = GetUint64 (fs ! 17), st_KeyFingerprint = bytesString (fs ! 18)\<rparr>"

definition demoCodec :: "VBState JsonCodec" where
  "demoCodec = \<lparr>js_Marshal = (\<lambda>st. encodeFields (stateFields st)), js_Unmarshal = (\<lambda>d. Some (fieldsState (decodeFields 19 d)))\<rparr>"

lemma demoCodec_ok: "state_codec (\<lambda>p. p \<noteq> []) demoEnv demoCodec"
proof -
  have len: "length (stateFields st) = 19" for st by (simp add: stateFields_def)
  have "fieldsState (stateFields st) = st" for st by (simp add: fieldsState_def stateFields_def flag_def)
  then have dec: "fieldsState (decodeFields 19 (encodeFields (stateFields st))) = st" for st
    using decodeFields_encode [of "stateFields st"] by (simp only: len)
  have hd: "hd (encodeFields (stateFields st)) \<in> {0, 1}" "encodeFields (stateFields st) \<noteq> []" for st
    by (cases "st_VolumeName st"; simp add: stateFields_def encodeFields_def stringBytes_def)+
  have "demoEnv (encodeFields (stateFields st)) = None" for st
  proof -
    have "hd (take 17 (envelopeText [] [])) = 123" by (simp add: envelopeText_def stringBytes_def)
    then have "hd (take 17 (encodeFields (stateFields st))) \<noteq> hd (take 17 (envelopeText [] []))" using hd(1) [of st] by auto
    then have "take 17 (encodeFields (stateFields st)) \<noteq> take 17 (envelopeText [] [])" by (rule contrapos_nn) (rule arg_cong)
    then show ?thesis by (simp add: demoEnv_def Let_def)
  qed
  then show ?thesis using dec hd(2) demoEnv_ok by (simp add: state_codec_def codec_ok_def demoCodec_def StateBody_def)
qed

text \<open>A backend that is never reachable.\<close>

definition deadBackend :: "unit Backend" where
  "deadBackend = \<lparr>be_Read = (\<lambda>s ft i off len. Inl BOther), be_Write = (\<lambda>ft i h d s. (Some BOther, s)),
     be_ReadFrom = (\<lambda>s v ft i off len. Inl BOther), be_WriteTo = (\<lambda>v ft i h d s. (Some BOther, s)),
     be_Delete = (\<lambda>ft i s. (Some BOther, s)), be_ListPrefixes = (\<lambda>s p. Inl BOther), be_ListObjects = (\<lambda>s p. Inl BOther)\<rparr>"

definition allOk :: AtomicOs where
  "allOk = \<lparr>ao_mkdirOk = True, ao_openOk = True, ao_writeOk = True, ao_syncOk = True, ao_closeOk = True, ao_renameOk = True, ao_dirSyncOk = True\<rparr>"

definition demoSnapCodec :: "SnapshotState JsonCodec" where
  "demoSnapCodec = \<lparr>js_Marshal = (\<lambda>s. []), js_Unmarshal = (\<lambda>d. None)\<rparr>"

definition demoNode :: "(unit, unit) Node" where
  "demoNode = \<lparr>nd_vb = (demoVB True ())\<lparr>VolumeUUID := [0, 0, 0, 0]\<rparr>, nd_config = None, nd_readable = True,
     nd_VolumeConfig = \<lparr>vc_SizeGiB = 0, vc_metadata = []\<rparr>, nd_Fingerprint = ''k''\<rparr>"

lemma demo_persist:
  "persistStateLocal J allOk hw nd =
     (Inr (sealState J (nd_vb nd) (currentState hw nd)),
      nd\<lparr>nd_vb := (nd_vb nd)\<lparr>nextStateSeqNum := nextStateSeqNum (nd_vb nd) + 1\<rparr>, nd_config := Some (sealState J (nd_vb nd) (currentState hw nd))\<rparr>)"
  by (simp add: persistStateLocal_def writeFileAtomic_def allOk_def Let_def)

lemma demo_push: "pushStateToBackend deadBackend p nd = (Some (ErrStateBackend BOther), nd)"
  by (simp add: pushStateToBackend_def deadBackend_def)

lemma demo_created: "volume_run deadBackend demoEnv J SJ demoNode []"
  by (rule volume_run.created) (simp_all add: demoNode_def demoVB_def same_key_def toyAEAD_ok)

lemma mint_some: "mintVolumeUUID (Inr u) vb = (Inr (VolumeUUID vb = [0, 0, 0, 0]), if VolumeUUID vb = [0, 0, 0, 0] then vb\<lparr>VolumeUUID := u\<rparr> else vb)"
  by (simp add: mintVolumeUUID_def)

lemma reserve_succeeds:
  assumes "SeqNum (nd_vb nd) + n \<le> MaxSeqNum"
  obtains nd' where "reserveSeqNum deadBackend J allOk (Inr u) n nd = (Inr (SeqNum (nd_vb nd)), nd')"
    "BlockSize (nd_vb nd') = BlockSize (nd_vb nd)" "EncryptionEnabled (nd_vb nd') = EncryptionEnabled (nd_vb nd)"
    "vb_aead (nd_vb nd') = vb_aead (nd_vb nd)" "SnapshotID (nd_vb nd') = SnapshotID (nd_vb nd)" "nd_readable nd' = nd_readable nd"
proof -
  obtain hw where hw: "raiseHighWater (SeqNum (nd_vb nd) + n) (seqNumHighWater (nd_vb nd)) = Some hw"
    using raiseHighWater_reaches [OF assms] by blast
  have lim: "\<not> MaxSeqNum < SeqNum (nd_vb nd) + n" using assms by (simp add: not_less)
  define r where "r = reserveSeqNum deadBackend J allOk (Inr u) n nd"
  have "fst r = Inr (SeqNum (nd_vb nd))" "BlockSize (nd_vb (snd r)) = BlockSize (nd_vb nd)" "EncryptionEnabled (nd_vb (snd r)) = EncryptionEnabled (nd_vb nd)"
    "vb_aead (nd_vb (snd r)) = vb_aead (nd_vb nd)" "SnapshotID (nd_vb (snd r)) = SnapshotID (nd_vb nd)" "nd_readable (snd r) = nd_readable nd"
    by (simp_all add: r_def reserveSeqNum_def Let_def mint_some demo_persist demo_push hw lim if_distrib [of nd_vb])
  then show ?thesis by (intro that [of "snd r"]) (simp_all add: r_def [symmetric] prod_eq_iff)
qed

theorem nonces_never_repeat_witness:
  "\<exists>nd :: (unit, unit) Node. volume_run deadBackend demoEnv demoCodec demoSnapCodec nd [1, 2, 3] \<and>
     distinct (map (\<lambda>q. makeNonce q [1, 2, 3, 4] DomainChunk) [1, 2, 3])"
proof -
  have z: "SeqNum (nd_vb demoNode) = 0" by (simp add: demoNode_def demoVB_def)
  then have "SeqNum (nd_vb demoNode) + 3 \<le> MaxSeqNum" by (simp add: MaxSeqNum_def)
  then obtain nd where "reserveSeqNum deadBackend demoCodec allOk (Inr [1, 2, 3, 4]) 3 demoNode = (Inr (SeqNum (nd_vb demoNode)), nd)"
    by (rule reserve_succeeds)
  from volume_run.reserve [OF demo_created this, of demoSnapCodec]
  have run: "volume_run deadBackend demoEnv demoCodec demoSnapCodec nd [1, 2, 3]" by (simp add: issuedBy_def z upt_rec)
  from nonces_never_repeat [OF demoCodec_ok run, of "[1, 2, 3, 4]" DomainChunk] run show ?thesis by (intro exI conjI) simp_all
qed

lemma LoadState_local:
  assumes "LoadStateRequest env J (localBlob nd) nd = Inr st" "st_BlockSize st \<noteq> 0" "EncryptionEnabled (nd_vb nd)" "st_EncryptionEnabled st"
    "st_KeyFingerprint st = nd_Fingerprint nd" "st_SnapshotID st = []"
  shows "\<exists>nd'. LoadState deadBackend env J SJ allOk nd = (None, nd')"
proof -
  have b: "LoadStateRequest env J (backendBlob deadBackend nd) nd = Inl (ErrStateBackend BOther)"
    by (simp add: LoadStateRequest_def backendBlob_def deadBackend_def)
  have r: "st_EncryptionEnabled (reconcileSize st) = st_EncryptionEnabled st" "st_KeyFingerprint (reconcileSize st) = st_KeyFingerprint st"
    by (simp_all add: reconcileSize_def Let_def)
  show ?thesis using assms
    by (simp add: LoadState_def b chooseState_def Let_def restoreBase_def installState_frame bumpSeqNumHighWater_def demo_persist r zeroState_def)
qed

theorem save_race_reissues_witness:
  "\<exists>(nd :: (unit, unit) Node) nd1 nd2 nd3 r. seqNumHighWater (nd_vb nd) = 1048576 \<and>
     reserveSeqNum deadBackend demoCodec allOk (Inr [1, 2, 3, 4]) 10 nd = (Inr 1048570, nd1) \<and>
     saveStateWithHighWater deadBackend demoCodec allOk 1048576 nd1 = (r, nd2) \<and>
     LoadState deadBackend demoEnv demoCodec demoSnapCodec allOk nd2 = (None, nd3) \<and>
     fst (reserveSeqNum deadBackend demoCodec allOk (Inl [0, 0, 0, 0]) 1 nd3) = Inr 1048576 \<and> 1048577 \<in> set (issuedBy 1048570 10)"
proof -
  define nd where "nd = demoNode\<lparr>nd_vb := (nd_vb demoNode)\<lparr>SeqNum := 1048570, seqNumHighWater := 1048576\<rparr>\<rparr>"
  have f: "SeqNum (nd_vb nd) = 1048570" "seqNumHighWater (nd_vb nd) = 1048576" "SnapshotID (nd_vb nd) = []" "BlockSize (nd_vb nd) = 1"
    "EncryptionEnabled (nd_vb nd)" "vb_aead (nd_vb nd) = toyAEAD" "nd_readable nd" by (simp_all add: nd_def demoNode_def demoVB_def)
  have "SeqNum (nd_vb nd) + 10 \<le> MaxSeqNum" using f(1) by (simp add: MaxSeqNum_def)
  then obtain nd1 where r: "reserveSeqNum deadBackend demoCodec allOk (Inr [1, 2, 3, 4]) 10 nd = (Inr (SeqNum (nd_vb nd)), nd1)"
    "BlockSize (nd_vb nd1) = BlockSize (nd_vb nd)" "EncryptionEnabled (nd_vb nd1) = EncryptionEnabled (nd_vb nd)"
    "vb_aead (nd_vb nd1) = vb_aead (nd_vb nd)" "SnapshotID (nd_vb nd1) = SnapshotID (nd_vb nd)" "nd_readable nd1 = nd_readable nd" by (rule reserve_succeeds)
  obtain res nd2 where s: "saveStateWithHighWater deadBackend demoCodec allOk (seqNumHighWater (nd_vb nd)) nd1 = (res, nd2)" by fastforce
  then have s2: "res = Some (ErrStateBackend BOther)" "nd_readable nd2" "EncryptionEnabled (nd_vb nd2)" "vb_aead (nd_vb nd2) = toyAEAD"
    using r f by (auto simp: saveStateWithHighWater_def demo_persist demo_push)
  let ?st = "currentState (seqNumHighWater (nd_vb nd)) nd1"
  have c: "nd_config nd2 = Some (sealedState demoCodec nd2 ?st)" "st_KeyFingerprint ?st = nd_Fingerprint nd2"
    using saved_config [OF s _ s2(3)] s2(1) by simp_all
  have k: "same_key nd2 nd2" using s2 toyAEAD_ok by (simp add: same_key_def)
  have "LoadStateRequest demoEnv demoCodec (localBlob nd2) nd2 = Inr ?st"
    using sealed_loads [OF demoCodec_ok k c(2)] c(1) s2(2) by (simp add: localBlob_def)
  from LoadState_local [OF this] obtain nd3 where l: "LoadState deadBackend demoEnv demoCodec demoSnapCodec allOk nd2 = (None, nd3)"
    using s2(3) c(2) r f by (auto simp: currentState_def Let_def)
  have "restarts deadBackend demoEnv demoCodec nd2 nd2"
    using k c(1) s2(2) by (simp add: restarts_def LoadStateRequest_def backendBlob_def deadBackend_def)
  from save_race_reissues [OF demoCodec_ok r(1) s _ this l, of allOk "Inl [0, 0, 0, 0]"]
  have "fst (reserveSeqNum deadBackend demoCodec allOk (Inl [0, 0, 0, 0]) 1 nd3) = Inr 1048576" "set (issuedBy 1048576 1) \<subseteq> set (issuedBy 1048570 10)"
    using s2(1) by (simp_all add: f MaxSeqNum_def)
  moreover have "1048577 \<in> set (issuedBy 1048576 1)" by (simp add: issuedBy_def)
  ultimately show ?thesis using r(1) s l f(1,2) by (intro exI [of _ nd] exI conjI) (simp_all add: subset_iff)
qed

end
