(* ===== verification/Read.thy ===== *)
theory Read
  imports Snapshot_Map
begin

text \<open>
  The read path of \<open>viperblock.go\<close>: locating the blocks of a request in memory, in the volume's chunks, in
  the base snapshot or in an ancestor layer, coalescing neighbours into runs, fetching and opening the
  runs and assembling the answer.
\<close>

section \<open>Definitions\<close>

record ConsecutiveBlock =
  cb_BlockPosition :: u64
  cb_StartBlock :: u64
  cb_NumBlocks :: u16
  cb_OffsetStart :: u64
  cb_OffsetEnd :: u64
  cb_ObjectID :: u64
  cb_ObjectOffset :: u32
  cb_SeqNum :: u64
  cb_SeqNums :: "u64 list"

datatype ReadError =
    ErrRequestTooLarge
  | ErrRequestOutOfRange
  | ErrRequestBlockSize
  | ErrReadBackend BackendError
  | ErrShortHeader
  | ErrPreEncryptionFormat
  | ErrUnknownMagic
  | ErrShortCiphertext
  | ErrRunLength
  | ErrRunSeqNums
  | ErrChunkIntegrity
  | ErrShortRun
  | ErrSourceEmpty
  | PanicRead

text \<open>\<open>checkChunkMagic\<close>: one look at the header of each chunk, remembered per volume and object.\<close>

definition checkChunkMagic ::
    "(u32 \<Rightarrow> u32 \<Rightarrow> BackendError + bytes) \<Rightarrow> string \<Rightarrow> u64 \<Rightarrow> ('s, 'l) VB \<Rightarrow> ReadError option \<times> ('s, 'l) VB" where
  "checkChunkMagic rd volumeName objectID vb =
     (if \<not> EncryptionEnabled vb then (None, vb)
      else if (volumeName, objectID) \<in> set (chunkMagicChecked vb) then (None, vb)
      else case rd 0 4 of
             Inl e \<Rightarrow> (Some (ErrReadBackend e), vb)
           | Inr header \<Rightarrow>
               if length header < 4 then (Some ErrShortHeader, vb)
               else if take 4 header = ChunkMagic False then (Some ErrPreEncryptionFormat, vb)
               else if take 4 header \<noteq> ChunkMagic True then (Some ErrUnknownMagic, vb)
               else (None, vb\<lparr>chunkMagicChecked := (volumeName, objectID) # chunkMagicChecked vb\<rparr>))"

fun openSlots :: "('s, 'l) VB \<Rightarrow> bytes \<Rightarrow> bytes \<Rightarrow> u64 \<Rightarrow> u64 list \<Rightarrow> bytes \<Rightarrow> ReadError + bytes" where
  "openSlots vb uuid nameHash blockNum [] ciphertext = Inr []"
| "openSlots vb uuid nameHash blockNum (seqNum # seqNums) ciphertext =
     (let sealedStride = unat (BlockSize vb) + 16
      in case aead_Open (vb_aead vb) (makeNonce seqNum uuid DomainChunk) (take sealedStride ciphertext) (chunkAAD nameHash blockNum seqNum) of
           None \<Rightarrow> Inl ErrChunkIntegrity
         | Some p \<Rightarrow>
             (case openSlots vb uuid nameHash (blockNum + 1) seqNums (drop sealedStride ciphertext) of
                Inl e \<Rightarrow> Inl e
              | Inr rest \<Rightarrow> Inr (p @ rest)))"

definition openChunkRun ::
    "bytes \<Rightarrow> ConsecutiveBlock \<Rightarrow> bytes \<Rightarrow> bytes \<Rightarrow> nat \<Rightarrow> ('s, 'l) VB \<Rightarrow> ReadError + bytes" where
  "openChunkRun ciphertext cb uuid nameHash dstLen vb =
     (let bs = unat (BlockSize vb); n = unat (cb_NumBlocks cb)
      in if length ciphertext \<noteq> n * (bs + 16) then Inl ErrShortCiphertext
         else if dstLen \<noteq> n * bs then Inl ErrRunLength
         else if length (cb_SeqNums cb) \<noteq> n then Inl ErrRunSeqNums
         else openSlots vb uuid nameHash (cb_StartBlock cb) (cb_SeqNums cb) ciphertext)"

text \<open>\<open>copy(data[start:end], src)\<close>; a slice out of range panics.\<close>

definition copyRange :: "bytes \<Rightarrow> nat \<Rightarrow> nat \<Rightarrow> bytes \<Rightarrow> bytes option" where
  "copyRange data start end' src =
     (if end' < start \<or> length data < end' then None
      else let k = min (end' - start) (length src) in Some (take start data @ take k src @ drop (start + k) data))"

text \<open>Neighbours in one object become one run.\<close>

fun runCount :: "ConsecutiveBlock \<Rightarrow> ConsecutiveBlock list \<Rightarrow> nat" where
  "runCount c [] = 0"
| "runCount c (d # ds) =
     (if cb_StartBlock d = cb_StartBlock c + 1 \<and> cb_ObjectID d = cb_ObjectID c then Suc (runCount d ds) else 0)"

definition mergeReads :: "bool \<Rightarrow> ConsecutiveBlock \<Rightarrow> ConsecutiveBlock list \<Rightarrow> ConsecutiveBlock" where
  "mergeReads encrypted c ds =
     \<lparr>cb_BlockPosition = cb_BlockPosition c, cb_StartBlock = cb_StartBlock c, cb_NumBlocks = SafeIntToUint16 (int (Suc (length ds))),
      cb_OffsetStart = cb_OffsetStart c, cb_OffsetEnd = cb_OffsetEnd c, cb_ObjectID = cb_ObjectID c, cb_ObjectOffset = cb_ObjectOffset c,
      cb_SeqNum = 0, cb_SeqNums = (if encrypted then map cb_SeqNum (c # ds) else [])\<rparr>"

fun coalesceReads :: "bool \<Rightarrow> u64 list \<Rightarrow> ConsecutiveBlock list \<Rightarrow> ConsecutiveBlock list" where
  "coalesceReads encrypted seen [] = []"
| "coalesceReads encrypted seen (c # cs) =
     (if cb_StartBlock c \<in> set seen then coalesceReads encrypted seen cs
      else let run = take (runCount c cs) cs
           in mergeReads encrypted c run # coalesceReads encrypted (map cb_StartBlock run @ seen) cs)"

text \<open>The plaintext of a fetched run enters the block store, where its block is known there, and the cache.\<close>

definition runBlock :: "('s, 'l) VB \<Rightarrow> bytes \<Rightarrow> nat \<Rightarrow> nat \<Rightarrow> bytes" where
  "runBlock vb data start i = take (unat (BlockSize vb)) (drop (start + i * unat (BlockSize vb)) data)"

definition cacheRun :: "'l LruOps \<Rightarrow> ConsecutiveBlock \<Rightarrow> nat \<Rightarrow> bytes \<Rightarrow> ('s, 'l) VB \<Rightarrow> ('s, 'l) VB" where
  "cacheRun L cb start data vb =
     (let is = [0..<unat (cb_NumBlocks cb)]
      in vb\<lparr>BlockStore := (if UseBlockStore vb
               then fold (\<lambda>i st. snd (UBS_Cache st (cb_StartBlock cb + of_nat i) (runBlock vb data start i))) is (BlockStore vb)
               else BlockStore vb),
            vb_lru := (if CacheSize vb > 0
               then fold (\<lambda>i. lru_Add L (cb_StartBlock cb + of_nat i) (runBlock vb data start i)) is (vb_lru vb)
               else vb_lru vb)\<rparr>)"

definition runStart :: "('s, 'l) VB \<Rightarrow> ConsecutiveBlock \<Rightarrow> u64" where
  "runStart vb cb = cb_BlockPosition cb * ucast (BlockSize vb)"

definition runEndAt :: "('s, 'l) VB \<Rightarrow> ConsecutiveBlock \<Rightarrow> u64" where
  "runEndAt vb cb = runStart vb cb + ucast (cb_NumBlocks cb) * ucast (BlockSize vb)"

text \<open>Placing the bytes of a run into the answer, opened first on an encrypted volume.\<close>

definition placeRun :: "ConsecutiveBlock \<Rightarrow> bytes \<Rightarrow> bytes \<Rightarrow> bytes \<Rightarrow> bytes \<Rightarrow> ('s, 'l) VB \<Rightarrow> ReadError + bytes" where
  "placeRun cb uuid nameHash blockData data vb =
     (let start = unat (runStart vb cb); end' = unat (runEndAt vb cb);
          len = ucast (cb_NumBlocks cb) * blockStride vb;
          place = (\<lambda>p. case copyRange data start end' p of None \<Rightarrow> Inl PanicRead | Some data \<Rightarrow> Inr data)
      in if EncryptionEnabled vb
         then if end' < start \<or> length data < end' then Inl PanicRead
              else case openChunkRun blockData cb uuid nameHash (end' - start) vb of Inl e \<Rightarrow> Inl e | Inr p \<Rightarrow> place p
         else if length blockData \<noteq> unat len then Inl ErrShortRun
         else place blockData)"

definition fetchRun ::
    "'s Backend \<Rightarrow> 'l LruOps \<Rightarrow> ConsecutiveBlock \<Rightarrow> bytes \<Rightarrow> ('s, 'l) VB \<Rightarrow> (ReadError + bytes) \<times> ('s, 'l) VB" where
  "fetchRun B L cb data vb =
     (case checkChunkMagic (be_Read B (vb_Backend vb) FileTypeChunk (cb_ObjectID cb)) (VolumeName vb) (cb_ObjectID cb) vb of
        (Some e, vb) \<Rightarrow> (Inl e, vb)
      | (None, vb) \<Rightarrow>
          (case be_Read B (vb_Backend vb) FileTypeChunk (cb_ObjectID cb) (cb_ObjectOffset cb) (ucast (cb_NumBlocks cb) * blockStride vb) of
             Inl e \<Rightarrow> (Inl (ErrReadBackend e), vb)
           | Inr blockData \<Rightarrow>
               (case placeRun cb (VolumeUUID vb) (volumeNameHash vb) blockData data vb of
                  Inl e \<Rightarrow> (Inl e, vb)
                | Inr data \<Rightarrow> (Inr data, cacheRun L cb (unat (runStart vb cb)) data vb))))"

fun fetchRuns ::
    "'s Backend \<Rightarrow> 'l LruOps \<Rightarrow> ConsecutiveBlock list \<Rightarrow> bytes \<Rightarrow> ('s, 'l) VB \<Rightarrow> (ReadError + bytes) \<times> ('s, 'l) VB" where
  "fetchRuns B L [] data vb = (Inr data, vb)"
| "fetchRuns B L (cb # cbs) data vb =
     (case fetchRun B L cb data vb of (Inl e, vb) \<Rightarrow> (Inl e, vb) | (Inr data, vb) \<Rightarrow> fetchRuns B L cbs data vb)"

definition fetchConsecutiveBlocksFromBackend ::
    "'s Backend \<Rightarrow> 'l LruOps \<Rightarrow> ConsecutiveBlock list \<Rightarrow> bytes \<Rightarrow> ('s, 'l) VB \<Rightarrow> (ReadError + bytes) \<times> ('s, 'l) VB" where
  "fetchConsecutiveBlocksFromBackend B L cbs data vb = fetchRuns B L (coalesceReads (EncryptionEnabled vb) [] cbs) data vb"

text \<open>The same from the chunks of a source volume, under the identity of that volume.\<close>

definition fetchBaseRun ::
    "'s Backend \<Rightarrow> 'l LruOps \<Rightarrow> string \<Rightarrow> bytes \<Rightarrow> bytes \<Rightarrow> ConsecutiveBlock \<Rightarrow> bytes \<Rightarrow> ('s, 'l) VB \<Rightarrow>
     (ReadError + bytes) \<times> ('s, 'l) VB" where
  "fetchBaseRun B L sourceVolume uuid nameHash cb data vb =
     (case checkChunkMagic (be_ReadFrom B (vb_Backend vb) sourceVolume FileTypeChunk (cb_ObjectID cb)) sourceVolume (cb_ObjectID cb) vb of
        (Some e, vb) \<Rightarrow> (Inl e, vb)
      | (None, vb) \<Rightarrow>
          (let len = ucast (cb_NumBlocks cb) * blockStride vb
           in case be_ReadFrom B (vb_Backend vb) sourceVolume FileTypeChunk (cb_ObjectID cb) (cb_ObjectOffset cb) len of
                Inl e \<Rightarrow> (Inl (ErrReadBackend e), vb)
              | Inr blockData \<Rightarrow>
                  if length blockData \<noteq> unat len then (Inl ErrShortRun, vb)
                  else (case placeRun cb uuid nameHash blockData data vb of
                          Inl e \<Rightarrow> (Inl e, vb)
                        | Inr data \<Rightarrow> (Inr data, cacheRun L cb (unat (runStart vb cb)) data vb))))"

fun fetchBaseRuns ::
    "'s Backend \<Rightarrow> 'l LruOps \<Rightarrow> string \<Rightarrow> bytes \<Rightarrow> bytes \<Rightarrow> ConsecutiveBlock list \<Rightarrow> bytes \<Rightarrow> ('s, 'l) VB \<Rightarrow>
     (ReadError + bytes) \<times> ('s, 'l) VB" where
  "fetchBaseRuns B L src uuid nameHash [] data vb = (Inr data, vb)"
| "fetchBaseRuns B L src uuid nameHash (cb # cbs) data vb =
     (case fetchBaseRun B L src uuid nameHash cb data vb of
        (Inl e, vb) \<Rightarrow> (Inl e, vb)
      | (Inr data, vb) \<Rightarrow> fetchBaseRuns B L src uuid nameHash cbs data vb)"

definition fetchBaseBlocksFromBackend ::
    "'s Backend \<Rightarrow> 'l LruOps \<Rightarrow> string \<Rightarrow> bytes \<Rightarrow> bytes \<Rightarrow> ConsecutiveBlock list \<Rightarrow> bytes \<Rightarrow> ('s, 'l) VB \<Rightarrow>
     (ReadError + bytes) \<times> ('s, 'l) VB" where
  "fetchBaseBlocksFromBackend B L src uuid nameHash cbs data vb =
     (if src = [] then (Inl ErrSourceEmpty, vb)
      else fetchBaseRuns B L src uuid nameHash (coalesceReads (EncryptionEnabled vb) [] cbs) data vb)"

section \<open>Locating the blocks of a request\<close>

record Scan =
  sc_data :: bytes
  sc_own :: "ConsecutiveBlock list"
  sc_base :: "ConsecutiveBlock list"
  sc_anc :: "ConsecutiveBlock list list"
  sc_zero :: bool

definition wanted :: "('s, 'l) VB \<Rightarrow> u64 \<Rightarrow> nat \<Rightarrow> u64 \<times> u32 \<times> u64 \<Rightarrow> ConsecutiveBlock" where
  "wanted vb block i loc =
     (let start = of_nat i * ucast (BlockSize vb)
      in \<lparr>cb_BlockPosition = of_nat i, cb_StartBlock = block + of_nat i, cb_NumBlocks = 1, cb_OffsetStart = start,
          cb_OffsetEnd = start + ucast (BlockSize vb), cb_ObjectID = fst loc, cb_ObjectOffset = fst (snd loc), cb_SeqNum = snd (snd loc),
          cb_SeqNums = []\<rparr>)"

fun findAncestor :: "snapshotAncestor list \<Rightarrow> u64 \<Rightarrow> (nat \<times> u64 \<times> u32 \<times> u64) option" where
  "findAncestor [] b = None"
| "findAncestor (a # as) b =
     (case map_of (bto_BlockLookup (anc_blocks a)) b of
        Some l \<Rightarrow> Some (0, bl_ObjectID l, bl_ObjectOffset l, bl_SeqNum l)
      | None \<Rightarrow> map_option (\<lambda>(ai, loc). (Suc ai, loc)) (findAncestor as b))"

definition scanBelow :: "('s, 'l) VB \<Rightarrow> u64 \<Rightarrow> nat \<Rightarrow> Scan \<Rightarrow> Scan" where
  "scanBelow vb block i sc =
     (let b = block + of_nat i
      in case LookupBaseBlockToObject b vb of
           Some loc \<Rightarrow> sc\<lparr>sc_base := sc_base sc @ [wanted vb block i loc]\<rparr>
         | None \<Rightarrow>
             (case findAncestor (ancestors vb) b of
                Some (ai, loc) \<Rightarrow> sc\<lparr>sc_anc := (sc_anc sc)[ai := sc_anc sc ! ai @ [wanted vb block i loc]]\<rparr>
              | None \<Rightarrow> sc\<lparr>sc_zero := True\<rparr>))"

definition putBlock :: "('s, 'l) VB \<Rightarrow> nat \<Rightarrow> bytes \<Rightarrow> Scan \<Rightarrow> Scan" where
  "putBlock vb i d sc =
     (let bs = unat (BlockSize vb); start = i * bs
      in sc\<lparr>sc_data := take start (sc_data sc) @ take bs d @ drop (start + min bs (length d)) (sc_data sc)\<rparr>)"

definition scanStore :: "u64 \<Rightarrow> nat \<Rightarrow> Scan \<times> ('s, 'l) VB \<Rightarrow> Scan \<times> ('s, 'l) VB" where
  "scanStore block i s =
     (case s of (sc, vb) \<Rightarrow>
        (case ReadEntry (BlockStore vb) (block + of_nat i) of
           (entry, st) \<Rightarrow>
             (let vb = vb\<lparr>BlockStore := st\<rparr>
              in case entry of
                   None \<Rightarrow> (scanBelow vb block i sc, vb)
                 | Some e \<Rightarrow>
                     (case be_State e of
                        BlockStateEmpty \<Rightarrow> (scanBelow vb block i sc, vb)
                      | BlockStatePersisted \<Rightarrow>
                          (sc\<lparr>sc_own := sc_own sc @ [wanted vb block i (be_ObjectID e, be_ObjectOffset e, be_SeqNum e)]\<rparr>, vb)
                      | _ \<Rightarrow> (putBlock vb i (be_Data e) sc, vb)))))"

text \<open>A buffer of the request's size; the allocator panics on lengths no address space can hold.\<close>

definition maxAlloc :: nat where "maxAlloc = 2 ^ 48"

definition emptyScan :: "('s, 'l) VB \<Rightarrow> u64 \<Rightarrow> Scan" where
  "emptyScan vb blockLen = \<lparr>sc_data = replicate (unat blockLen) 0, sc_own = [], sc_base = [],
     sc_anc = replicate (length (ancestors vb)) [], sc_zero = False\<rparr>"

fun fetchAncestors ::
    "'s Backend \<Rightarrow> 'l LruOps \<Rightarrow> (snapshotAncestor \<times> ConsecutiveBlock list) list \<Rightarrow> bytes \<Rightarrow> ('s, 'l) VB \<Rightarrow>
     (ReadError + bytes) \<times> ('s, 'l) VB" where
  "fetchAncestors B L [] data vb = (Inr data, vb)"
| "fetchAncestors B L ((a, cbs) # rest) data vb =
     (if cbs = [] then fetchAncestors B L rest data vb
      else case fetchBaseBlocksFromBackend B L (anc_sourceVolumeName a) (anc_sourceVolumeUUID a) (anc_sourceVolumeNameHash a) cbs data vb of
             (Inl e, vb) \<Rightarrow> (Inl e, vb)
           | (Inr data, vb) \<Rightarrow> fetchAncestors B L rest data vb)"

text \<open>The fetches of a scanned request.  The flag of the result is \<open>ErrZeroBlock\<close>, which comes with the data.\<close>

definition fetchScan :: "'s Backend \<Rightarrow> 'l LruOps \<Rightarrow> Scan \<Rightarrow> ('s, 'l) VB \<Rightarrow> (ReadError + bytes \<times> bool) \<times> ('s, 'l) VB" where
  "fetchScan B L sc vb =
     (case (if sc_own sc = [] then (Inr (sc_data sc), vb) else fetchConsecutiveBlocksFromBackend B L (sc_own sc) (sc_data sc) vb) of
        (Inl e, vb) \<Rightarrow> (Inl e, vb)
      | (Inr data, vb) \<Rightarrow>
          (case (if sc_base sc = [] then (Inr data, vb)
                 else fetchBaseBlocksFromBackend B L (SourceVolumeName vb) (SourceVolumeUUID vb) (sourceVolumeNameHash vb) (sc_base sc) data vb) of
             (Inl e, vb) \<Rightarrow> (Inl e, vb)
           | (Inr data, vb) \<Rightarrow>
               (case fetchAncestors B L (zip (ancestors vb) (sc_anc sc)) data vb of
                  (Inl e, vb) \<Rightarrow> (Inl e, vb)
                | (Inr data, vb) \<Rightarrow> (Inr (data, sc_zero sc), vb))))"

definition readBlockStore ::
    "'s Backend \<Rightarrow> 'l LruOps \<Rightarrow> u64 \<Rightarrow> u64 \<Rightarrow> ('s, 'l) VB \<Rightarrow> (ReadError + bytes \<times> bool) \<times> ('s, 'l) VB" where
  "readBlockStore B L block blockLen vb =
     (if BlockSize vb = 0 then (Inl PanicRead, vb)
      else if blockLen mod ucast (BlockSize vb) \<noteq> 0 then (Inl ErrRequestBlockSize, vb)
      else if maxAlloc < unat blockLen then (Inl PanicRead, vb)
      else case fold (scanStore block) [0..<unat (blockLen div ucast (BlockSize vb))] (emptyScan vb blockLen, vb) of
             (sc, vb) \<Rightarrow> fetchScan B L sc vb)"

section \<open>The path without the block store\<close>

definition newestWrite :: "Block list \<Rightarrow> u64 \<Rightarrow> Block option" where
  "newestWrite ws = foldl (\<lambda>m wr. if (case m (bk_Block wr) of None \<Rightarrow> True | Some prev \<Rightarrow> bk_SeqNum prev < bk_SeqNum wr)
     then m(bk_Block wr \<mapsto> wr) else m) (\<lambda>_. None) ws"

definition lastPending :: "Block list \<Rightarrow> u64 \<Rightarrow> Block option" where
  "lastPending ws = foldl (\<lambda>m wr. m(bk_Block wr \<mapsto> wr)) (\<lambda>_. None) ws"

text \<open>
  One block: the write buffer, the pending buffer, the cache, the volume's map, the layers below.  A
  zero block is copied over bytes that are zero already.
\<close>

definition scanLegacy :: "'l LruOps \<Rightarrow> u64 \<Rightarrow> nat \<Rightarrow> Scan \<times> ('s, 'l) VB \<Rightarrow> Scan \<times> ('s, 'l) VB" where
  "scanLegacy L block i s =
     (case s of (sc, vb) \<Rightarrow>
        (let b = block + of_nat i;
             below = (\<lambda>vb. case LookupBlockToObject (vb_BlocksToObject vb) (blockStride vb) b of
                        None \<Rightarrow> (scanBelow vb block i sc, vb)
                      | Some loc \<Rightarrow> (sc\<lparr>sc_own := sc_own sc @ [wanted vb block i loc]\<rparr>, vb))
         in case newestWrite (Writes vb) b of
              Some wr \<Rightarrow> (putBlock vb i (bk_Data wr) sc, vb)
            | None \<Rightarrow>
                (case lastPending (PendingBackendWrites vb) b of
                   Some lp \<Rightarrow> (putBlock vb i (bk_Data lp) sc, vb)
                 | None \<Rightarrow>
                     if CacheSize vb > 0
                     then (case lru_Get L b (vb_lru vb) of
                             (Some cached, l) \<Rightarrow> (putBlock vb i cached sc, vb\<lparr>vb_lru := l\<rparr>)
                           | (None, l) \<Rightarrow> below (vb\<lparr>vb_lru := l\<rparr>))
                     else below vb)))"

definition VB_read ::
    "'s Backend \<Rightarrow> 'l LruOps \<Rightarrow> u64 \<Rightarrow> u64 \<Rightarrow> ('s, 'l) VB \<Rightarrow> (ReadError + bytes \<times> bool) \<times> ('s, 'l) VB" where
  "VB_read B L block blockLen vb =
     (if UseBlockStore vb then readBlockStore B L block blockLen vb
      else if BlockSize vb = 0 then (Inl PanicRead, vb)
      else if blockLen mod ucast (BlockSize vb) \<noteq> 0 then (Inl ErrRequestBlockSize, vb)
      else if maxAlloc < unat blockLen then (Inl PanicRead, vb)
      else case fold (scanLegacy L block) [0..<unat (blockLen div ucast (BlockSize vb))] (emptyScan vb blockLen, vb) of
             (sc, vb) \<Rightarrow> fetchScan B L sc vb)"

definition ReadAt ::
    "'s Backend \<Rightarrow> 'l LruOps \<Rightarrow> u64 \<Rightarrow> u64 \<Rightarrow> ('s, 'l) VB \<Rightarrow> (ReadError + bytes \<times> bool) \<times> ('s, 'l) VB" where
  "ReadAt B L offset len vb =
     (if VolumeSize vb < offset then (Inl ErrRequestTooLarge, vb)
      else if VolumeSize vb < offset + len then (Inl ErrRequestOutOfRange, vb)
      else if BlockSize vb = 0 then (Inl PanicRead, vb)
      else let blockSize = ucast (BlockSize vb) :: u64;
               firstBlock = offset div blockSize;
               lastBlock = (offset + len - 1) div blockSize;
               blockCount = lastBlock - firstBlock + 1;
               innerOffset = offset mod blockSize
           in case VB_read B L firstBlock (blockCount * blockSize) vb of
                (Inl e, vb) \<Rightarrow> (Inl e, vb)
              | (Inr (fullData, zero), vb) \<Rightarrow>
                  if innerOffset + len < innerOffset \<or> length fullData < unat (innerOffset + len) then (Inl PanicRead, vb)
                  else (Inr (take (unat len) (drop (unat innerOffset) fullData), zero), vb))"

end
