(* ===== verification/Read_Props.thy ===== *)
theory Read_Props
  imports Read Blockstore_Props File_Backend
begin

text \<open>
  What a read returns: the answer of a multi-block request is the concatenation of what each of its
  blocks reads as on its own, and the request fails just when one of its blocks cannot be read.
\<close>

section \<open>What one block reads as\<close>

datatype Place = PBuf bytes | POwn "u64 \<times> u32 \<times> u64" | PBase "u64 \<times> u32 \<times> u64" | PAnc nat "u64 \<times> u32 \<times> u64" | PZero

definition placeBelow :: "('s, 'l) VB \<Rightarrow> u64 \<Rightarrow> Place" where
  "placeBelow vb b =
     (case LookupBaseBlockToObject b vb of
        Some loc \<Rightarrow> PBase loc
      | None \<Rightarrow> (case findAncestor (ancestors vb) b of Some (ai, loc) \<Rightarrow> PAnc ai loc | None \<Rightarrow> PZero))"

definition placeOf :: "('s, 'l) VB \<Rightarrow> u64 \<Rightarrow> Place" where
  "placeOf vb b =
     (case fst (ReadEntry (BlockStore vb) b) of
        None \<Rightarrow> placeBelow vb b
      | Some e \<Rightarrow>
          (case be_State e of
             BlockStateEmpty \<Rightarrow> placeBelow vb b
           | BlockStatePersisted \<Rightarrow> POwn (be_ObjectID e, be_ObjectOffset e, be_SeqNum e)
           | _ \<Rightarrow> PBuf (be_Data e)))"

text \<open>The stored form of one block in a chunk object, and its plaintext under an identity.\<close>

definition rawSlot :: "(string \<Rightarrow> bytes option) \<Rightarrow> u32 \<Rightarrow> string \<Rightarrow> u64 \<Rightarrow> u32 \<Rightarrow> bytes option" where
  "rawSlot ob stride v oid off =
     (case ob (GetFilePath FileTypeChunk oid v) of
        None \<Rightarrow> None
      | Some c \<Rightarrow> if unat off + unat stride \<le> length c then Some (take (unat stride) (drop (unat off) c)) else None)"

definition openUnder :: "('s, 'l) VB \<Rightarrow> bytes \<Rightarrow> bytes \<Rightarrow> u64 \<Rightarrow> u64 \<Rightarrow> bytes \<Rightarrow> bytes option" where
  "openUnder vb uuid nameHash b q raw = (if EncryptionEnabled vb
     then aead_Open (vb_aead vb) (makeNonce q uuid DomainChunk) raw (chunkAAD nameHash b q) else Some raw)"

definition slotView ::
    "(string \<Rightarrow> bytes option) \<Rightarrow> ('s, 'l) VB \<Rightarrow> string \<Rightarrow> bytes \<Rightarrow> bytes \<Rightarrow> u64 \<Rightarrow> u64 \<times> u32 \<times> u64 \<Rightarrow> bytes option" where
  "slotView ob vb v uuid nameHash b loc =
     Option.bind (rawSlot ob (blockStride vb) v (fst loc) (fst (snd loc))) (openUnder vb uuid nameHash b (snd (snd loc)))"

definition viewAt :: "(string \<Rightarrow> bytes option) \<Rightarrow> string \<Rightarrow> ('s, 'l) VB \<Rightarrow> u64 \<Rightarrow> Place \<Rightarrow> bytes option" where
  "viewAt ob vol vb b p =
     (case p of
        PBuf d \<Rightarrow> Some d
      | POwn loc \<Rightarrow> slotView ob vb vol (VolumeUUID vb) (volumeNameHash vb) b loc
      | PBase loc \<Rightarrow> if SourceVolumeName vb = [] then None
          else slotView ob vb (SourceVolumeName vb) (SourceVolumeUUID vb) (sourceVolumeNameHash vb) b loc
      | PAnc ai loc \<Rightarrow> let a = ancestors vb ! ai
          in if anc_sourceVolumeName a = [] then None
             else slotView ob vb (anc_sourceVolumeName a) (anc_sourceVolumeUUID a) (anc_sourceVolumeNameHash a) b loc
      | PZero \<Rightarrow> Some (replicate (unat (BlockSize vb)) 0))"

text \<open>What a block reads as on its own.\<close>

definition blockValue :: "(string \<Rightarrow> bytes option) \<Rightarrow> string \<Rightarrow> ('s, 'l) VB \<Rightarrow> u64 \<Rightarrow> bytes option" where
  "blockValue ob vol vb b = viewAt ob vol vb b (placeOf vb b)"

section \<open>Locating\<close>

lemma ReadEntry_stable: "fst (ReadEntry (snd (ReadEntry st b)) c) = fst (ReadEntry st c)"
proof -
  have "\<exists>x. snd (ReadEntry st b) = st\<lparr>ubs_stats := x\<rparr>"
    by (auto simp: ReadEntry_def Let_def split: option.split BlockState.split)
  then obtain x where "snd (ReadEntry st b) = st\<lparr>ubs_stats := x\<rparr>" by blast
  then show ?thesis by (simp add: ReadEntry_def getShard_def readPersisted_def Let_def split: option.split BlockState.split)
qed

definition buffered_ok :: "('s, 'l) VB \<Rightarrow> bool" where
  "buffered_ok vb \<longleftrightarrow> (\<forall>b d. placeOf vb b = PBuf d \<longrightarrow> length d = unat (BlockSize vb))"

definition initBlock :: "('s, 'l) VB \<Rightarrow> u64 \<Rightarrow> bytes" where
  "initBlock vb b = (case placeOf vb b of PBuf d \<Rightarrow> d | _ \<Rightarrow> replicate (unat (BlockSize vb)) 0)"

text \<open>The requests of one kind, in order.\<close>

definition wants :: "('s, 'l) VB \<Rightarrow> u64 \<Rightarrow> nat \<Rightarrow> (Place \<Rightarrow> (u64 \<times> u32 \<times> u64) option) \<Rightarrow> ConsecutiveBlock list" where
  "wants vb block n sel = concat (map (\<lambda>i. case sel (placeOf vb (block + of_nat i)) of None \<Rightarrow> [] | Some loc \<Rightarrow> [wanted vb block i loc]) [0..<n])"

fun selOwn :: "Place \<Rightarrow> (u64 \<times> u32 \<times> u64) option" where
  "selOwn (POwn loc) = Some loc" | "selOwn _ = None"

fun selBase :: "Place \<Rightarrow> (u64 \<times> u32 \<times> u64) option" where
  "selBase (PBase loc) = Some loc" | "selBase _ = None"

fun selAnc :: "nat \<Rightarrow> Place \<Rightarrow> (u64 \<times> u32 \<times> u64) option" where
  "selAnc k (PAnc ai loc) = (if ai = k then Some loc else None)" | "selAnc k _ = None"

lemma wants_Suc:
  "wants vb block (Suc n) sel = wants vb block n sel @
     (case sel (placeOf vb (block + of_nat n)) of None \<Rightarrow> [] | Some loc \<Rightarrow> [wanted vb block n loc])"
  by (simp add: wants_def)

lemma findAncestor_bound: "findAncestor as b = Some (ai, loc) \<Longrightarrow> ai < length as"
  by (induction as arbitrary: ai) (auto split: option.splits)

lemma concat_map_length: "(\<And>i. length (f i) = k) \<Longrightarrow> length (concat (map f [0..<n])) = n * k"
  by (induction n) simp_all

fun scanPut :: "('s, 'l) VB \<Rightarrow> u64 \<Rightarrow> nat \<Rightarrow> Place \<Rightarrow> Scan \<Rightarrow> Scan" where
  "scanPut vb block i (PBuf d) sc = putBlock vb i d sc"
| "scanPut vb block i (POwn loc) sc = sc\<lparr>sc_own := sc_own sc @ [wanted vb block i loc]\<rparr>"
| "scanPut vb block i (PBase loc) sc = sc\<lparr>sc_base := sc_base sc @ [wanted vb block i loc]\<rparr>"
| "scanPut vb block i (PAnc ai loc) sc = sc\<lparr>sc_anc := (sc_anc sc)[ai := sc_anc sc ! ai @ [wanted vb block i loc]]\<rparr>"
| "scanPut vb block i PZero sc = sc\<lparr>sc_zero := True\<rparr>"

lemma scanBelow_put: "scanBelow vb block i sc = scanPut vb block i (placeBelow vb (block + of_nat i)) sc"
  by (simp add: scanBelow_def placeBelow_def Let_def split: option.split)

lemma store_frame [simp]:
  "wanted (vb\<lparr>BlockStore := st\<rparr>) = wanted vb" "putBlock (vb\<lparr>BlockStore := st\<rparr>) = putBlock vb"
  "scanBelow (vb\<lparr>BlockStore := st\<rparr>) = scanBelow vb"
  by (simp_all add: wanted_def putBlock_def scanBelow_def LookupBaseBlockToObject_def fun_eq_iff Let_def split: option.split)

lemma scanStore_step:
  assumes "\<forall>c. fst (ReadEntry st c) = fst (ReadEntry (BlockStore vb) c)"
  shows "scanStore block i (sc, vb\<lparr>BlockStore := st\<rparr>) =
    (scanPut vb block i (placeOf vb (block + of_nat i)) sc, vb\<lparr>BlockStore := snd (ReadEntry st (block + of_nat i))\<rparr>)"
proof -
  let ?b = "block + of_nat i"
  obtain e st' where r: "ReadEntry st ?b = (e, st')" by fastforce
  then have e: "fst (ReadEntry (BlockStore vb) ?b) = e" using assms by (metis fst_conv)
  show ?thesis
    by (simp add: scanStore_def r e placeOf_def Let_def scanBelow_put [symmetric] split: option.split BlockState.split)
qed

lemma putBlock_next:
  assumes "sc_data sc = concat (map f [0..<n]) @ replicate r 0" "\<And>i. length (f i) = unat (BlockSize vb)" "length d = unat (BlockSize vb)"
    "unat (BlockSize vb) \<le> r"
  shows "putBlock vb n d sc = sc\<lparr>sc_data := concat (map f [0..<n]) @ d @ replicate (r - unat (BlockSize vb)) 0\<rparr>"
proof -
  have "length (concat (map f [0..<n])) = n * unat (BlockSize vb)" by (rule concat_map_length) (rule assms(2))
  then show ?thesis using assms(1,3,4) by (simp add: putBlock_def Let_def)
qed

lemma scan_steps:
  assumes "buffered_ok vb" "n * unat (BlockSize vb) \<le> unat blockLen"
  shows "\<exists>st. fold (scanStore block) [0..<n] (emptyScan vb blockLen, vb) =
     (\<lparr>sc_data = concat (map (\<lambda>i. initBlock vb (block + of_nat i)) [0..<n]) @ replicate (unat blockLen - n * unat (BlockSize vb)) 0,
       sc_own = wants vb block n selOwn, sc_base = wants vb block n selBase,
       sc_anc = map (\<lambda>k. wants vb block n (selAnc k)) [0..<length (ancestors vb)],
       sc_zero = (\<exists>i < n. placeOf vb (block + of_nat i) = PZero)\<rparr>, vb\<lparr>BlockStore := st\<rparr>) \<and>
     (\<forall>c. fst (ReadEntry st c) = fst (ReadEntry (BlockStore vb) c))"
  using assms(2)
proof (induction n)
  case 0
  have "map (\<lambda>k. wants vb block 0 (selAnc k)) [0..<length (ancestors vb)] = replicate (length (ancestors vb)) []"
    by (simp add: wants_def map_replicate_const)
  then show ?case by (auto simp: emptyScan_def wants_def intro: exI [of _ "BlockStore vb"])
next
  case (Suc n)
  let ?bs = "unat (BlockSize vb)" and ?b = "block + of_nat n" and ?f = "\<lambda>i. initBlock vb (block + of_nat i)"
  let ?r = "unat blockLen - n * ?bs"
  have le: "n * ?bs \<le> unat blockLen" "?bs \<le> ?r" "unat blockLen - Suc n * ?bs = ?r - ?bs" using Suc.prems by simp_all
  have len: "length (?f i) = ?bs" for i using assms(1) by (auto simp: initBlock_def buffered_ok_def split: Place.split)
  obtain st where st: "fold (scanStore block) [0..<n] (emptyScan vb blockLen, vb) =
     (\<lparr>sc_data = concat (map ?f [0..<n]) @ replicate ?r 0, sc_own = wants vb block n selOwn, sc_base = wants vb block n selBase,
       sc_anc = map (\<lambda>k. wants vb block n (selAnc k)) [0..<length (ancestors vb)],
       sc_zero = (\<exists>i < n. placeOf vb (block + of_nat i) = PZero)\<rparr>, vb\<lparr>BlockStore := st\<rparr>)"
    "\<forall>c. fst (ReadEntry st c) = fst (ReadEntry (BlockStore vb) c)" using Suc.IH [OF le(1)] by blast
  let ?sc = "\<lparr>sc_data = concat (map ?f [0..<n]) @ replicate ?r 0, sc_own = wants vb block n selOwn, sc_base = wants vb block n selBase,
       sc_anc = map (\<lambda>k. wants vb block n (selAnc k)) [0..<length (ancestors vb)], sc_zero = (\<exists>i < n. placeOf vb (block + of_nat i) = PZero)\<rparr>"
  have put: "scanPut vb block n (placeOf vb ?b) ?sc = \<lparr>sc_data = concat (map ?f [0..<Suc n]) @ replicate (?r - ?bs) 0,
       sc_own = wants vb block (Suc n) selOwn, sc_base = wants vb block (Suc n) selBase,
       sc_anc = map (\<lambda>k. wants vb block (Suc n) (selAnc k)) [0..<length (ancestors vb)],
       sc_zero = (\<exists>i < Suc n. placeOf vb (block + of_nat i) = PZero)\<rparr>"
  proof (cases "placeOf vb ?b")
    case (PBuf d)
    then have "length d = ?bs" "?f n = d" using assms(1) by (simp_all add: buffered_ok_def initBlock_def)
    then show ?thesis using PBuf putBlock_next [of ?sc ?f n ?r vb d] len le(2) by (simp add: wants_Suc Ex_less_Suc)
  next
    case (PAnc ai loc)
    then have "ai < length (ancestors vb)" using findAncestor_bound
      by (fastforce simp: placeOf_def placeBelow_def split: option.splits BlockState.splits)
    moreover have "replicate ?r (0 :: u8) = ?f n @ replicate (?r - ?bs) 0" using PAnc le(2) by (simp add: initBlock_def replicate_add [symmetric])
    ultimately show ?thesis using PAnc by (auto simp: wants_Suc Ex_less_Suc intro!: nth_equalityI simp: nth_list_update)
  qed (use le(2) in \<open>simp_all add: wants_Suc Ex_less_Suc initBlock_def replicate_add [symmetric]\<close>)
  show ?case
    using scanStore_step [OF st(2), of block n ?sc] put st ReadEntry_stable le(3)
    by (auto intro!: exI [of _ "snd (ReadEntry st ?b)"])
qed

section \<open>Coalescing\<close>

function runsOf :: "ConsecutiveBlock list \<Rightarrow> ConsecutiveBlock list list" where
  "runsOf [] = []"
| "runsOf (c # cs) = (c # take (runCount c cs) cs) # runsOf (drop (runCount c cs) cs)"
  by pat_completeness auto
termination by (relation "measure length") (auto simp: less_Suc_eq_le)

lemma runsOf_concat: "concat (runsOf cs) = cs"
  by (induction cs rule: runsOf.induct) simp_all

lemma runsOf_nonempty: "[] \<notin> set (runsOf cs)"
  by (induction cs rule: runsOf.induct) simp_all

lemma coalesceReads_cong:
  "\<forall>c \<in> set cs. cb_StartBlock c \<in> set s \<longleftrightarrow> cb_StartBlock c \<in> set s' \<Longrightarrow> coalesceReads e s cs = coalesceReads e s' cs"
proof (induction cs arbitrary: s s')
  case (Cons c cs)
  let ?r = "map cb_StartBlock (take (runCount c cs) cs)"
  have "coalesceReads e (?r @ s) cs = coalesceReads e (?r @ s') cs" using Cons.prems by (intro Cons.IH) auto
  moreover have "coalesceReads e s cs = coalesceReads e s' cs" using Cons by simp
  moreover have "cb_StartBlock c \<in> set s \<longleftrightarrow> cb_StartBlock c \<in> set s'" using Cons.prems by simp
  ultimately show ?case by (simp only: coalesceReads.simps Let_def)
qed simp

lemma coalesceReads_skip:
  "set (map cb_StartBlock xs) \<subseteq> set s \<Longrightarrow> coalesceReads e s (xs @ ys) = coalesceReads e s ys"
  by (induction xs) simp_all

lemma coalesce_runs:
  "distinct (map cb_StartBlock cs) \<Longrightarrow> coalesceReads e [] cs = map (\<lambda>g. mergeReads e (hd g) (tl g)) (runsOf cs)"
proof (induction cs rule: runsOf.induct)
  case (2 c cs)
  let ?k = "runCount c cs"
  let ?r = "take ?k cs" and ?t = "drop ?k cs"
  have d: "distinct (map cb_StartBlock (?r @ ?t))" using "2.prems" by simp
  then have dis: "distinct (map cb_StartBlock ?t)" "set (map cb_StartBlock ?r) \<inter> set (map cb_StartBlock ?t) = {}"
    unfolding map_append distinct_append by blast+
  have "coalesceReads e (map cb_StartBlock ?r) cs = coalesceReads e (map cb_StartBlock ?r) (?r @ ?t)" by simp
  also have "\<dots> = coalesceReads e (map cb_StartBlock ?r) ?t" by (rule coalesceReads_skip) simp
  also have "\<dots> = coalesceReads e [] ?t" using dis(2) by (intro coalesceReads_cong) auto
  finally show ?case using "2.IH" dis(1) by (simp add: Let_def)
qed simp

text \<open>A run: neighbours in one object.\<close>

fun is_run :: "ConsecutiveBlock list \<Rightarrow> bool" where
  "is_run [] = True"
| "is_run [c] = True"
| "is_run (c # d # ds) = (cb_StartBlock d = cb_StartBlock c + 1 \<and> cb_ObjectID d = cb_ObjectID c \<and> is_run (d # ds))"

lemma is_run_take: "is_run (c # take (runCount c cs) cs)"
proof (induction cs arbitrary: c)
  case (Cons d ds)
  then show ?case by simp
qed simp

lemma runsOf_is_run: "\<forall>g \<in> set (runsOf cs). is_run g"
  by (induction cs rule: runsOf.induct) (simp_all add: is_run_take)

lemma is_run_nth:
  "is_run g \<Longrightarrow> j < length g \<Longrightarrow> cb_StartBlock (g ! j) = cb_StartBlock (hd g) + of_nat j \<and> cb_ObjectID (g ! j) = cb_ObjectID (hd g)"
proof (induction g arbitrary: j rule: is_run.induct)
  case (3 c d ds)
  then show ?case by (cases j) (auto simp: add.assoc)
qed auto

lemma wants_blocks:
  assumes "w \<in> set (wants vb block n sel)"
  obtains i loc where "i < n" "w = wanted vb block i loc" "sel (placeOf vb (block + of_nat i)) = Some loc"
  using assms by (auto simp: wants_def split: option.splits)

lemma wants_distinct: "n \<le> 18446744073709551616 \<Longrightarrow> distinct (map cb_StartBlock (wants vb block n sel))"
proof (induction n)
  case (Suc n)
  have "block + of_nat n \<noteq> block + (of_nat i :: u64)" if "i < n" for i
  proof
    assume "block + of_nat n = block + (of_nat i :: u64)"
    then have "(of_nat n :: u64) = of_nat i" by simp
    then have "unat (of_nat n :: u64) = unat (of_nat i :: u64)" by simp
    then show False using that Suc.prems by (simp add: unat_of_nat_u64)
  qed
  then have "block + of_nat n \<notin> set (map cb_StartBlock (wants vb block n sel))"
    by (auto elim!: wants_blocks simp: wanted_def Let_def)
  then show ?case using Suc by (auto simp: wants_Suc wanted_def Let_def split: option.split)
qed (simp add: wants_def)

lemma wants_sorted: "n \<le> 18446744073709551616 \<Longrightarrow> sorted_wrt (\<lambda>v w. unat (cb_BlockPosition v) < unat (cb_BlockPosition w)) (wants vb block n sel)"
proof (induction n)
  case (Suc n)
  have "unat (cb_BlockPosition w) < n" if "w \<in> set (wants vb block n sel)" for w
    using that Suc.prems by (auto elim!: wants_blocks simp: wanted_def Let_def unat_of_nat_u64)
  then show ?case using Suc by (auto simp: wants_Suc wanted_def Let_def sorted_wrt_append unat_of_nat_u64 split: option.split)
qed (simp add: wants_def)

section \<open>Fetching a run\<close>

definition run_at :: "u32 \<Rightarrow> nat \<Rightarrow> nat \<Rightarrow> ConsecutiveBlock list \<Rightarrow> bool" where
  "run_at stride N p g \<longleftrightarrow> g \<noteq> [] \<and> p + length g \<le> N \<and>
     (\<forall>j < length g. cb_StartBlock (g ! j) = cb_StartBlock (hd g) + of_nat j \<and> cb_ObjectID (g ! j) = cb_ObjectID (hd g) \<and>
        unat (cb_ObjectOffset (g ! j)) = unat (cb_ObjectOffset (hd g)) + j * unat stride \<and> unat (cb_BlockPosition (g ! j)) = p + j)"

text \<open>The bounds under which no index of a request wraps.\<close>

definition request_ok :: "('s, 'l) VB \<Rightarrow> nat \<Rightarrow> bool" where
  "request_ok vb N \<longleftrightarrow> N \<le> 65535 \<and> N * unat (blockStride vb) < 4294967296"

lemma unat_mult_u64: "unat (x :: u64) * unat y < 18446744073709551616 \<Longrightarrow> unat (x * y) = unat x * unat y"
  using unat_mult_lem [of x y] by simp

lemma unat_mult_u32: "unat (x :: u32) * unat y < 4294967296 \<Longrightarrow> unat (x * y) = unat x * unat y"
  using unat_mult_lem [of x y] by simp

lemma unat_ucast_16_32: "unat (ucast (w :: u16) :: u32) = unat w"
  by (simp add: unsigned_ucast_eq take_bit_nat_eq_self less_trans [OF unat_less_2p16])

lemma SafeIntToUint16_unat: "k \<le> 65535 \<Longrightarrow> unat (SafeIntToUint16 (int k)) = k"
  by (simp add: SafeIntToUint16_def unat_of_nat_u16)

lemma run_numbers:
  fixes e :: bool
  assumes "request_ok vb N" "geometry_ok vb" "run_at (blockStride vb) N p g"
  defines "cb \<equiv> mergeReads e (hd g) (tl g)"
  shows "unat (cb_NumBlocks cb) = length g" "unat (ucast (cb_NumBlocks cb) * blockStride vb :: u32) = length g * unat (blockStride vb)"
    "unat (runStart vb cb) = p * unat (BlockSize vb)" "unat (runEndAt vb cb) = (p + length g) * unat (BlockSize vb)"
    "cb_SeqNums cb = (if e then map cb_SeqNum g else [])"
proof -
  let ?bs = "unat (BlockSize vb)" and ?k = "length g"
  have g: "g \<noteq> []" "p + ?k \<le> N" "unat (cb_BlockPosition (hd g)) = p"
    using assms(3) by (auto simp: run_at_def hd_conv_nth)
  have N: "N \<le> 65535" "N * unat (blockStride vb) < 4294967296" using assms(1) by (simp_all add: request_ok_def)
  have k: "Suc (length (tl g)) = ?k" using g(1) by simp
  show num: "unat (cb_NumBlocks cb) = ?k" using SafeIntToUint16_unat [of ?k] g(2) N(1) by (simp only: cb_def mergeReads_def k ConsecutiveBlock.simps)
  have bs: "?bs \<le> unat (blockStride vb)" using stride_unat [OF assms(2)] by simp
  have kl: "?k * unat (blockStride vb) < 4294967296" using g(2) N(2) by (meson add_leD2 le_less_trans mult_le_mono1)
  show "unat (ucast (cb_NumBlocks cb) * blockStride vb :: u32) = ?k * unat (blockStride vb)"
    using kl num by (subst unat_mult_u32) (simp_all add: unat_ucast_16_32)
  have pk: "(p + ?k) * ?bs < 4294967296" using mult_le_mono [OF g(2) bs] N(2) by linarith
  then have "p * ?bs < 4294967296" "?k * ?bs < 4294967296" by (simp_all add: add_mult_distrib)
  then have s: "unat (runStart vb cb) = p * ?bs" "unat (ucast (cb_NumBlocks cb) * ucast (BlockSize vb) :: u64) = ?k * ?bs"
    using g(3) num unfolding runStart_def by (subst unat_mult_u64; simp add: cb_def mergeReads_def)+
  then show "unat (runStart vb cb) = p * ?bs" by blast
  show "unat (runEndAt vb cb) = (p + ?k) * ?bs" using s pk unfolding runEndAt_def by (simp add: unat_plus_nowrap add_mult_distrib)
  show "cb_SeqNums cb = (if e then map cb_SeqNum g else [])" using g(1) by (simp add: cb_def mergeReads_def)
qed

definition slotOpen :: "('s, 'l) VB \<Rightarrow> bytes \<Rightarrow> bytes \<Rightarrow> u64 \<Rightarrow> u64 list \<Rightarrow> bytes \<Rightarrow> nat \<Rightarrow> bytes option" where
  "slotOpen vb uuid h b qs ct j = aead_Open (vb_aead vb) (makeNonce (qs ! j) uuid DomainChunk)
     (take (unat (BlockSize vb) + 16) (drop (j * (unat (BlockSize vb) + 16)) ct)) (chunkAAD h (b + of_nat j) (qs ! j))"

lemma openSlots_those:
  "length ct = length qs * (unat (BlockSize vb) + 16) \<Longrightarrow>
   openSlots vb uuid h b qs ct =
     (case those (map (slotOpen vb uuid h b qs ct) [0..<length qs]) of None \<Rightarrow> Inl ErrChunkIntegrity | Some ps \<Rightarrow> Inr (concat ps))"
proof (induction qs arbitrary: b ct)
  case (Cons q qs)
  let ?s = "unat (BlockSize vb) + 16"
  have len: "length (drop ?s ct) = length qs * ?s" using Cons.prems by simp
  have step: "slotOpen vb uuid h b (q # qs) ct (Suc j) = slotOpen vb uuid h (b + 1) qs (drop ?s ct) j" for j
    by (simp add: slotOpen_def ac_simps)
  have first: "slotOpen vb uuid h b (q # qs) ct 0 = aead_Open (vb_aead vb) (makeNonce q uuid DomainChunk) (take ?s ct) (chunkAAD h b q)"
    by (simp add: slotOpen_def)
  have split: "map (slotOpen vb uuid h b (q # qs) ct) [0..<length (q # qs)] =
      slotOpen vb uuid h b (q # qs) ct 0 # map (slotOpen vb uuid h (b + 1) qs (drop ?s ct)) [0..<length qs]"
    by (simp only: length_Cons map_upt_Suc step o_def)
  show ?case unfolding split openSlots.simps Let_def Cons.IH [OF len] first by (simp split: option.split)
qed simp

lemma concat_splice:
  assumes "\<forall>d \<in> set blocks. length d = n" "p + length ds \<le> length blocks" "\<forall>d \<in> set ds. length d = n"
  shows "copyRange (concat blocks) (p * n) ((p + length ds) * n) (concat ds) = Some (concat (take p blocks @ ds @ drop (p + length ds) blocks))"
proof -
  have l: "length (concat blocks) = length blocks * n" "length (concat ds) = length ds * n" using assms(1,3) by (auto intro: concat_length)
  have t: "take (k * n) (concat blocks) = concat (take k blocks)" "drop (k * n) (concat blocks) = concat (drop k blocks)" if "k \<le> length blocks" for k
  proof -
    have "length (concat (take k blocks)) = k * n" using assms(1) that concat_length [of "take k blocks" n] by (auto dest: in_set_takeD)
    moreover have "concat blocks = concat (take k blocks) @ concat (drop k blocks)" by (simp flip: concat_append)
    ultimately show "take (k * n) (concat blocks) = concat (take k blocks)" "drop (k * n) (concat blocks) = concat (drop k blocks)" by simp_all
  qed
  define e where "e = (p + length ds) * n"
  have e: "e = p * n + length ds * n" by (simp add: e_def add_mult_distrib)
  moreover have "e \<le> length (concat blocks)" using mult_le_mono1 [OF assms(2), of n] l(1) by (simp add: e_def)
  ultimately have "copyRange (concat blocks) (p * n) e (concat ds) =
      Some (take (p * n) (concat blocks) @ concat ds @ drop e (concat blocks))"
    using l(2) by (simp add: copyRange_def Let_def)
  also have "\<dots> = Some (concat (take p blocks @ ds @ drop (p + length ds) blocks))"
    using t [of p] t [of "p + length ds"] assms(2) by (simp add: e_def)
  finally show ?thesis by (simp only: e_def)
qed

lemma those_Some: "those xs = Some ys \<longleftrightarrow> xs = map Some ys"
  by (induction xs arbitrary: ys) (auto split: option.splits)

lemma those_length: "those xs = Some ys \<Longrightarrow> length ys = length xs"
  by (simp add: those_Some)

lemma those_map_Some [simp]: "those (map Some ys) = Some ys"
  by (simp add: those_Some)

lemma those_None: "those xs = None \<longleftrightarrow> None \<in> set xs"
  by (induction xs) (auto split: option.splits)

lemma concat_slices: "length raw = k * n \<Longrightarrow> concat (map (\<lambda>j. take n (drop (j * n) raw)) [0..<k]) = raw"
proof (induction k arbitrary: raw)
  case (Suc k)
  have "concat (map (\<lambda>j. take n (drop (Suc j * n) raw)) [0..<k]) = drop n raw"
    using Suc.IH [of "drop n raw"] Suc.prems by (simp add: add.commute)
  then show ?case unfolding map_upt_Suc by (simp add: o_def)
qed simp

definition runViews :: "('s, 'l) VB \<Rightarrow> bytes \<Rightarrow> bytes \<Rightarrow> bytes \<Rightarrow> ConsecutiveBlock list \<Rightarrow> bytes option list" where
  "runViews vb uuid h raw g = map (\<lambda>j. openUnder vb uuid h (cb_StartBlock (g ! j)) (cb_SeqNum (g ! j))
     (take (unat (blockStride vb)) (drop (j * unat (blockStride vb)) raw))) [0..<length g]"

lemma openUnder_length:
  assumes "geometry_ok vb" "length raw = unat (blockStride vb)" "openUnder vb uuid h b q raw = Some d"
  shows "length d = unat (BlockSize vb)"
proof (cases "EncryptionEnabled vb")
  case True
  then have "raw = aead_Seal (vb_aead vb) (makeNonce q uuid DomainChunk) d (chunkAAD h b q)" "aead_ok (vb_aead vb)"
    using assms(1,3) by (auto simp: openUnder_def geometry_ok_def intro: aead_okD(3))
  then show ?thesis using assms(2) stride_unat [OF assms(1)] True by (simp add: aead_okD(2))
qed (use assms stride_unat [OF assms(1)] in \<open>simp add: openUnder_def\<close>)

lemma runViews_length:
  assumes "geometry_ok vb" "runViews vb uuid h raw g = map Some ds" "length raw = length g * unat (blockStride vb)"
  shows "length ds = length g" "\<forall>d \<in> set ds. length d = unat (BlockSize vb)"
proof -
  show l: "length ds = length g" using arg_cong [OF assms(2), of length] by (simp add: runViews_def)
  show "\<forall>d \<in> set ds. length d = unat (BlockSize vb)"
  proof
    fix d assume "d \<in> set ds"
    then obtain j where j: "j < length g" "d = ds ! j" using l by (auto simp: in_set_conv_nth)
    let ?raw = "take (unat (blockStride vb)) (drop (j * unat (blockStride vb)) raw)"
    have "(Suc j) * unat (blockStride vb) \<le> length g * unat (blockStride vb)" using j(1) by (intro mult_le_mono1) simp
    then have len: "length ?raw = unat (blockStride vb)" using assms(3) by simp
    have "runViews vb uuid h raw g ! j = Some d" using j l assms(2) by simp
    then have "openUnder vb uuid h (cb_StartBlock (g ! j)) (cb_SeqNum (g ! j)) ?raw = Some d" using j(1) by (simp add: runViews_def)
    then show "length d = unat (BlockSize vb)" by (rule openUnder_length [OF assms(1) len])
  qed
qed

lemma placeRun_run:
  assumes "request_ok vb N" "geometry_ok vb" "run_at (blockStride vb) N p g" "length raw = length g * unat (blockStride vb)"
    "\<forall>d \<in> set blocks. length d = unat (BlockSize vb)" "length blocks = N"
  shows "placeRun (mergeReads (EncryptionEnabled vb) (hd g) (tl g)) uuid h raw (concat blocks) vb =
    (case those (runViews vb uuid h raw g) of
       None \<Rightarrow> Inl ErrChunkIntegrity
     | Some ds \<Rightarrow> Inr (concat (take p blocks @ ds @ drop (p + length g) blocks)))"
proof -
  let ?cb = "mergeReads (EncryptionEnabled vb) (hd g) (tl g)" and ?k = "length g" and ?bs = "unat (BlockSize vb)"
  note num = run_numbers [OF assms(1-3), of "EncryptionEnabled vb"]
  have pk: "p + ?k \<le> length blocks" using assms(3,6) by (simp add: run_at_def)
  have place: "copyRange (concat blocks) (unat (runStart vb ?cb)) (unat (runEndAt vb ?cb)) (concat ds) =
      Some (concat (take p blocks @ ds @ drop (p + ?k) blocks))" if "runViews vb uuid h raw g = map Some ds" for ds
    using concat_splice [OF assms(5), of p ds] runViews_length [OF assms(2) that assms(4)] pk num by simp
  show ?thesis
  proof (cases "EncryptionEnabled vb")
    case True
    have st: "unat (blockStride vb) = ?bs + 16" using stride_unat [OF assms(2)] True by simp
    have "length (concat blocks) = length blocks * ?bs" using assms(5) by (intro concat_length) blast
    then have fit: "(p + ?k) * ?bs \<le> length (concat blocks)" "p * ?bs \<le> (p + ?k) * ?bs" "(p + ?k) * ?bs - p * ?bs = ?k * ?bs"
      using mult_le_mono1 [OF pk, of ?bs] by (simp_all add: add_mult_distrib)
    have run: "\<forall>j < ?k. cb_StartBlock (g ! j) = cb_StartBlock ?cb + of_nat j" using assms(3) by (simp add: run_at_def mergeReads_def)
    have "map (slotOpen vb uuid h (cb_StartBlock ?cb) (map cb_SeqNum g) raw) [0..<?k] = runViews vb uuid h raw g"
      unfolding runViews_def using run by (intro map_cong) (auto simp: slotOpen_def openUnder_def True st)
    then have "openSlots vb uuid h (cb_StartBlock ?cb) (map cb_SeqNum g) raw =
        (case those (runViews vb uuid h raw g) of None \<Rightarrow> Inl ErrChunkIntegrity | Some ps \<Rightarrow> Inr (concat ps))"
      using openSlots_those [of raw "map cb_SeqNum g" vb uuid h "cb_StartBlock ?cb"] assms(4) by (simp add: st)
    then have "openChunkRun raw ?cb uuid h (?k * ?bs) vb =
        (case those (runViews vb uuid h raw g) of None \<Rightarrow> Inl ErrChunkIntegrity | Some ps \<Rightarrow> Inr (concat ps))"
      using num(1,5) assms(4) True by (simp add: openChunkRun_def Let_def st)
    then show ?thesis using fit num place True
      by (cases "those (runViews vb uuid h raw g)") (auto simp: placeRun_def Let_def those_Some)
  next
    case False
    have "runViews vb uuid h raw g = map Some (map (\<lambda>j. take (unat (blockStride vb)) (drop (j * unat (blockStride vb)) raw)) [0..<?k])"
      by (simp add: runViews_def openUnder_def False)
    then obtain ds where ds: "runViews vb uuid h raw g = map Some ds" "concat ds = raw" using concat_slices [OF assms(4)] by blast
    then have "those (runViews vb uuid h raw g) = Some ds" by (simp add: those_Some)
    then show ?thesis using place [OF ds(1)] ds(2) num(2) assms(4) False by (simp add: placeRun_def Let_def)
  qed
qed

definition forgetCaches :: "'l \<Rightarrow> ('s, 'l) VB \<Rightarrow> ('s, 'l) VB" where
  "forgetCaches l vb = vb\<lparr>chunkMagicChecked := [], BlockStore := NewUnifiedBlockStore 0, vb_lru := l\<rparr>"

text \<open>Two volumes that differ at most in what reading caches.\<close>

definition reads_like :: "('s, 'l) VB \<Rightarrow> ('s, 'l) VB \<Rightarrow> bool" where
  "reads_like vb vb' \<longleftrightarrow> (\<forall>l. forgetCaches l vb' = forgetCaches l vb)"

lemma reads_like_trans: "reads_like vb1 vb2 \<Longrightarrow> reads_like vb2 vb3 \<Longrightarrow> reads_like vb1 vb3"
  by (simp add: reads_like_def)

lemma reads_like_simps [simp]:
  "reads_like vb vb" "reads_like vb (vb'\<lparr>chunkMagicChecked := m\<rparr>) = reads_like vb vb'" "reads_like vb (vb'\<lparr>BlockStore := st\<rparr>) = reads_like vb vb'"
  "reads_like vb (vb'\<lparr>vb_lru := l\<rparr>) = reads_like vb vb'" "reads_like (vb\<lparr>chunkMagicChecked := m\<rparr>) vb' = reads_like vb vb'"
  "reads_like (vb\<lparr>BlockStore := st\<rparr>) vb' = reads_like vb vb'" "reads_like vb (cacheRun L cb start data vb') = reads_like vb vb'"
  by (simp_all add: reads_like_def forgetCaches_def cacheRun_def Let_def)

lemma reads_likeD:
  assumes "reads_like vb vb'"
  shows "EncryptionEnabled vb' = EncryptionEnabled vb" "BlockSize vb' = BlockSize vb" "vb_Backend vb' = vb_Backend vb" "vb_aead vb' = vb_aead vb"
    "ancestors vb' = ancestors vb" "VolumeName vb' = VolumeName vb" "VolumeUUID vb' = VolumeUUID vb" "volumeNameHash vb' = volumeNameHash vb"
    "SourceVolumeName vb' = SourceVolumeName vb" "SourceVolumeUUID vb' = SourceVolumeUUID vb" "sourceVolumeNameHash vb' = sourceVolumeNameHash vb"
    "blockStride vb' = blockStride vb"
proof -
  have e: "forgetCaches (vb_lru vb) vb' = forgetCaches (vb_lru vb) vb" using assms by (simp add: reads_like_def)
  show enc: "EncryptionEnabled vb' = EncryptionEnabled vb" using arg_cong [OF e, of EncryptionEnabled] by (simp add: forgetCaches_def)
  show bs: "BlockSize vb' = BlockSize vb" using arg_cong [OF e, of BlockSize] by (simp add: forgetCaches_def)
  show "vb_Backend vb' = vb_Backend vb" using arg_cong [OF e, of vb_Backend] by (simp add: forgetCaches_def)
  show "vb_aead vb' = vb_aead vb" using arg_cong [OF e, of vb_aead] by (simp add: forgetCaches_def)
  show "ancestors vb' = ancestors vb" using arg_cong [OF e, of ancestors] by (simp add: forgetCaches_def)
  show "VolumeName vb' = VolumeName vb" using arg_cong [OF e, of VolumeName] by (simp add: forgetCaches_def)
  show "VolumeUUID vb' = VolumeUUID vb" using arg_cong [OF e, of VolumeUUID] by (simp add: forgetCaches_def)
  show "volumeNameHash vb' = volumeNameHash vb" using arg_cong [OF e, of volumeNameHash] by (simp add: forgetCaches_def)
  show "SourceVolumeName vb' = SourceVolumeName vb" using arg_cong [OF e, of SourceVolumeName] by (simp add: forgetCaches_def)
  show "SourceVolumeUUID vb' = SourceVolumeUUID vb" using arg_cong [OF e, of SourceVolumeUUID] by (simp add: forgetCaches_def)
  show "sourceVolumeNameHash vb' = sourceVolumeNameHash vb" using arg_cong [OF e, of sourceVolumeNameHash] by (simp add: forgetCaches_def)
  show "blockStride vb' = blockStride vb" using enc bs by (simp add: blockStride_def)
qed

definition slotW :: "(string \<Rightarrow> bytes option) \<Rightarrow> ('s, 'l) VB \<Rightarrow> string \<Rightarrow> bytes \<Rightarrow> bytes \<Rightarrow> ConsecutiveBlock \<Rightarrow> bytes option" where
  "slotW ob vb v uuid h w = slotView ob vb v uuid h (cb_StartBlock w) (cb_ObjectID w, cb_ObjectOffset w, cb_SeqNum w)"

definition encrypted_chunks :: "(string \<Rightarrow> bytes option) \<Rightarrow> ('s, 'l) VB \<Rightarrow> bool" where
  "encrypted_chunks ob vb \<longleftrightarrow> (EncryptionEnabled vb \<longrightarrow>
     (\<forall>oid v c. ob (GetFilePath FileTypeChunk oid v) = Some c \<longrightarrow> 4 \<le> length c \<and> take 4 c = ChunkMagic True))"

lemma reads_like_cong:
  assumes "reads_like vb vb'"
  shows "openUnder vb' = openUnder vb" "slotView ob vb' = slotView ob vb" "slotW ob vb' = slotW ob vb" "runViews vb' = runViews vb"
    "request_ok vb' = request_ok vb" "geometry_ok vb' = geometry_ok vb" "encrypted_chunks ob vb' = encrypted_chunks ob vb"
proof -
  note d = reads_likeD [OF assms]
  show o: "openUnder vb' = openUnder vb" by (simp add: openUnder_def d fun_eq_iff)
  show "slotView ob vb' = slotView ob vb" by (simp add: slotView_def o d fun_eq_iff)
  then show "slotW ob vb' = slotW ob vb" by (simp add: slotW_def fun_eq_iff)
  show "runViews vb' = runViews vb" by (simp add: runViews_def o d fun_eq_iff)
  show "request_ok vb' = request_ok vb" by (simp add: request_ok_def d fun_eq_iff)
  show "geometry_ok vb' = geometry_ok vb" by (simp add: geometry_ok_def d)
  show "encrypted_chunks ob vb' = encrypted_chunks ob vb" by (simp add: encrypted_chunks_def d)
qed

text \<open>What a list of requests delivers: the assembled answer with each block in its place, if all can be read.\<close>

definition fillAll :: "(ConsecutiveBlock \<Rightarrow> bytes option) \<Rightarrow> ConsecutiveBlock list \<Rightarrow> bytes list \<Rightarrow> bytes list option" where
  "fillAll rdw ws blocks = map_option (\<lambda>ds. fold (\<lambda>(w, d) bl. bl[unat (cb_BlockPosition w) := d]) (zip ws ds) blocks) (those (map rdw ws))"

lemma those_append: "those (xs @ ys) = (case those xs of None \<Rightarrow> None | Some us \<Rightarrow> map_option (\<lambda>vs. us @ vs) (those ys))"
  by (cases "those ys"; induction xs) (auto split: option.split)

lemma fillAll_append:
  "fillAll rdw (vs @ ws) blocks = (case fillAll rdw vs blocks of None \<Rightarrow> None | Some bl \<Rightarrow> fillAll rdw ws bl)"
proof (cases "those (map rdw vs)")
  case (Some us)
  then have "length us = length vs" by (rule those_length [of "map rdw _", simplified])
  then show ?thesis using Some by (cases "those (map rdw ws)") (simp_all add: fillAll_def those_append)
qed (simp add: fillAll_def those_append)

lemma fold_splice:
  assumes "length ds = length g" "\<forall>j < length g. unat (cb_BlockPosition (g ! j)) = p + j" "p + length g \<le> length blocks"
  shows "fold (\<lambda>(w, d) bl. bl[unat (cb_BlockPosition w) := d]) (zip g ds) blocks = take p blocks @ ds @ drop (p + length g) blocks"
  using assms
proof (induction g arbitrary: ds p blocks)
  case (Cons w g)
  obtain d ds' where ds: "ds = d # ds'" using Cons.prems(1) by (cases ds) auto
  have w: "unat (cb_BlockPosition w) = p" using Cons.prems(2) by (metis add.right_neutral length_greater_0_conv list.distinct(1) nth_Cons_0)
  have tl: "\<forall>j < length g. unat (cb_BlockPosition (g ! j)) = Suc p + j"
  proof (intro allI impI)
    fix j assume "j < length g"
    then show "unat (cb_BlockPosition (g ! j)) = Suc p + j" using Cons.prems(2) [rule_format, of "Suc j"] by simp
  qed
  have p: "p < length blocks" using Cons.prems(3) by simp
  have "fold (\<lambda>(w, d) bl. bl[unat (cb_BlockPosition w) := d]) (zip g ds') (blocks[p := d]) =
      take (Suc p) (blocks[p := d]) @ ds' @ drop (Suc p + length g) (blocks[p := d])"
    using Cons.prems by (intro Cons.IH) (simp_all add: ds tl)
  also have "\<dots> = take p blocks @ (d # ds') @ drop (p + length (w # g)) blocks"
    using p by (simp add: take_Suc_conv_app_nth)
  finally show ?case by (simp add: ds w)
qed simp

lemma fillAll_run:
  assumes "run_at stride N p g" "length blocks = N"
  shows "fillAll rdw g blocks = map_option (\<lambda>ds. take p blocks @ ds @ drop (p + length g) blocks) (those (map rdw g))"
proof (cases "those (map rdw g)")
  case (Some ds)
  then have "length ds = length g" by (rule those_length [of "map rdw _", simplified])
  then show ?thesis using fold_splice [of ds g p blocks] assms Some by (simp add: fillAll_def run_at_def)
qed (simp add: fillAll_def)

definition same_length :: "('s, 'l) VB \<Rightarrow> nat \<Rightarrow> bytes list \<Rightarrow> bool" where
  "same_length vb N blocks \<longleftrightarrow> length blocks = N \<and> (\<forall>d \<in> set blocks. length d = unat (BlockSize vb))"

lemma slotW_length:
  assumes "geometry_ok vb" "slotW ob vb v uuid h w = Some d"
  shows "length d = unat (BlockSize vb)"
proof -
  obtain raw where "rawSlot ob (blockStride vb) v (cb_ObjectID w) (cb_ObjectOffset w) = Some raw"
    "openUnder vb uuid h (cb_StartBlock w) (cb_SeqNum w) raw = Some d"
    using assms(2) by (auto simp: slotW_def slotView_def bind_eq_Some_conv)
  moreover from this(1) have "length raw = unat (blockStride vb)" by (auto simp: rawSlot_def split: option.splits if_splits)
  ultimately show ?thesis using openUnder_length [OF assms(1)] by blast
qed

lemma fillAll_same_length:
  assumes "fillAll rdw ws blocks = Some bl" "same_length vb N blocks" "\<And>w d. rdw w = Some d \<Longrightarrow> length d = unat (BlockSize vb)"
  shows "same_length vb N bl"
  using assms(1,2)
proof (induction ws arbitrary: blocks)
  case (Cons w ws)
  obtain d where d: "rdw w = Some d" "fillAll rdw ws (blocks[unat (cb_BlockPosition w) := d]) = Some bl"
    using Cons.prems(1) by (auto simp: fillAll_def split: option.splits)
  have "same_length vb N (blocks[unat (cb_BlockPosition w) := d])"
    using Cons.prems(2) assms(3) [OF d(1)] by (auto simp: same_length_def dest: set_update_subset_insert [THEN subsetD])
  then show ?case using Cons.IH d(2) by blast
qed (simp add: fillAll_def)

definition delivers :: "('s, 'l) VB \<Rightarrow> bytes list option \<Rightarrow> (ReadError + bytes) \<times> ('s, 'l) VB \<Rightarrow> bool" where
  "delivers vb want res \<longleftrightarrow> reads_like vb (snd res) \<and>
     (case want of None \<Rightarrow> (\<exists>e. fst res = Inl e) | Some bl \<Rightarrow> fst res = Inr (concat bl))"

fun foldRuns :: "(ConsecutiveBlock \<Rightarrow> bytes \<Rightarrow> ('s, 'l) VB \<Rightarrow> (ReadError + bytes) \<times> ('s, 'l) VB) \<Rightarrow> ConsecutiveBlock list \<Rightarrow> bytes \<Rightarrow>
    ('s, 'l) VB \<Rightarrow> (ReadError + bytes) \<times> ('s, 'l) VB" where
  "foldRuns step [] data vb = (Inr data, vb)"
| "foldRuns step (cb # cbs) data vb =
     (case step cb data vb of (Inl e, vb) \<Rightarrow> (Inl e, vb) | (Inr data, vb) \<Rightarrow> foldRuns step cbs data vb)"

lemma fetchRuns_fold: "fetchRuns B L cbs data vb = foldRuns (fetchRun B L) cbs data vb"
  by (induction cbs arbitrary: data vb) (simp_all split: prod.split sum.split)

lemma fetchBaseRuns_fold: "fetchBaseRuns B L src u h cbs data vb = foldRuns (fetchBaseRun B L src u h) cbs data vb"
  by (induction cbs arbitrary: data vb) (simp_all split: prod.split sum.split)

lemma foldRuns_delivers:
  assumes "\<And>vb' g p blocks. \<lbrakk>reads_like vb vb'; run_at stride N p g; same_length vb N blocks\<rbrakk> \<Longrightarrow>
      delivers vb' (fillAll rdw g blocks) (step (mergeReads e (hd g) (tl g)) (concat blocks) vb')"
    and "\<And>w d. rdw w = Some d \<Longrightarrow> length d = unat (BlockSize vb)"
    and "\<forall>g \<in> set gs. \<exists>p. run_at stride N p g" "same_length vb N blocks" "reads_like vb vb'"
  shows "delivers vb' (fillAll rdw (concat gs) blocks) (foldRuns step (map (\<lambda>g. mergeReads e (hd g) (tl g)) gs) (concat blocks) vb')"
  using assms(3-5)
proof (induction gs arbitrary: blocks vb')
  case (Cons g gs)
  obtain p where "run_at stride N p g" using Cons.prems(1) by auto
  then have st: "delivers vb' (fillAll rdw g blocks) (step (mergeReads e (hd g) (tl g)) (concat blocks) vb')"
    using assms(1) Cons.prems(2,3) by blast
  obtain r vb1 where r: "step (mergeReads e (hd g) (tl g)) (concat blocks) vb' = (r, vb1)" by fastforce
  have like: "reads_like vb' vb1" using st r by (simp add: delivers_def)
  show ?case
  proof (cases "fillAll rdw g blocks")
    case None
    then show ?thesis using st r like by (auto simp: delivers_def fillAll_append)
  next
    case (Some bl)
    have "same_length vb N bl" by (rule fillAll_same_length [OF Some Cons.prems(2)]) (rule assms(2))
    then have "delivers vb1 (fillAll rdw (concat gs) bl) (foldRuns step (map (\<lambda>g. mergeReads e (hd g) (tl g)) gs) (concat bl) vb1)"
      using Cons.prems reads_like_trans [OF Cons.prems(3) like] by (intro Cons.IH) auto
    moreover have "r = Inr (concat bl)" using st r Some by (simp add: delivers_def)
    ultimately show ?thesis using r Some like by (auto simp: delivers_def fillAll_append intro: reads_like_trans)
  qed
qed (simp add: delivers_def fillAll_def)

text \<open>
  In a chunk the blocks lie in order, so neighbours located in one object by one layer lie in
  neighbouring slots.
\<close>

definition contiguous :: "('s, 'l) VB \<Rightarrow> (Place \<Rightarrow> (u64 \<times> u32 \<times> u64) option) \<Rightarrow> bool" where
  "contiguous vb sel \<longleftrightarrow> (\<forall>b loc loc'. sel (placeOf vb b) = Some loc \<longrightarrow> sel (placeOf vb (b + 1)) = Some loc' \<longrightarrow> fst loc' = fst loc \<longrightarrow>
     unat (fst (snd loc')) = unat (fst (snd loc)) + unat (blockStride vb))"

lemma wanted_run_at:
  assumes "contiguous vb sel" "g \<in> set (runsOf (wants vb block n sel))" "n \<le> 65535"
  shows "\<exists>p. run_at (blockStride vb) n p g"
proof -
  have g: "g \<noteq> []" "is_run g" using assms(2) runsOf_nonempty runsOf_is_run by blast+
  have mem: "w \<in> set (wants vb block n sel)" if "w \<in> set g" for w
    using that assms(2) runsOf_concat [of "wants vb block n sel"] by (metis UN_I set_concat)
  obtain p loc0 where p: "p < n" "hd g = wanted vb block p loc0" "sel (placeOf vb (block + of_nat p)) = Some loc0"
    using mem [of "hd g"] g(1) by (auto elim: wants_blocks)
  let ?st = "unat (blockStride vb)"
  have at: "p + j < n \<and> (\<exists>loc. g ! j = wanted vb block (p + j) loc \<and> sel (placeOf vb (block + of_nat (p + j))) = Some loc \<and>
      fst loc = fst loc0 \<and> unat (fst (snd loc)) = unat (fst (snd loc0)) + j * ?st)" if "j < length g" for j
    using that
  proof (induction j)
    case 0
    then show ?case using p g(1) by (intro conjI exI [of _ loc0]) (simp_all add: hd_conv_nth)
  next
    case (Suc j)
    obtain loc where j: "p + j < n" "sel (placeOf vb (block + of_nat (p + j))) = Some loc" "fst loc = fst loc0"
      "unat (fst (snd loc)) = unat (fst (snd loc0)) + j * ?st" using Suc by auto
    obtain i loc' where i: "i < n" "g ! Suc j = wanted vb block i loc'" "sel (placeOf vb (block + of_nat i)) = Some loc'"
      using mem [of "g ! Suc j"] Suc.prems by (auto elim: wants_blocks)
    have run: "cb_StartBlock (g ! Suc j) = cb_StartBlock (hd g) + of_nat (Suc j)" "cb_ObjectID (g ! Suc j) = cb_ObjectID (hd g)"
      using is_run_nth [OF g(2) Suc.prems] by simp_all
    then have "(of_nat i :: u64) = of_nat (p + Suc j)" by (simp add: i(2) p(2) wanted_def Let_def algebra_simps)
    then have "unat (of_nat i :: u64) = unat (of_nat (p + Suc j) :: u64)" by simp
    then have ij: "i = p + Suc j" using i(1) j(1) assms(3) by (simp add: unat_of_nat_u64 del: of_nat_Suc of_nat_add)
    have id: "fst loc' = fst loc" using run(2) j(3) by (simp add: i(2) p(2) wanted_def Let_def)
    have "block + of_nat i = block + of_nat (p + j) + 1" by (simp add: ij algebra_simps)
    then have "unat (fst (snd loc')) = unat (fst (snd loc)) + ?st" using assms(1) j(2) i(3) id unfolding contiguous_def by metis
    then show ?case using i j id ij by (intro conjI exI [of _ loc']) simp_all
  qed
  have "run_at (blockStride vb) n p g"
    unfolding run_at_def
  proof (intro conjI allI impI)
    show "p + length g \<le> n" using at [of "length g - 1"] g(1) by (cases g) auto
    fix j assume j: "j < length g"
    show "cb_StartBlock (g ! j) = cb_StartBlock (hd g) + of_nat j" "cb_ObjectID (g ! j) = cb_ObjectID (hd g)"
      using is_run_nth [OF g(2) j] by simp_all
    show "unat (cb_ObjectOffset (g ! j)) = unat (cb_ObjectOffset (hd g)) + j * ?st" "unat (cb_BlockPosition (g ! j)) = p + j"
      using at [OF j] assms(3) by (auto simp: p(2) wanted_def Let_def unat_of_nat_u64 simp del: of_nat_add)
  qed (rule g(1))
  then show ?thesis by blast
qed

lemma fillAll_wants:
  assumes "length blocks = N" "n \<le> N" "N \<le> 65535" "\<And>i loc. i < n \<Longrightarrow> sel (placeOf vb (block + of_nat i)) = Some loc \<Longrightarrow> rdw (wanted vb block i loc) = want i"
  shows "fillAll rdw (wants vb block n sel) blocks =
    (if \<exists>i < n. sel (placeOf vb (block + of_nat i)) \<noteq> None \<and> want i = None then None
     else Some (map (\<lambda>i. if i < n \<and> sel (placeOf vb (block + of_nat i)) \<noteq> None then the (want i) else blocks ! i) [0..<N]))"
  using assms(2,4)
proof (induction n)
  case 0
  then show ?case using assms(1) by (simp add: wants_def fillAll_def map_nth [symmetric] cong: map_cong) (metis map_nth)
next
  case (Suc n)
  let ?sel = "\<lambda>i. sel (placeOf vb (block + of_nat i))"
  let ?bl = "map (\<lambda>i. if i < n \<and> ?sel i \<noteq> None then the (want i) else blocks ! i) [0..<N]"
  have IH: "fillAll rdw (wants vb block n sel) blocks = (if \<exists>i < n. ?sel i \<noteq> None \<and> want i = None then None else Some ?bl)"
    using Suc.prems by (intro Suc.IH) simp_all
  have pos: "unat (cb_BlockPosition (wanted vb block n loc)) = n" for loc
    using Suc.prems(1) assms(3) by (simp add: wanted_def Let_def unat_of_nat_u64)
  show ?case
  proof (cases "?sel n")
    case None
    then have "(if i < Suc n \<and> ?sel i \<noteq> None then the (want i) else blocks ! i) = (if i < n \<and> ?sel i \<noteq> None then the (want i) else blocks ! i)" for i
      by (auto simp: less_Suc_eq)
    moreover have "(\<exists>i < Suc n. ?sel i \<noteq> None \<and> want i = None) = (\<exists>i < n. ?sel i \<noteq> None \<and> want i = None)" using None by (auto simp: less_Suc_eq)
    ultimately show ?thesis using IH None by (simp only: wants_Suc) (simp split: if_splits)
  next
    case (Some loc)
    have w: "rdw (wanted vb block n loc) = want n" using Suc.prems(2) [of n loc] Some by simp
    have one: "fillAll rdw [wanted vb block n loc] bl = map_option (\<lambda>d. bl[n := d]) (want n)" for bl
      using w by (cases "want n") (simp_all add: fillAll_def pos)
    have "?bl[n := d] = map (\<lambda>i. if i < Suc n \<and> ?sel i \<noteq> None then the (want i) else blocks ! i) [0..<N]" if "want n = Some d" for d
    proof (rule nth_equalityI)
      fix i assume "i < length (?bl[n := d])"
      then show "?bl[n := d] ! i = map (\<lambda>i. if i < Suc n \<and> ?sel i \<noteq> None then the (want i) else blocks ! i) [0..<N] ! i"
        using that Some by (cases "i = n"; cases loc) (simp_all add: less_Suc_eq)
    qed simp
    note upd = this
    show ?thesis
    proof (cases "want n")
      case None
      then have "\<exists>i < Suc n. ?sel i \<noteq> None \<and> want i = None" using Some by (intro exI [of _ n]) simp
      moreover have "fillAll rdw (wants vb block (Suc n) sel) blocks = None"
        using None Some one by (simp add: wants_Suc fillAll_append del: not_None_eq split: option.split)
      ultimately show ?thesis by (simp only: if_True)
    next
      case (Some d)
      then have "(\<exists>i < Suc n. ?sel i \<noteq> None \<and> want i = None) = (\<exists>i < n. ?sel i \<noteq> None \<and> want i = None)" by (auto simp: less_Suc_eq)
      then show ?thesis using IH Some one upd [OF Some] \<open>?sel n = Some loc\<close>
        by (simp only: wants_Suc fillAll_append option.case) (simp del: not_None_eq split: if_splits)
    qed
  qed
qed

fun fillLayers :: "((ConsecutiveBlock \<Rightarrow> bytes option) \<times> ConsecutiveBlock list) list \<Rightarrow> bytes list \<Rightarrow> bytes list option" where
  "fillLayers [] blocks = Some blocks"
| "fillLayers ((rdw, ws) # ls) blocks = (case fillAll rdw ws blocks of None \<Rightarrow> None | Some bl \<Rightarrow> fillLayers ls bl)"

lemma fillLayers_spec:
  fixes vb :: "('s, 'l) VB" and block :: u64
  defines "P \<equiv> \<lambda>i. placeOf vb (block + of_nat i)"
  assumes "length blocks = N" "N \<le> 65535"
    "\<forall>(rdw, sel) \<in> set ls. \<forall>i < N. \<forall>loc. sel (P i) = Some loc \<longrightarrow> rdw (wanted vb block i loc) = want i"
  shows "fillLayers (map (\<lambda>(rdw, sel). (rdw, wants vb block N sel)) ls) blocks =
    (if \<exists>i < N. (\<exists>l \<in> set ls. snd l (P i) \<noteq> None) \<and> want i = None then None
     else Some (map (\<lambda>i. if \<exists>l \<in> set ls. snd l (P i) \<noteq> None then the (want i) else blocks ! i) [0..<N]))"
  using assms(2,4)
proof (induction ls arbitrary: blocks)
  case Nil
  then show ?case by simp (metis map_nth)
next
  case (Cons l ls)
  obtain rdw sel where l: "l = (rdw, sel)" by fastforce
  let ?bl = "map (\<lambda>i. if i < N \<and> sel (P i) \<noteq> None then the (want i) else blocks ! i) [0..<N]"
  have fill: "fillAll rdw (wants vb block N sel) blocks = (if \<exists>i < N. sel (P i) \<noteq> None \<and> want i = None then None else Some ?bl)"
    unfolding P_def using Cons.prems(1) assms(3) order_refl [of N] Cons.prems(2) by (intro fillAll_wants) (auto simp: l P_def)
  have sp: "(\<exists>k \<in> set (l # ls). snd k (P i) \<noteq> None) \<longleftrightarrow> sel (P i) \<noteq> None \<or> (\<exists>k \<in> set ls. snd k (P i) \<noteq> None)" for i
    by (simp only: l list.set bex_simps snd_conv)
  show ?case
  proof (cases "\<exists>i < N. sel (P i) \<noteq> None \<and> want i = None")
    case True
    then have "fillLayers (map (\<lambda>(rdw, sel). (rdw, wants vb block N sel)) (l # ls)) blocks = None" using fill by (simp add: l)
    moreover have "\<exists>i < N. (\<exists>l \<in> set (l # ls). snd l (P i) \<noteq> None) \<and> want i = None" using True by (auto simp: l)
    ultimately show ?thesis by simp
  next
    case False
    have "fillAll rdw (wants vb block N sel) blocks = Some ?bl" using fill False by (simp only: if_False)
    then have "fillLayers (map (\<lambda>(rdw, sel). (rdw, wants vb block N sel)) (l # ls)) blocks =
        fillLayers (map (\<lambda>(rdw, sel). (rdw, wants vb block N sel)) ls) ?bl" by (simp only: l list.map prod.case fillLayers.simps option.case)
    also have "\<dots> = (if \<exists>i < N. (\<exists>l \<in> set ls. snd l (P i) \<noteq> None) \<and> want i = None then None
        else Some (map (\<lambda>i. if \<exists>l \<in> set ls. snd l (P i) \<noteq> None then the (want i) else ?bl ! i) [0..<N]))"
      using Cons.prems(2) by (intro Cons.IH) simp_all
    also have "(\<exists>i < N. (\<exists>l \<in> set ls. snd l (P i) \<noteq> None) \<and> want i = None) = (\<exists>i < N. (\<exists>l \<in> set (l # ls). snd l (P i) \<noteq> None) \<and> want i = None)"
      unfolding sp using False by blast
    also have "map (\<lambda>i. if \<exists>l \<in> set ls. snd l (P i) \<noteq> None then the (want i) else ?bl ! i) [0..<N] =
        map (\<lambda>i. if \<exists>l \<in> set (l # ls). snd l (P i) \<noteq> None then the (want i) else blocks ! i) [0..<N]"
      unfolding sp by (intro map_cong refl) (simp del: not_None_eq)
    finally show ?thesis .
  qed
qed

text \<open>When a request of \<open>N\<close> blocks can be served: the bounds, a reachable backend, chunks and buffers in good form.\<close>

definition read_ready :: "('s \<Rightarrow> string \<Rightarrow> bytes option) \<Rightarrow> ('s \<Rightarrow> string \<Rightarrow> bool) \<Rightarrow> nat \<Rightarrow> ('s, 'l) VB \<Rightarrow> bool" where
  "read_ready ob rable N vb \<longleftrightarrow> request_ok vb N \<and> geometry_ok vb \<and> (\<forall>k. rable (vb_Backend vb) k) \<and>
     encrypted_chunks (ob (vb_Backend vb)) vb \<and> buffered_ok vb \<and>
     contiguous vb selOwn \<and> contiguous vb selBase \<and> (\<forall>k. contiguous vb (selAnc k))"

definition rdBase :: "(string \<Rightarrow> bytes option) \<Rightarrow> ('s, 'l) VB \<Rightarrow> string \<Rightarrow> bytes \<Rightarrow> bytes \<Rightarrow> ConsecutiveBlock \<Rightarrow> bytes option" where
  "rdBase ob vb v uuid h w = (if v = [] then None else slotW ob vb v uuid h w)"

definition ancLayer :: "(string \<Rightarrow> bytes option) \<Rightarrow> ('s, 'l) VB \<Rightarrow> snapshotAncestor \<Rightarrow> ConsecutiveBlock \<Rightarrow> bytes option" where
  "ancLayer ob vb a = rdBase ob vb (anc_sourceVolumeName a) (anc_sourceVolumeUUID a) (anc_sourceVolumeNameHash a)"

text \<open>The layers of a request in the order in which they are fetched.\<close>

definition readLayers :: "(string \<Rightarrow> bytes option) \<Rightarrow> string \<Rightarrow> ('s, 'l) VB \<Rightarrow>
    ((ConsecutiveBlock \<Rightarrow> bytes option) \<times> (Place \<Rightarrow> (u64 \<times> u32 \<times> u64) option)) list" where
  "readLayers ob vol vb =
     (slotW ob vb vol (VolumeUUID vb) (volumeNameHash vb), selOwn) #
     (rdBase ob vb (SourceVolumeName vb) (SourceVolumeUUID vb) (sourceVolumeNameHash vb), selBase) #
     map (\<lambda>k. (ancLayer ob vb (ancestors vb ! k), selAnc k)) [0..<length (ancestors vb)]"

lemma delivers_trans:
  assumes "delivers vb (Some bl) (Inr data, vb1)" "delivers vb1 want res"
  shows "delivers vb want res"
  using assms by (auto simp: delivers_def intro: reads_like_trans split: option.splits)

lemma delivers_cases:
  assumes "delivers vb want res"
  obtains (fails) e vb1 where "want = None" "res = (Inl e, vb1)" "reads_like vb vb1"
  | (works) bl vb1 where "want = Some bl" "res = (Inr (concat bl), vb1)" "reads_like vb vb1"
  using assms by (cases want; cases res) (auto simp: delivers_def)

lemma placeOf_anc_bound: "placeOf vb b = PAnc ai loc \<Longrightarrow> ai < length (ancestors vb)"
  using findAncestor_bound by (fastforce simp: placeOf_def placeBelow_def split: option.splits BlockState.splits)

lemma slotW_wanted: "slotW ob vb v u h (wanted vb block i loc) = slotView ob vb v u h (block + of_nat i) loc"
  by (simp add: slotW_def wanted_def Let_def)

lemma readLayers_view:
  assumes "(rdw, sel) \<in> set (readLayers ob vol vb)" "sel (placeOf vb (block + of_nat i)) = Some loc"
  shows "rdw (wanted vb block i loc) = viewAt ob vol vb (block + of_nat i) (placeOf vb (block + of_nat i))"
  using assms by (cases "placeOf vb (block + of_nat i)")
    (auto simp: readLayers_def viewAt_def slotW_wanted rdBase_def ancLayer_def Let_def split: if_splits)

lemma readLayers_selects:
  "(\<exists>l \<in> set (readLayers ob vol vb). snd l (placeOf vb b) \<noteq> None) \<longleftrightarrow> (\<forall>d. placeOf vb b \<noteq> PBuf d) \<and> placeOf vb b \<noteq> PZero"
proof (cases "placeOf vb b")
  case (PAnc ai loc)
  then have "ai < length (ancestors vb)" by (rule placeOf_anc_bound)
  then have "(ancLayer ob vb (ancestors vb ! ai), selAnc ai) \<in> set (readLayers ob vol vb)" by (auto simp: readLayers_def)
  then have "\<exists>l \<in> set (readLayers ob vol vb). snd l (placeOf vb b) \<noteq> None" by (rule bexI [rotated]) (simp add: PAnc)
  then show ?thesis using PAnc by simp
qed (auto simp: readLayers_def)

lemma layers_view:
  fixes vb :: "('s, 'l) VB" and block :: u64 and ob :: "string \<Rightarrow> bytes option" and vol :: string
  defines "V \<equiv> \<lambda>i. viewAt ob vol vb (block + of_nat i) (placeOf vb (block + of_nat i))"
  assumes "N \<le> 65535"
  shows "fillLayers (map (\<lambda>(rdw, sel). (rdw, wants vb block N sel)) (readLayers ob vol vb)) (map (\<lambda>i. initBlock vb (block + of_nat i)) [0..<N]) =
    those (map V [0..<N])"
proof -
  let ?P = "\<lambda>i. placeOf vb (block + of_nat i)" and ?L = "set (readLayers ob vol vb)"
  let ?init = "map (\<lambda>i. initBlock vb (block + of_nat i)) [0..<N]"
  have other: "V i = Some (initBlock vb (block + of_nat i))" if "\<not> (\<exists>l \<in> ?L. snd l (?P i) \<noteq> None)" for i
    using that unfolding readLayers_selects by (cases "?P i") (auto simp: V_def viewAt_def initBlock_def)
  have spec: "fillLayers (map (\<lambda>(rdw, sel). (rdw, wants vb block N sel)) (readLayers ob vol vb)) ?init =
    (if \<exists>i < N. (\<exists>l \<in> ?L. snd l (?P i) \<noteq> None) \<and> V i = None then None
     else Some (map (\<lambda>i. if \<exists>l \<in> ?L. snd l (?P i) \<noteq> None then the (V i) else ?init ! i) [0..<N]))"
    using assms(2) by (intro fillLayers_spec) (auto simp: V_def readLayers_view)
  show ?thesis
  proof (cases "\<exists>i < N. V i = None")
    case True
    then have "\<exists>i < N. (\<exists>l \<in> ?L. snd l (?P i) \<noteq> None) \<and> V i = None" using other by (metis option.discI)
    moreover have "those (map V [0..<N]) = None" using True unfolding those_None by force
    ultimately show ?thesis using spec by (simp only: if_True)
  next
    case False
    then have "\<not> (\<exists>i < N. (\<exists>l \<in> ?L. snd l (?P i) \<noteq> None) \<and> V i = None)" by blast
    then have "fillLayers (map (\<lambda>(rdw, sel). (rdw, wants vb block N sel)) (readLayers ob vol vb)) ?init =
        Some (map (\<lambda>i. if \<exists>l \<in> ?L. snd l (?P i) \<noteq> None then the (V i) else ?init ! i) [0..<N])" using spec by (simp only: if_False)
    also have "map (\<lambda>i. if \<exists>l \<in> ?L. snd l (?P i) \<noteq> None then the (V i) else ?init ! i) [0..<N] = map (\<lambda>i. the (V i)) [0..<N]"
    proof (rule map_cong [OF refl])
      fix i assume "i \<in> set [0..<N]"
      then show "(if \<exists>l \<in> ?L. snd l (?P i) \<noteq> None then the (V i) else ?init ! i) = the (V i)" using other [of i] by (simp del: not_None_eq)
    qed
    moreover have "map V [0..<N] = map Some (map (\<lambda>i. the (V i)) [0..<N])" using False by simp
    ultimately show ?thesis using those_map_Some by metis
  qed
qed

context backend_laws
begin

lemma run_read:
  fixes v :: string and uuid h :: bytes
  assumes "request_ok vb N" "geometry_ok vb" "run_at (blockStride vb) N p g" "\<forall>k. readable s k"
  defines "rd \<equiv> be_ReadFrom B s v FileTypeChunk (cb_ObjectID (hd g)) (cb_ObjectOffset (hd g))
    (ucast (cb_NumBlocks (mergeReads (EncryptionEnabled vb) (hd g) (tl g))) * blockStride vb)"
  obtains (fits) raw c where "rd = Inr raw" "length raw = length g * unat (blockStride vb)" "map (slotW (obj s) vb v uuid h) g = runViews vb uuid h raw g"
      "obj s (GetFilePath FileTypeChunk (cb_ObjectID (hd g)) v) = Some c"
  | (misses) e where "rd = Inl e" "\<exists>w \<in> set g. slotW (obj s) vb v uuid h w = None"
proof -
  let ?st = "unat (blockStride vb)" and ?k = "length g" and ?off = "unat (cb_ObjectOffset (hd g))"
  let ?key = "GetFilePath FileTypeChunk (cb_ObjectID (hd g)) v"
  let ?len = "ucast (cb_NumBlocks (mergeReads (EncryptionEnabled vb) (hd g) (tl g))) * blockStride vb :: u32"
  have len: "unat ?len = ?k * ?st" using run_numbers(2) [OF assms(1-3)] .
  have g: "g \<noteq> []" and run: "\<And>j. j < ?k \<Longrightarrow> cb_ObjectID (g ! j) = cb_ObjectID (hd g) \<and> unat (cb_ObjectOffset (g ! j)) = ?off + j * ?st"
    using assms(3) by (auto simp: run_at_def)
  have pos: "0 < ?st" using stride_pos [OF assms(2)] by (simp add: unat_gt_0)
  have nz: "?len \<noteq> 0" using len g pos by (auto simp: unat_eq_0 [symmetric])
  have slot: "slotW (obj s) vb v uuid h (g ! j) =
      (case obj s ?key of None \<Rightarrow> None
       | Some c \<Rightarrow> if ?off + j * ?st + ?st \<le> length c
           then openUnder vb uuid h (cb_StartBlock (g ! j)) (cb_SeqNum (g ! j)) (take ?st (drop (?off + j * ?st) c)) else None)" if "j < ?k" for j
    using run [OF that] by (simp add: slotW_def slotView_def rawSlot_def split: option.split)
  show thesis
  proof (cases "\<exists>c. obj s ?key = Some c \<and> ?off + ?k * ?st \<le> length c")
    case True
    then obtain c where c: "obj s ?key = Some c" "?off + ?k * ?st \<le> length c" by blast
    let ?raw = "take (?k * ?st) (drop ?off c)"
    have "rd = Inr ?raw" unfolding rd_def using Read_complete [of s FileTypeChunk "cb_ObjectID (hd g)" v c "cb_ObjectOffset (hd g)" ?len] assms(4) c len nz by simp
    moreover have "length ?raw = ?k * ?st" using c(2) by simp
    moreover have "map (slotW (obj s) vb v uuid h) g = runViews vb uuid h ?raw g"
    proof (rule nth_equalityI)
      fix j assume "j < length (map (slotW (obj s) vb v uuid h) g)"
      then have j: "j < ?k" by simp
      have jk: "j * ?st + ?st \<le> ?k * ?st" using mult_le_mono1 [of "Suc j" ?k ?st] j by simp
      then have "take ?st (drop (j * ?st) ?raw) = take ?st (drop (?off + j * ?st) c)" by (simp add: drop_take add.commute)
      then show "map (slotW (obj s) vb v uuid h) g ! j = runViews vb uuid h ?raw g ! j"
        using j jk c slot [OF j] by (simp add: runViews_def)
    qed (simp add: runViews_def)
    ultimately show thesis using fits c(1) by blast
  next
    case False
    have "\<exists>e. rd = Inl e"
    proof (cases rd)
      case (Inr data)
      then show ?thesis using Read_sound [of s v FileTypeChunk "cb_ObjectID (hd g)" "cb_ObjectOffset (hd g)" ?len data] nz len False
        unfolding rd_def by auto
    qed simp
    moreover have "slotW (obj s) vb v uuid h (g ! (?k - 1)) = None"
    proof -
      have "(?k - 1) * ?st + ?st = ?k * ?st" using g by (cases ?k) simp_all
      then show ?thesis using slot [of "?k - 1"] g False by (auto split: option.split)
    qed
    moreover have "g ! (?k - 1) \<in> set g" using g by simp
    ultimately show thesis using misses by blast
  qed
qed

lemma magic_known:
  assumes "encrypted_chunks (obj s) vb" "\<forall>k. readable s k"
    "checkChunkMagic (be_ReadFrom B s v FileTypeChunk oid) name oid vb = (r, vb')"
  shows "reads_like vb vb'" "obj s (GetFilePath FileTypeChunk oid v) = Some c \<Longrightarrow> r = None"
proof -
  show "reads_like vb vb'" using assms(3) by (auto simp: checkChunkMagic_def split: if_splits sum.splits)
  assume c: "obj s (GetFilePath FileTypeChunk oid v) = Some c"
  show "r = None"
  proof (cases "EncryptionEnabled vb")
    case True
    then have "4 \<le> length c" "take 4 c = ChunkMagic True" using assms(1) c by (auto simp: encrypted_chunks_def)
    moreover from this(1) have "be_ReadFrom B s v FileTypeChunk oid 0 4 = Inr (take 4 c)"
      using Read_complete [of s FileTypeChunk oid v c 0 4] assms(2) c by simp
    ultimately show ?thesis using assms(3) by (auto simp: checkChunkMagic_def ChunkMagic_def split: if_splits)
  qed (use assms(3) in \<open>simp add: checkChunkMagic_def\<close>)
qed

lemma fetchBaseRun_delivers:
  assumes "request_ok vb N" "geometry_ok vb" "run_at (blockStride vb) N p g" "\<forall>k. readable (vb_Backend vb) k"
    "encrypted_chunks (obj (vb_Backend vb)) vb" "same_length vb N blocks"
  shows "delivers vb (fillAll (slotW (obj (vb_Backend vb)) vb v uuid h) g blocks)
    (fetchBaseRun B L v uuid h (mergeReads (EncryptionEnabled vb) (hd g) (tl g)) (concat blocks) vb)"
proof -
  let ?s = "vb_Backend vb" and ?cb = "mergeReads (EncryptionEnabled vb) (hd g) (tl g)" and ?oid = "cb_ObjectID (hd g)"
  have cb: "cb_ObjectID ?cb = ?oid" "cb_ObjectOffset ?cb = cb_ObjectOffset (hd g)" by (simp_all add: mergeReads_def)
  obtain r vb1 where m: "checkChunkMagic (be_ReadFrom B ?s v FileTypeChunk ?oid) v ?oid vb = (r, vb1)" by fastforce
  note like = magic_known(1) [OF assms(5,4) m]
  note d = reads_likeD [OF like] and c = reads_like_cong [OF like]
  have blocks: "length blocks = N" "\<forall>d \<in> set blocks. length d = unat (BlockSize vb1)" using assms(6) d by (simp_all add: same_length_def)
  note fill = fillAll_run [OF assms(3) blocks(1), of "slotW (obj ?s) vb v uuid h"]
  show ?thesis
  proof (rule run_read [OF assms(1-4), of v uuid h])
    fix raw o' assume raw: "be_ReadFrom B ?s v FileTypeChunk ?oid (cb_ObjectOffset (hd g)) (ucast (cb_NumBlocks ?cb) * blockStride vb) = Inr raw"
      "length raw = length g * unat (blockStride vb)" "map (slotW (obj ?s) vb v uuid h) g = runViews vb uuid h raw g"
      "obj ?s (GetFilePath FileTypeChunk ?oid v) = Some o'"
    have "r = None" by (rule magic_known(2) [OF assms(5,4) m raw(4)])
    moreover have "placeRun ?cb uuid h raw (concat blocks) vb1 =
        (case those (runViews vb uuid h raw g) of None \<Rightarrow> Inl ErrChunkIntegrity
         | Some ds \<Rightarrow> Inr (concat (take p blocks @ ds @ drop (p + length g) blocks)))"
      using placeRun_run [of vb1 N p g raw blocks uuid h] assms(1-3) raw(2) blocks by (simp add: c d)
    moreover have "length raw = unat (ucast (cb_NumBlocks ?cb) * blockStride vb :: u32)"
      using run_numbers(2) [OF assms(1-3), of "EncryptionEnabled vb"] raw(2) by simp
    ultimately show ?thesis using m raw(1) like
      by (cases "those (runViews vb uuid h raw g)") (simp_all add: fetchBaseRun_def cb d Let_def delivers_def fill raw(3))
  next
    fix e assume miss: "be_ReadFrom B ?s v FileTypeChunk ?oid (cb_ObjectOffset (hd g)) (ucast (cb_NumBlocks ?cb) * blockStride vb) = Inl e"
      "\<exists>w \<in> set g. slotW (obj ?s) vb v uuid h w = None"
    then have "those (map (slotW (obj ?s) vb v uuid h) g) = None" by (auto simp: those_None image_iff intro: sym)
    then show ?thesis using m miss(1) like
      by (cases r) (simp_all add: fetchBaseRun_def cb d Let_def delivers_def fill)
  qed
qed

lemma fetchRun_delivers:
  assumes "request_ok vb N" "geometry_ok vb" "run_at (blockStride vb) N p g" "\<forall>k. readable (vb_Backend vb) k"
    "encrypted_chunks (obj (vb_Backend vb)) vb" "same_length vb N blocks"
  shows "delivers vb (fillAll (slotW (obj (vb_Backend vb)) vb vol (VolumeUUID vb) (volumeNameHash vb)) g blocks)
    (fetchRun B L (mergeReads (EncryptionEnabled vb) (hd g) (tl g)) (concat blocks) vb)"
proof -
  let ?s = "vb_Backend vb" and ?cb = "mergeReads (EncryptionEnabled vb) (hd g) (tl g)" and ?oid = "cb_ObjectID (hd g)"
  let ?u = "VolumeUUID vb" and ?h = "volumeNameHash vb"
  have cb: "cb_ObjectID ?cb = ?oid" "cb_ObjectOffset ?cb = cb_ObjectOffset (hd g)" by (simp_all add: mergeReads_def)
  have own: "be_Read B ?s FileTypeChunk ?oid = be_ReadFrom B ?s vol FileTypeChunk ?oid" by (simp add: fun_eq_iff Read_own)
  obtain r vb1 where m: "checkChunkMagic (be_ReadFrom B ?s vol FileTypeChunk ?oid) (VolumeName vb) ?oid vb = (r, vb1)" by fastforce
  note like = magic_known(1) [OF assms(5,4) m]
  note d = reads_likeD [OF like] and c = reads_like_cong [OF like]
  have blocks: "length blocks = N" "\<forall>d \<in> set blocks. length d = unat (BlockSize vb1)" using assms(6) d by (simp_all add: same_length_def)
  note fill = fillAll_run [OF assms(3) blocks(1), of "slotW (obj ?s) vb vol ?u ?h"]
  show ?thesis
  proof (rule run_read [OF assms(1-4), of vol ?u ?h])
    fix raw o' assume raw: "be_ReadFrom B ?s vol FileTypeChunk ?oid (cb_ObjectOffset (hd g)) (ucast (cb_NumBlocks ?cb) * blockStride vb) = Inr raw"
      "length raw = length g * unat (blockStride vb)" "map (slotW (obj ?s) vb vol ?u ?h) g = runViews vb ?u ?h raw g"
      "obj ?s (GetFilePath FileTypeChunk ?oid vol) = Some o'"
    have "r = None" by (rule magic_known(2) [OF assms(5,4) m raw(4)])
    moreover have "placeRun ?cb ?u ?h raw (concat blocks) vb1 =
        (case those (runViews vb ?u ?h raw g) of None \<Rightarrow> Inl ErrChunkIntegrity
         | Some ds \<Rightarrow> Inr (concat (take p blocks @ ds @ drop (p + length g) blocks)))"
      using placeRun_run [of vb1 N p g raw blocks ?u ?h] assms(1-3) raw(2) blocks by (simp add: c d)
    ultimately show ?thesis using m raw(1) like
      by (cases "those (runViews vb ?u ?h raw g)") (simp_all add: fetchRun_def cb own d delivers_def fill raw(3))
  next
    fix e assume miss: "be_ReadFrom B ?s vol FileTypeChunk ?oid (cb_ObjectOffset (hd g)) (ucast (cb_NumBlocks ?cb) * blockStride vb) = Inl e"
      "\<exists>w \<in> set g. slotW (obj ?s) vb vol ?u ?h w = None"
    then have "those (map (slotW (obj ?s) vb vol ?u ?h) g) = None" by (auto simp: those_None image_iff intro: sym)
    then show ?thesis using m miss(1) like
      by (cases r) (simp_all add: fetchRun_def cb own d delivers_def fill)
  qed
qed

lemma fetchOwn_delivers:
  assumes "read_ready obj readable N vb" "reads_like vb vb'" "same_length vb N blocks"
  shows "delivers vb' (fillAll (slotW (obj (vb_Backend vb)) vb vol (VolumeUUID vb) (volumeNameHash vb)) (wants vb block N selOwn) blocks)
    (fetchConsecutiveBlocksFromBackend B L (wants vb block N selOwn) (concat blocks) vb')"
proof -
  let ?ws = "wants vb block N selOwn" and ?rdw = "slotW (obj (vb_Backend vb)) vb vol (VolumeUUID vb) (volumeNameHash vb)"
  have r: "request_ok vb N" "geometry_ok vb" "\<forall>k. readable (vb_Backend vb) k" "encrypted_chunks (obj (vb_Backend vb)) vb" "contiguous vb selOwn"
    using assms(1) by (simp_all add: read_ready_def)
  have N: "N \<le> 65535" using r(1) by (simp add: request_ok_def)
  have runs: "\<forall>g \<in> set (runsOf ?ws). \<exists>p. run_at (blockStride vb) N p g" using wanted_run_at [OF r(5) _ N] by blast
  have step: "delivers vb1 (fillAll ?rdw g bl) (fetchRun B L (mergeReads (EncryptionEnabled vb) (hd g) (tl g)) (concat bl) vb1)"
    if l: "reads_like vb vb1" and g: "run_at (blockStride vb) N p g" "same_length vb N bl" for vb1 g p bl
    using fetchRun_delivers [of vb1 N p g bl L] r(1-4) g by (simp add: reads_likeD [OF l] reads_like_cong [OF l] same_length_def)
  have "delivers vb' (fillAll ?rdw (concat (runsOf ?ws)) blocks)
      (foldRuns (fetchRun B L) (map (\<lambda>g. mergeReads (EncryptionEnabled vb) (hd g) (tl g)) (runsOf ?ws)) (concat blocks) vb')"
    by (rule foldRuns_delivers [OF step _ runs assms(3,2)]) (auto intro: slotW_length [OF r(2)])
  moreover have "coalesceReads (EncryptionEnabled vb) [] ?ws = map (\<lambda>g. mergeReads (EncryptionEnabled vb) (hd g) (tl g)) (runsOf ?ws)"
    using N by (intro coalesce_runs wants_distinct) simp
  ultimately show ?thesis
    by (simp add: fetchConsecutiveBlocksFromBackend_def fetchRuns_fold runsOf_concat reads_likeD [OF assms(2)])
qed

lemma fetchBase_delivers:
  assumes "read_ready obj readable N vb" "contiguous vb sel" "reads_like vb vb'" "same_length vb N blocks" "wants vb block N sel \<noteq> []"
  shows "delivers vb' (fillAll (rdBase (obj (vb_Backend vb)) vb v uuid h) (wants vb block N sel) blocks)
    (fetchBaseBlocksFromBackend B L v uuid h (wants vb block N sel) (concat blocks) vb')"
proof (cases "v = []")
  case True
  then have "those (map (rdBase (obj (vb_Backend vb)) vb v uuid h) (wants vb block N sel)) = None"
    using assms(5) by (cases "wants vb block N sel") (simp_all add: rdBase_def)
  then show ?thesis using True by (simp add: fetchBaseBlocksFromBackend_def delivers_def fillAll_def)
next
  case False
  let ?ws = "wants vb block N sel" and ?rdw = "slotW (obj (vb_Backend vb)) vb v uuid h"
  have rd: "rdBase (obj (vb_Backend vb)) vb v uuid h = ?rdw" using False by (simp add: rdBase_def fun_eq_iff)
  have r: "request_ok vb N" "geometry_ok vb" "\<forall>k. readable (vb_Backend vb) k" "encrypted_chunks (obj (vb_Backend vb)) vb"
    using assms(1) by (simp_all add: read_ready_def)
  have N: "N \<le> 65535" using r(1) by (simp add: request_ok_def)
  have runs: "\<forall>g \<in> set (runsOf ?ws). \<exists>p. run_at (blockStride vb) N p g" using wanted_run_at [OF assms(2) _ N] by blast
  have step: "delivers vb1 (fillAll ?rdw g bl) (fetchBaseRun B L v uuid h (mergeReads (EncryptionEnabled vb) (hd g) (tl g)) (concat bl) vb1)"
    if l: "reads_like vb vb1" and g: "run_at (blockStride vb) N p g" "same_length vb N bl" for vb1 g p bl
    using fetchBaseRun_delivers [of vb1 N p g bl v uuid h L] r(1-4) g by (simp add: reads_likeD [OF l] reads_like_cong [OF l] same_length_def)
  have "delivers vb' (fillAll ?rdw (concat (runsOf ?ws)) blocks)
      (foldRuns (fetchBaseRun B L v uuid h) (map (\<lambda>g. mergeReads (EncryptionEnabled vb) (hd g) (tl g)) (runsOf ?ws)) (concat blocks) vb')"
    by (rule foldRuns_delivers [OF step _ runs assms(4,3)]) (auto intro: slotW_length [OF r(2)])
  moreover have "coalesceReads (EncryptionEnabled vb) [] ?ws = map (\<lambda>g. mergeReads (EncryptionEnabled vb) (hd g) (tl g)) (runsOf ?ws)"
    using N by (intro coalesce_runs wants_distinct) simp
  ultimately show ?thesis using False
    by (simp add: fetchBaseBlocksFromBackend_def fetchBaseRuns_fold runsOf_concat rd reads_likeD [OF assms(3)])
qed

lemma fetchAncestors_delivers:
  assumes "read_ready obj readable N vb" "reads_like vb vb'" "same_length vb N blocks"
  shows "delivers vb' (fillLayers (map (\<lambda>k. (ancLayer (obj (vb_Backend vb)) vb (ancestors vb ! k), wants vb block N (selAnc k))) ks) blocks)
    (fetchAncestors B L (map (\<lambda>k. (ancestors vb ! k, wants vb block N (selAnc k))) ks) (concat blocks) vb')"
  using assms(2,3)
proof (induction ks arbitrary: vb' blocks)
  case (Cons k ks)
  let ?a = "ancestors vb ! k" and ?ws = "wants vb block N (selAnc k)"
  have geo: "geometry_ok vb" and con: "contiguous vb (selAnc k)" using assms(1) by (simp_all add: read_ready_def)
  show ?case
  proof (cases "?ws = []")
    case True
    then show ?thesis using Cons.IH [OF Cons.prems] by (simp add: fillAll_def)
  next
    case False
    have d: "delivers vb' (fillAll (ancLayer (obj (vb_Backend vb)) vb ?a) ?ws blocks)
        (fetchBaseBlocksFromBackend B L (anc_sourceVolumeName ?a) (anc_sourceVolumeUUID ?a) (anc_sourceVolumeNameHash ?a) ?ws (concat blocks) vb')"
      unfolding ancLayer_def by (rule fetchBase_delivers [OF assms(1) con Cons.prems False])
    then show ?thesis
    proof (cases rule: delivers_cases)
      case (fails e vb1)
      then show ?thesis using False by (simp add: delivers_def)
    next
      case (works bl vb1)
      have "length d = unat (BlockSize vb)" if "ancLayer (obj (vb_Backend vb)) vb ?a w = Some d" for w d
        using that slotW_length [OF geo] by (auto simp: ancLayer_def rdBase_def split: if_splits)
      then have "same_length vb N bl" using fillAll_same_length [OF works(1) Cons.prems(2)] by blast
      from Cons.IH [OF reads_like_trans [OF Cons.prems(1) works(3)] this] show ?thesis
        using False works by (auto simp: delivers_def intro: reads_like_trans)
    qed
  qed
qed (simp add: delivers_def)

lemma fetchScan_delivers:
  assumes "read_ready obj readable N vb" "reads_like vb vb'" "same_length vb N blocks"
    "sc = \<lparr>sc_data = concat blocks, sc_own = wants vb block N selOwn, sc_base = wants vb block N selBase,
       sc_anc = map (\<lambda>k. wants vb block N (selAnc k)) [0..<length (ancestors vb)], sc_zero = z\<rparr>"
  shows "reads_like vb (snd (fetchScan B L sc vb'))"
    "case fillLayers (map (\<lambda>(rdw, sel). (rdw, wants vb block N sel)) (readLayers (obj (vb_Backend vb)) vol vb)) blocks of
       None \<Rightarrow> \<exists>e. fst (fetchScan B L sc vb') = Inl e
     | Some bl \<Rightarrow> fst (fetchScan B L sc vb') = Inr (concat bl, z)"
proof -
  let ?ob = "obj (vb_Backend vb)" and ?own = "wants vb block N selOwn" and ?base = "wants vb block N selBase"
  let ?ro = "slotW ?ob vb vol (VolumeUUID vb) (volumeNameHash vb)"
  let ?rb = "rdBase ?ob vb (SourceVolumeName vb) (SourceVolumeUUID vb) (sourceVolumeNameHash vb)"
  let ?ancs = "map (\<lambda>k. (ancLayer ?ob vb (ancestors vb ! k), wants vb block N (selAnc k))) [0..<length (ancestors vb)]"
  have geo: "geometry_ok vb" and con: "contiguous vb selBase" using assms(1) by (simp_all add: read_ready_def)
  have layers: "map (\<lambda>(rdw, sel). (rdw, wants vb block N sel)) (readLayers ?ob vol vb) = (?ro, ?own) # (?rb, ?base) # ?ancs"
    by (simp add: readLayers_def)
  define ownR where "ownR = (if ?own = [] then (Inr (concat blocks), vb') else fetchConsecutiveBlocksFromBackend B L ?own (concat blocks) vb')"
  define baseR where "baseR = (\<lambda>data vb1. if ?base = [] then (Inr data, vb1) else
      fetchBaseBlocksFromBackend B L (SourceVolumeName vb1) (SourceVolumeUUID vb1) (sourceVolumeNameHash vb1) ?base data vb1)"
  have scan: "fetchScan B L sc vb' =
     (case ownR of (Inl e, vb) \<Rightarrow> (Inl e, vb)
      | (Inr data, vb1) \<Rightarrow>
          (case baseR data vb1 of (Inl e, vb) \<Rightarrow> (Inl e, vb)
           | (Inr data, vb2) \<Rightarrow>
               (case fetchAncestors B L (zip (ancestors vb2) (map (\<lambda>k. wants vb block N (selAnc k)) [0..<length (ancestors vb)])) data vb2 of
                  (Inl e, vb) \<Rightarrow> (Inl e, vb) | (Inr data, vb3) \<Rightarrow> (Inr (data, z), vb3))))"
    by (simp only: fetchScan_def assms(4) Scan.select_convs ownR_def baseR_def)
  have own: "delivers vb' (fillAll ?ro ?own blocks) ownR"
    using fetchOwn_delivers [OF assms(1-3), of block L] by (cases "?own = []") (simp_all add: ownR_def delivers_def fillAll_def)
  have base: "delivers vb1 (fillAll ?rb ?base bl) (baseR (concat bl) vb1)"
    if l: "reads_like vb vb1" and bl: "same_length vb N bl" for vb1 bl
  proof (cases "?base = []")
    case False
    then show ?thesis using fetchBase_delivers [OF assms(1) con l bl False] by (simp add: baseR_def reads_likeD [OF l])
  qed (simp add: baseR_def delivers_def fillAll_def)
  have zip: "zip (ancestors vb) (map (\<lambda>k. wants vb block N (selAnc k)) [0..<length (ancestors vb)]) =
      map (\<lambda>k. (ancestors vb ! k, wants vb block N (selAnc k))) [0..<length (ancestors vb)]"
    by (rule nth_equalityI) simp_all
  have "reads_like vb (snd (fetchScan B L sc vb')) \<and>
    (case fillLayers ((?ro, ?own) # (?rb, ?base) # ?ancs) blocks of
       None \<Rightarrow> \<exists>e. fst (fetchScan B L sc vb') = Inl e | Some bl \<Rightarrow> fst (fetchScan B L sc vb') = Inr (concat bl, z))"
    using own
  proof (cases rule: delivers_cases)
    case (fails e vb1)
    then show ?thesis using reads_like_trans [OF assms(2)] by (simp add: scan)
  next
    case (works b1 vb1)
    have l1: "reads_like vb vb1" by (rule reads_like_trans [OF assms(2) works(3)])
    have s1: "same_length vb N b1" by (rule fillAll_same_length [OF works(1) assms(3)]) (rule slotW_length [OF geo])
    note w1 = works
    show ?thesis using base [OF l1 s1]
    proof (cases rule: delivers_cases)
      case (fails e vb2)
      then show ?thesis using w1 reads_like_trans [OF l1] by (simp add: scan)
    next
      case (works b2 vb2)
      note w2 = works
      have l2: "reads_like vb vb2" by (rule reads_like_trans [OF l1 works(3)])
      have "length d = unat (BlockSize vb)" if "?rb w = Some d" for w d
        using that slotW_length [OF geo] by (auto simp: rdBase_def split: if_splits)
      then have s2: "same_length vb N b2" using fillAll_same_length [OF works(1) s1] by blast
      have anc: "ancestors vb2 = ancestors vb" by (rule reads_likeD(5) [OF l2])
      show ?thesis using fetchAncestors_delivers [OF assms(1) l2 s2, where block = block and ks = "[0..<length (ancestors vb)]" and L = L]
      proof (cases rule: delivers_cases)
        case (fails e vb3)
        then show ?thesis using w1 w2 reads_like_trans [OF l2] by (simp add: scan anc zip)
      next
        case (works b3 vb3)
        then show ?thesis using w1 w2 reads_like_trans [OF l2] by (simp add: scan anc zip)
      qed
    qed
  qed
  then show "reads_like vb (snd (fetchScan B L sc vb'))"
    "case fillLayers (map (\<lambda>(rdw, sel). (rdw, wants vb block N sel)) (readLayers ?ob vol vb)) blocks of
       None \<Rightarrow> \<exists>e. fst (fetchScan B L sc vb') = Inl e
     | Some bl \<Rightarrow> fst (fetchScan B L sc vb') = Inr (concat bl, z)" unfolding layers by blast+
qed

lemma readBlockStore_view:
  fixes block :: u64 and L :: "'l LruOps" and vb :: "('s, 'l) VB"
  assumes "read_ready obj readable N vb"
  defines "V \<equiv> \<lambda>i. viewAt (obj (vb_Backend vb)) vol vb (block + of_nat i) (placeOf vb (block + of_nat i))"
  defines "R \<equiv> readBlockStore B L block (of_nat N * ucast (BlockSize vb)) vb"
  shows "reads_like vb (snd R)"
    "case those (map V [0..<N]) of None \<Rightarrow> \<exists>e. fst R = Inl e
     | Some ds \<Rightarrow> fst R = Inr (concat ds, \<exists>i < N. placeOf vb (block + of_nat i) = PZero)"
proof -
  let ?bs = "unat (BlockSize vb)" and ?len = "of_nat N * ucast (BlockSize vb) :: u64"
  let ?blocks = "map (\<lambda>i. initBlock vb (block + of_nat i)) [0..<N]"
  have r: "request_ok vb N" "geometry_ok vb" "buffered_ok vb" using assms(1) by (simp_all add: read_ready_def)
  have N: "N \<le> 65535" "N * unat (blockStride vb) < 4294967296" using r(1) by (simp_all add: request_ok_def)
  have bs: "0 < ?bs" "?bs \<le> unat (blockStride vb)" using r(2) stride_unat [OF r(2)] by (simp_all add: geometry_ok_def)
  have Nb: "N * ?bs < 4294967296" using mult_le_mono2 [OF bs(2), of N] N(2) by linarith
  have len: "unat ?len = N * ?bs" using N(1) Nb by (subst unat_mult_u64) (simp_all add: unat_of_nat_u64)
  have d: "unat (?len div ucast (BlockSize vb)) = N" "unat (?len mod ucast (BlockSize vb)) = 0"
    using len bs(1) by (simp_all add: unat_div unat_mod)
  have init: "length (initBlock vb b) = ?bs" for b using r(3) by (auto simp: initBlock_def buffered_ok_def split: Place.split)
  obtain st where st: "fold (scanStore block) [0..<N] (emptyScan vb ?len, vb) =
     (\<lparr>sc_data = concat ?blocks @ replicate (unat ?len - N * ?bs) 0, sc_own = wants vb block N selOwn, sc_base = wants vb block N selBase,
       sc_anc = map (\<lambda>k. wants vb block N (selAnc k)) [0..<length (ancestors vb)],
       sc_zero = (\<exists>i < N. placeOf vb (block + of_nat i) = PZero)\<rparr>, vb\<lparr>BlockStore := st\<rparr>)"
    using scan_steps [OF r(3), of N ?len block] len by auto
  have ok: "BlockSize vb \<noteq> 0" "?len mod ucast (BlockSize vb) = 0" "\<not> maxAlloc < unat ?len"
    using bs(1) d(2) Nb len by (auto simp: unat_eq_0 [symmetric] maxAlloc_def)
  define sc where "sc = \<lparr>sc_data = concat ?blocks, sc_own = wants vb block N selOwn, sc_base = wants vb block N selBase,
       sc_anc = map (\<lambda>k. wants vb block N (selAnc k)) [0..<length (ancestors vb)], sc_zero = (\<exists>i < N. placeOf vb (block + of_nat i) = PZero)\<rparr>"
  have R: "R = fetchScan B L sc (vb\<lparr>BlockStore := st\<rparr>)"
    unfolding R_def readBlockStore_def using ok d(1) st len by (simp add: sc_def)
  have same: "same_length vb N ?blocks" using init by (auto simp: same_length_def)
  have like: "reads_like vb (vb\<lparr>BlockStore := st\<rparr>)" by simp
  note f = fetchScan_delivers [OF assms(1) like same sc_def, of L]
  show "reads_like vb (snd R)" using f(1) R by simp
  show "case those (map V [0..<N]) of None \<Rightarrow> \<exists>e. fst R = Inl e
     | Some ds \<Rightarrow> fst R = Inr (concat ds, \<exists>i < N. placeOf vb (block + of_nat i) = PZero)"
    using f(2) unfolding layers_view [OF N(1)] V_def R by simp
qed

end

section \<open>Reads of byte ranges\<close>

lemma blockValue_length:
  assumes "geometry_ok vb" "buffered_ok vb" "blockValue ob vol vb b = Some d"
  shows "length d = unat (BlockSize vb)"
proof -
  have slot: "length d = unat (BlockSize vb)" if "slotView ob vb v u h b loc = Some d" for v u h loc
    using slotW_length [OF assms(1), of ob v u h "wanted vb b 0 loc" d] that by (simp add: slotW_wanted)
  show ?thesis using assms(2,3) slot
    by (cases "placeOf vb b") (auto simp: blockValue_def viewAt_def buffered_ok_def Let_def split: if_splits)
qed

definition blocksFor :: "('s, 'l) VB \<Rightarrow> u64 \<Rightarrow> u64 \<Rightarrow> nat" where
  "blocksFor vb offset len = (unat offset + unat len - 1) div unat (BlockSize vb) - unat offset div unat (BlockSize vb) + 1"

lemma blocksFor_covers:
  assumes "0 < bs" "0 < (l :: nat)"
  shows "a mod bs + l \<le> ((a + l - 1) div bs - a div bs + 1) * bs"
proof -
  have "a div bs \<le> (a + l - 1) div bs" using assms(2) by (intro div_le_mono) simp
  then have "((a + l - 1) div bs - a div bs + 1) * bs = (a + l - 1) div bs * bs + bs - a div bs * bs"
    by (simp add: algebra_simps diff_mult_distrib)
  moreover have "a + l - 1 < (a + l - 1) div bs * bs + bs" using dividend_less_div_times [OF assms(1), of "a + l - 1"] by (simp add: add.commute)
  moreover have "a = a div bs * bs + a mod bs" by simp
  ultimately show ?thesis using assms(2) by linarith
qed

text \<open>
  C2. A read is the concatenation of its blocks.  However a request is split over the write buffers, the
  volume's chunks, the base snapshot and the ancestor layers, and however neighbouring blocks are
  coalesced into runs, it returns exactly the bytes that each of its blocks holds on its own, in place;
  it fails just when one of its blocks cannot be fetched or authenticated.\<close>

theorem ReadAt_equivalence:
  assumes "UseBlockStore vb" "0 < len" "unat offset + unat len \<le> unat (VolumeSize vb)"
    "read_ready (file_obj cfg) (file_readable cfg) (blocksFor vb offset len) vb"
  shows "case those (map (\<lambda>i. blockValue (file_obj cfg (vb_Backend vb)) (fc_VolumeName cfg) vb (offset div ucast (BlockSize vb) + of_nat i))
           [0..<blocksFor vb offset len]) of
      None \<Rightarrow> \<exists>e. fst (ReadAt (fileBackend cfg) L offset len vb) = Inl e
    | Some ds \<Rightarrow> \<exists>z. fst (ReadAt (fileBackend cfg) L offset len vb) =
        Inr (take (unat len) (drop (unat offset mod unat (BlockSize vb)) (concat ds)), z)"
proof -
  let ?bs = "unat (BlockSize vb)" and ?N = "blocksFor vb offset len" and ?w = "ucast (BlockSize vb) :: u64"
  let ?first = "offset div ?w" and ?last = "(offset + len - 1) div ?w" and ?in = "offset mod ?w"
  let ?V = "\<lambda>i. blockValue (file_obj cfg (vb_Backend vb)) (fc_VolumeName cfg) vb (?first + of_nat i)"
  have geo: "geometry_ok vb" "request_ok vb ?N" using assms(4) by (simp_all add: read_ready_def)
  have bs: "0 < ?bs" "?bs < 4294967296" using geo(1) by (simp_all add: geometry_ok_def)
  have len: "0 < unat len" using assms(2) by (simp add: word_less_nat_alt)
  have vs: "unat (VolumeSize vb) < 18446744073709551616" by simp
  have sum: "unat (offset + len) = unat offset + unat len" using assms(3) vs by (intro unat_plus_nowrap) linarith
  have last1: "unat (offset + len - 1) = unat offset + unat len - 1"
  proof -
    have "1 \<le> offset + len" using sum len by (simp add: word_le_nat_alt)
    then show ?thesis using sum by (simp add: unat_sub)
  qed
  have fl: "unat ?first = unat offset div ?bs" "unat ?last = (unat offset + unat len - 1) div ?bs" "unat ?in = unat offset mod ?bs"
    by (simp_all add: unat_div unat_mod last1)
  have le: "unat ?first \<le> unat ?last" unfolding fl using len by (intro div_le_mono) simp
  have N: "?N \<le> 65535" "?N * unat (blockStride vb) < 4294967296" using geo(2) by (simp_all add: request_ok_def)
  have "of_nat (unat ?last - unat ?first + 1) = ?last - ?first + 1" using le by (simp add: of_nat_diff)
  then have cnt: "?last - ?first + 1 = of_nat ?N" by (simp add: blocksFor_def fl)
  note v = fbe.readBlockStore_view [OF assms(4), where block = ?first and L = L]
  have guard: "\<not> VolumeSize vb < offset" "\<not> VolumeSize vb < offset + len" "BlockSize vb \<noteq> 0"
    using assms(3) sum bs(1) by (auto simp: word_less_nat_alt)
  obtain r vb' where r: "readBlockStore (fileBackend cfg) L ?first (of_nat ?N * ?w) vb = (r, vb')" by fastforce
  have R: "ReadAt (fileBackend cfg) L offset len vb = (case r of Inl e \<Rightarrow> (Inl e, vb')
      | Inr (fullData, zero) \<Rightarrow> if ?in + len < ?in \<or> length fullData < unat (?in + len) then (Inl PanicRead, vb')
          else (Inr (take (unat len) (drop (unat ?in) fullData), zero), vb'))"
    using guard r assms(1) by (simp add: ReadAt_def Let_def VB_read_def cnt split: sum.split prod.split)
  show ?thesis
  proof (cases "those (map ?V [0..<?N])")
    case None
    obtain e where "r = Inl e" using v(2) unfolding blockValue_def [symmetric] None r option.case fst_conv by (rule exE)
    then show ?thesis using None by (simp add: R)
  next
    case (Some ds)
    obtain z where z: "r = Inr (concat ds, z)" using v(2) unfolding blockValue_def [symmetric] Some r option.case fst_conv by (rule that)
    have "length ds = ?N" using those_length [OF Some] by simp
    moreover have "\<forall>d \<in> set ds. length d = ?bs"
    proof
      fix d assume "d \<in> set ds"
      then have "Some d \<in> set (map ?V [0..<?N])" unfolding Some [unfolded those_Some] by simp
      then show "length d = ?bs" using blockValue_length [OF geo(1)] assms(4) by (auto simp: read_ready_def dest: sym)
    qed
    ultimately have full: "length (concat ds) = ?N * ?bs" using concat_length [of ds ?bs] by simp
    have cov: "unat ?in + unat len \<le> ?N * ?bs" using blocksFor_covers [OF bs(1) len, of "unat offset"] by (simp add: blocksFor_def fl)
    have "?bs \<le> unat (blockStride vb)" using stride_unat [OF geo(1)] by simp
    then have "?N * ?bs < 4294967296" using mult_le_mono2 [of ?bs "unat (blockStride vb)" ?N] N(2) by linarith
    then have nw: "unat (?in + len) = unat ?in + unat len" using cov by (intro unat_plus_nowrap) linarith
    then have "\<not> (?in + len < ?in \<or> length (concat ds) < unat (?in + len))" using cov full by (simp add: word_less_nat_alt)
    then show ?thesis using Some z by (simp add: R fl)
  qed
qed

text \<open>A clone with one block of its own in memory and two blocks in the source's chunk.\<close>

definition demoReadDisk :: FS where
  "demoReadDisk = demoFS\<lparr>fs_files := [(filePath demoCfg (GetFilePath FileTypeChunk 0 ''src''), replicate 10 0 @ [4, 5])]\<rparr>"

definition demoReader :: "(FS, unit) VB" where
  "demoReader = (demoVB False demoReadDisk)\<lparr>BlockStore := shardUpdate (NewUnifiedBlockStore 1) 2 (hotEntry [9] 1),
     BaseBlockMap := Some \<lparr>bto_dirty = False, bto_BlockLookup =
       [(0, zeroLookup\<lparr>bl_NumBlocks := 1, bl_ObjectOffset := 10\<rparr>), (1, zeroLookup\<lparr>bl_StartBlock := 1, bl_NumBlocks := 1, bl_ObjectOffset := 11\<rparr>)]\<rparr>,
     SourceVolumeName := ''src''\<rparr>"

lemma demoReader_places:
  "placeOf demoReader b = (if b = 2 then PBuf [9] else if b = 0 then PBase (0, 10, 0) else if b = 1 then PBase (0, 11, 0) else PZero)"
proof -
  have "fst (ReadEntry (BlockStore demoReader) b) = (if b = 2 then Some (hotEntry [9] 1) else None)"
    using blockView_shardUpdate [OF ubs_ok_New, of 1 2 "hotEntry [9] 1"] by (simp add: blockView_def fun_eq_iff demoReader_def)
  moreover have "placeBelow demoReader b = (if b = 0 then PBase (0, 10, 0) else if b = 1 then PBase (0, 11, 0) else PZero)"
    by (simp add: placeBelow_def LookupBaseBlockToObject_def demoReader_def demoVB_def zeroLookup_def)
  ultimately show ?thesis by (simp add: placeOf_def hotEntry_def)
qed

lemma demoReader_ready: "read_ready (file_obj demoCfg) (file_readable demoCfg) 4 demoReader"
proof -
  have f: "blockStride demoReader = 1" "BlockSize demoReader = 1" "EncryptionEnabled demoReader = False" "vb_Backend demoReader = demoReadDisk"
    by (simp_all add: demoReader_def demoVB_def blockStride_def)
  have "contiguous demoReader selBase"
    unfolding contiguous_def demoReader_places
  proof (intro allI impI)
    fix b :: u64 and loc loc'
    assume a: "selBase (if b = 2 then PBuf [9] else if b = 0 then PBase (0, 10, 0) else if b = 1 then PBase (0, 11, 0) else PZero) = Some loc"
      "selBase (if b + 1 = 2 then PBuf [9] else if b + 1 = 0 then PBase (0, 10, 0) else if b + 1 = 1 then PBase (0, 11, 0) else PZero) = Some loc'"
    then have "b = 0 \<or> b = 1" by (auto split: if_splits)
    then show "unat (fst (snd loc')) = unat (fst (snd loc)) + unat (blockStride demoReader)" using a by (auto simp: f)
  qed
  moreover have "contiguous demoReader selOwn" "\<forall>k. contiguous demoReader (selAnc k)" unfolding contiguous_def demoReader_places by simp_all
  moreover have "buffered_ok demoReader" unfolding buffered_ok_def demoReader_places by (simp add: f)
  ultimately show ?thesis
    by (simp add: read_ready_def request_ok_def geometry_ok_def encrypted_chunks_def f file_readable_def demoReadDisk_def demoFS_def)
qed

theorem ReadAt_equivalence_witness:
  "\<exists>z. fst (ReadAt (fileBackend demoCfg) demoLru 0 4 demoReader) = Inr ([4, 5, 9, 0], z)"
proof -
  have f: "blockStride demoReader = 1" "BlockSize demoReader = 1" "VolumeSize demoReader = 64" "UseBlockStore demoReader" "EncryptionEnabled demoReader = False"
    "SourceVolumeName demoReader = ''src''" "vb_Backend demoReader = demoReadDisk"
    by (simp_all add: demoReader_def demoVB_def blockStride_def)
  have n: "blocksFor demoReader 0 4 = 4" by (simp add: blocksFor_def f)
  have "file_obj demoCfg demoReadDisk (GetFilePath FileTypeChunk 0 ''src'') = Some (replicate 10 0 @ [4, 5])"
    by (simp add: file_obj_def demoReadDisk_def)
  then have "map (\<lambda>i. blockValue (file_obj demoCfg (vb_Backend demoReader)) (fc_VolumeName demoCfg) demoReader (0 div ucast (BlockSize demoReader) + of_nat i)) [0..<4] =
      map Some [[4], [5], [9], [0]]"
    by (simp add: blockValue_def demoReader_places viewAt_def slotView_def rawSlot_def openUnder_def f upt_rec)
  from arg_cong [OF this, of those] show ?thesis
    using ReadAt_equivalence [of demoReader 4 0 demoCfg demoLru] demoReader_ready by (simp add: f n)
qed

text \<open>
  C38. The range check of a read wraps.  A read that starts inside the first block of a volume with the
  default block size and whose offset and length add up to two to the power of 64 passes the check
  against the volume size, reads nothing and slices past the empty buffer: a run-time panic instead of
  \<open>ErrRequestOutOfRange\<close>.\<close>

theorem ReadAt_wrap_panics:
  assumes "BlockSize vb = DefaultBlockSize" "0 < offset" "offset < 4096" "offset \<le> VolumeSize vb"
  shows "fst (ReadAt B L offset (- offset) vb) = Inl PanicRead"
proof -
  have anc: "fetchAncestors B L (zip as (replicate k [])) data vb1 = (Inr data, vb1)" for as k data vb1
    by (induction as arbitrary: k) (case_tac k; simp)+
  have empty: "VB_read B L 0 0 vb = (Inr ([], False), vb)"
    using assms(1) by (simp add: VB_read_def readBlockStore_def DefaultBlockSize_def maxAlloc_def fetchScan_def emptyScan_def anc)
  have o: "unat offset < 4096" "0 < unat offset" using assms(2,3) by (simp_all add: word_less_nat_alt)
  have "offset div 4096 = 0" "offset mod 4096 = offset"
    using o(1) by (simp_all add: word_unat_eq_iff unat_div unat_mod)
  moreover have z: "(18446744073709551616 :: u64) = 0" by (simp add: word_unat_eq_iff)
  moreover have "\<not> VolumeSize vb < offset" using assms(4) by (simp add: not_less)
  ultimately show ?thesis using assms(1,2) empty
    by (simp add: ReadAt_def Let_def DefaultBlockSize_def z)
qed

theorem ReadAt_wrap_panics_witness:
  "fst (ReadAt (fileBackend demoCfg) demoLru 1 (- 1) ((demoVB False demoFS)\<lparr>BlockSize := 4096\<rparr>)) = Inl PanicRead"
  using ReadAt_wrap_panics [of "(demoVB False demoFS)\<lparr>BlockSize := 4096\<rparr>" 1 "fileBackend demoCfg" demoLru] by (simp add: DefaultBlockSize_def demoVB_def)

end
