(* ===== verification/GC.thy ===== *)
theory GC
  imports Durability Envelope
begin

text \<open>
  The chunk collector of \<open>viperblock.go\<close>: the floor under which chunks may belong to the numbered checkpoint,
  the guards against snapshots, the reconciliation with the chunks on the backend, the sweep and the drain
  that precedes it.  The sweep gives up its lock between collecting the candidates and deleting them; what
  other goroutines and processes do to the volume in between is the argument \<open>others\<close>, applied after the
  candidates are known and after every deletion.
\<close>

section \<open>The floor\<close>

datatype GcError =
    GcBackend BackendError
  | GcFormat CheckpointError
  | GcParse

definition numberedCheckpointHighWater :: "'s Backend \<Rightarrow> ('s, 'l) VB \<Rightarrow> GcError + u64 option" where
  "numberedCheckpointHighWater B vb =
     (case be_Read B (vb_Backend vb) FileTypeBlockCheckpoint (BlockToObjectWallNum vb) 0 0 of
        Inl e \<Rightarrow> if e = BNotExist then Inr None else Inl (GcBackend e)
      | Inr data \<Rightarrow>
          (case walkBlockCheckpoint data (Version vb) blockToObjectWALMagic of
             (Some e, records) \<Rightarrow> Inl (GcFormat e)
           | (None, records) \<Rightarrow> Inr (maxObjectID records)))"

definition ensureGCFloor :: "'s Backend \<Rightarrow> ('s, 'l) VB \<Rightarrow> u64 \<times> ('s, 'l) VB" where
  "ensureGCFloor B vb =
     (if gcFloorReady vb then (gcFloor vb, vb)
      else case numberedCheckpointHighWater B vb of
             Inl e \<Rightarrow> (- 1, vb)
           | Inr high \<Rightarrow>
               let low = (case high of None \<Rightarrow> 0 | Some h \<Rightarrow> h + 1)
               in (low, vb\<lparr>gcFloor := low, gcFloorReady := True\<rparr>))"

section \<open>Snapshots\<close>

definition snapPrefix :: string where
  "snapPrefix = ''snap-''"

text \<open>
  \<open>probe\<close> is the JSON decoder for the one field \<open>SourceVolumeName\<close>; \<open>env\<close> decodes the metadata envelope.
\<close>

fun scanSnapshots ::
    "'s Backend \<Rightarrow> envDecoder \<Rightarrow> (bytes \<Rightarrow> string option) \<Rightarrow> ('s, 'l) VB \<Rightarrow> string list \<Rightarrow> GcError + bool" where
  "scanSnapshots B env probe vb [] = Inr True"
| "scanSnapshots B env probe vb (name # names) =
     (case be_ReadFrom B (vb_Backend vb) name FileTypeConfig 0 0 0 of
        Inl e \<Rightarrow> if e = BNotExist then scanSnapshots B env probe vb names else Inl (GcBackend e)
      | Inr configData \<Rightarrow>
          (case probe (StateBody env configData) of
             None \<Rightarrow> Inl GcParse
           | Some source \<Rightarrow> if source = VolumeName vb then Inr False else scanSnapshots B env probe vb names))"

definition scanForOwnSnapshots ::
    "'s Backend \<Rightarrow> envDecoder \<Rightarrow> (bytes \<Rightarrow> string option) \<Rightarrow> ('s, 'l) VB \<Rightarrow> GcError + bool" where
  "scanForOwnSnapshots B env probe vb =
     (case be_ListPrefixes B (vb_Backend vb) snapPrefix of
        Inl e \<Rightarrow> Inl (GcBackend e)
      | Inr names \<Rightarrow> scanSnapshots B env probe vb names)"

definition readSnapshotMarker :: "'s Backend \<Rightarrow> ('s, 'l) VB \<Rightarrow> GcError + bytes option" where
  "readSnapshotMarker B vb =
     (case be_Read B (vb_Backend vb) FileTypeSnapshotMarker 0 0 0 of
        Inl e \<Rightarrow> if e = BNotExist then Inr None else Inl (GcBackend e)
      | Inr data \<Rightarrow> Inr (Some data))"

text \<open>\<open>bytes.Equal\<close> does not tell a nil slice from an empty one.\<close>

definition bytesEqual :: "bytes option \<Rightarrow> bytes option \<Rightarrow> bool" where
  "bytesEqual a b \<longleftrightarrow> (case a of None \<Rightarrow> [] | Some x \<Rightarrow> x) = (case b of None \<Rightarrow> [] | Some y \<Rightarrow> y)"

definition ensureGCSnapshotSafe ::
    "'s Backend \<Rightarrow> envDecoder \<Rightarrow> (bytes \<Rightarrow> string option) \<Rightarrow> ('s, 'l) VB \<Rightarrow> bool \<times> ('s, 'l) VB" where
  "ensureGCSnapshotSafe B env probe vb =
     (if gcLatchedOff vb then (False, vb)
      else if gcSnapshotChecked vb then (gcSnapshotSafe vb, vb)
      else case readSnapshotMarker B vb of
             Inl e \<Rightarrow> (False, vb)
           | Inr baseline \<Rightarrow>
               (case scanForOwnSnapshots B env probe vb of
                  Inl e \<Rightarrow> (False, vb)
                | Inr safe \<Rightarrow>
                    (safe, vb\<lparr>gcMarkerBaseline := baseline, gcSnapshotSafe := safe, gcSnapshotChecked := True\<rparr>)))"

definition gcSnapshotMarkerMoved :: "'s Backend \<Rightarrow> ('s, 'l) VB \<Rightarrow> bool \<times> ('s, 'l) VB" where
  "gcSnapshotMarkerMoved B vb =
     (case readSnapshotMarker B vb of
        Inl e \<Rightarrow> (True, vb)
      | Inr current \<Rightarrow>
          if bytesEqual current (gcMarkerBaseline vb) then (False, vb) else (True, vb\<lparr>gcLatchedOff := True\<rparr>))"

section \<open>The sweep\<close>

definition trackChunk :: "string \<Rightarrow> (u64, u64) gomap \<Rightarrow> (u64, u64) gomap" where
  "trackChunk key rc =
     (case parseChunkObjectID key of
        None \<Rightarrow> rc
      | Some i \<Rightarrow> if map_of rc i = None then gput i 0 rc else rc)"

definition reconcileChunksOnce :: "'s Backend \<Rightarrow> ('s, 'l) VB \<Rightarrow> ('s, 'l) VB" where
  "reconcileChunksOnce B vb =
     (if gcReconciled vb then vb
      else case be_ListObjects B (vb_Backend vb) (VolumeName vb @ ''/chunks/'') of
             Inl e \<Rightarrow> vb
           | Inr keys \<Rightarrow> vb\<lparr>vb_gcRefcount := fold trackChunk keys (vb_gcRefcount vb), gcReconciled := True\<rparr>)"

fun deleteChunkObjects ::
    "'s Backend \<Rightarrow> (nat \<Rightarrow> ('s, 'l) VB \<Rightarrow> ('s, 'l) VB) \<Rightarrow> nat \<Rightarrow> u64 list \<Rightarrow> ('s, 'l) VB \<Rightarrow> nat \<times> ('s, 'l) VB" where
  "deleteChunkObjects B others swept [] vb = (swept, vb)"
| "deleteChunkObjects B others swept (i # ids) vb =
     (case be_Delete B FileTypeChunk i (vb_Backend vb) of
        (err, s) \<Rightarrow>
          if err \<noteq> None \<and> err \<noteq> Some BNotExist
          then deleteChunkObjects B others swept ids (others (length ids) (vb\<lparr>vb_Backend := s\<rparr>))
          else deleteChunkObjects B others (Suc swept) ids
                 (others (length ids) (vb\<lparr>vb_Backend := s, vb_gcRefcount := gdel i (vb_gcRefcount vb)\<rparr>)))"

text \<open>The chunks that nothing references, from the floor up to the chunk counter.\<close>

definition gcCandidates :: "u64 \<Rightarrow> ('s, 'l) VB \<Rightarrow> u64 list" where
  "gcCandidates low vb =
     (let watermark = ObjectNum vb
      in filter (\<lambda>i. gcount (vb_gcRefcount vb) i = 0 \<and> low \<le> i \<and> i < watermark) (map fst (vb_gcRefcount vb)))"

definition sweepChunks ::
    "'s Backend \<Rightarrow> envDecoder \<Rightarrow> (bytes \<Rightarrow> string option) \<Rightarrow> (nat \<Rightarrow> ('s, 'l) VB \<Rightarrow> ('s, 'l) VB) \<Rightarrow> ('s, 'l) VB \<Rightarrow> ('s, 'l) VB" where
  "sweepChunks B env probe others vb =
     (if \<not> GCEnabled vb then vb
      else case ensureGCSnapshotSafe B env probe vb of
             (False, vb) \<Rightarrow> vb
           | (True, vb) \<Rightarrow>
               (case ensureGCFloor B (reconcileChunksOnce B vb) of
                  (low, vb) \<Rightarrow>
                    let candidates = gcCandidates low vb
                    in case gcSnapshotMarkerMoved B (others (length candidates) vb) of
                         (True, vb) \<Rightarrow> vb
                       | (False, vb) \<Rightarrow> snd (deleteChunkObjects B others 0 candidates vb)))"

definition runGCSweep ::
    "'s Backend \<Rightarrow> 'l LruOps \<Rightarrow> UploadSched \<Rightarrow> DrainOs \<Rightarrow> envDecoder \<Rightarrow> (bytes \<Rightarrow> string option) \<Rightarrow>
     (nat \<Rightarrow> ('s, 'l) VB \<Rightarrow> ('s, 'l) VB) \<Rightarrow> ('s, 'l) VB \<Rightarrow> ('s, 'l) VB" where
  "runGCSweep B L sched d env probe others vb =
     (case DrainToBackend B L sched d vb of
        (Some e, vb) \<Rightarrow> vb
      | (None, vb) \<Rightarrow> sweepChunks B env probe others vb)"

section \<open>What the guards leave alone\<close>

text \<open>A volume without the fields that only the collector reads.\<close>

definition gcView :: "('s, 'l) VB \<Rightarrow> ('s, 'l) VB" where
  "gcView vb = vb\<lparr>vb_gcRefcount := [], gcReconciled := False, gcFloor := 0, gcFloorReady := False, gcSnapshotSafe := False,
     gcSnapshotChecked := False, gcMarkerBaseline := None, gcLatchedOff := False\<rparr>"

lemma gcView_fields:
  assumes "gcView v = gcView vb"
  shows "vb_Backend v = vb_Backend vb" "vb_BlocksToObject v = vb_BlocksToObject vb" "ObjectNum v = ObjectNum vb"
    "GCEnabled v = GCEnabled vb" "VolumeName v = VolumeName vb" "blockStride v = blockStride vb" "Version v = Version vb"
    "BlockToObjectWallNum v = BlockToObjectWallNum vb"
  using arg_cong [OF assms, of vb_Backend] arg_cong [OF assms, of vb_BlocksToObject] arg_cong [OF assms, of ObjectNum]
    arg_cong [OF assms, of GCEnabled] arg_cong [OF assms, of VolumeName] arg_cong [OF assms, of blockStride]
    arg_cong [OF assms, of Version] arg_cong [OF assms, of BlockToObjectWallNum]
  by (simp_all add: gcView_def)

lemma trackChunks_count [simp]: "gcount (fold trackChunk keys rc) i = gcount rc i"
  by (induction keys arbitrary: rc) (auto simp: trackChunk_def gcount_def split: option.splits)

lemma guards_view:
  "gcView (snd (ensureGCSnapshotSafe B env probe vb)) = gcView vb"
  "vb_gcRefcount (snd (ensureGCSnapshotSafe B env probe vb)) = vb_gcRefcount vb"
  "gcView (reconcileChunksOnce B vb) = gcView vb"
  "gcount (vb_gcRefcount (reconcileChunksOnce B vb)) i = gcount (vb_gcRefcount vb) i"
  "gcView (snd (ensureGCFloor B vb)) = gcView vb"
  "vb_gcRefcount (snd (ensureGCFloor B vb)) = vb_gcRefcount vb"
  "gcView (snd (gcSnapshotMarkerMoved B vb)) = gcView vb"
  "vb_gcRefcount (snd (gcSnapshotMarkerMoved B vb)) = vb_gcRefcount vb"
  by (auto simp: ensureGCSnapshotSafe_def reconcileChunksOnce_def ensureGCFloor_def gcSnapshotMarkerMoved_def gcView_def Let_def
      split: sum.splits)

lemma sweep_cases:
  obtains (kept) "gcView (sweepChunks B env probe others vb) = gcView vb"
      "vb_gcRefcount (sweepChunks B env probe others vb) = vb_gcRefcount vb"
    | (moved) v low where "gcView v = gcView vb" "\<forall>i. gcount (vb_gcRefcount v) i = gcount (vb_gcRefcount vb) i"
        "gcView (sweepChunks B env probe others vb) = gcView (others (length (gcCandidates low v)) v)"
        "vb_gcRefcount (sweepChunks B env probe others vb) = vb_gcRefcount (others (length (gcCandidates low v)) v)"
    | (swept) v low where "gcView v = gcView vb" "\<forall>i. gcount (vb_gcRefcount v) i = gcount (vb_gcRefcount vb) i"
        "low = fst (ensureGCFloor B (reconcileChunksOnce B (snd (ensureGCSnapshotSafe B env probe vb))))" "GCEnabled vb"
        "sweepChunks B env probe others vb =
           snd (deleteChunkObjects B others 0 (gcCandidates low v) (others (length (gcCandidates low v)) v))"
proof -
  obtain safe v1 where s: "ensureGCSnapshotSafe B env probe vb = (safe, v1)" by fastforce
  obtain low v where f: "ensureGCFloor B (reconcileChunksOnce B v1) = (low, v)" by fastforce
  have v1: "gcView v1 = gcView vb" "vb_gcRefcount v1 = vb_gcRefcount vb"
    using guards_view(1,2) [of B env probe vb] s by simp_all
  have v: "gcView v = gcView vb" "\<forall>i. gcount (vb_gcRefcount v) i = gcount (vb_gcRefcount vb) i"
    using guards_view(3-6) [of B] v1 f by (metis snd_conv)+
  let ?o = "others (length (gcCandidates low v)) v"
  obtain moved v2 where m: "gcSnapshotMarkerMoved B ?o = (moved, v2)" by fastforce
  have v2: "gcView v2 = gcView ?o" "vb_gcRefcount v2 = vb_gcRefcount ?o"
    using guards_view(7,8) [of B ?o] m by simp_all
  consider (off) "\<not> GCEnabled vb" | (unsafe) "GCEnabled vb" "\<not> safe" | (m) "GCEnabled vb" safe moved | (d) "GCEnabled vb" safe "\<not> moved" by blast
  then show thesis
  proof cases
    case off
    then show thesis by (intro kept) (simp_all add: sweepChunks_def)
  next
    case unsafe
    then show thesis using s v1 by (intro kept) (simp_all add: sweepChunks_def)
  next
    case m
    then show thesis using s f v v2 \<open>gcSnapshotMarkerMoved B ?o = (moved, v2)\<close> by (intro moved) (simp_all add: sweepChunks_def Let_def)
  next
    case d
    have "v2 = ?o" using m d(3) by (auto simp: gcSnapshotMarkerMoved_def split: sum.splits if_splits)
    then show thesis using s f v m d by (intro swept) (simp_all add: sweepChunks_def Let_def)
  qed
qed

section \<open>The sweep leaves no dangling reference\<close>

definition chunks_present :: "('s \<Rightarrow> string \<Rightarrow> bytes option) \<Rightarrow> string \<Rightarrow> ('s, 'l) VB \<Rightarrow> bool" where
  "chunks_present obj vol vb \<longleftrightarrow>
     (\<forall>i. refsTo i (vbMap vb) \<noteq> 0 \<longrightarrow> obj (vb_Backend vb) (GetFilePath FileTypeChunk i vol) \<noteq> None)"

text \<open>
  What the sweep relies on while it runs: others upload a chunk before they reference it, and never
  reference a chunk under the watermark that nothing referenced, since chunk numbers are not reused.
\<close>

definition gc_rely :: "('s \<Rightarrow> string \<Rightarrow> bytes option) \<Rightarrow> string \<Rightarrow> u64 \<Rightarrow> ('s, 'l) VB \<Rightarrow> ('s, 'l) VB \<Rightarrow> bool" where
  "gc_rely obj vol w v v' \<longleftrightarrow> (\<forall>i < w. refsTo i (vbMap v) = 0 \<longrightarrow> refsTo i (vbMap v') = 0) \<and>
     (chunks_present obj vol v \<longrightarrow> chunks_present obj vol v')"

lemma chunks_present_view: "gcView v = gcView vb \<Longrightarrow> chunks_present obj vol v = chunks_present obj vol vb"
  using gcView_fields [of v vb] by (simp add: chunks_present_def)

lemma candidates_unreferenced:
  assumes "refs_exact (vbMap vb) (gcMap vb)" "GCEnabled vb" "gcView v = gcView vb"
    "\<forall>i. gcount (vb_gcRefcount v) i = gcount (vb_gcRefcount vb) i" "i \<in> set (gcCandidates low v)"
  shows "i < ObjectNum vb" "refsTo i (vbMap v) = 0" "low \<le> i"
proof -
  have "gcount (vb_gcRefcount vb) i = 0" "i < ObjectNum v" "low \<le> i" using assms(4,5) by (auto simp: gcCandidates_def Let_def)
  moreover have "unat (gcount (vb_gcRefcount vb) i) = refsTo i (vbMap vb)"
    using assms(1,2) by (simp add: refs_exact_def gcMap_def)
  ultimately show "i < ObjectNum vb" "refsTo i (vbMap v) = 0" "low \<le> i" using gcView_fields [OF assms(3)] by simp_all
qed

context backend_laws
begin

lemma deletes_present:
  assumes "\<forall>k v. gc_rely obj vol w v (others k v)"
  shows "\<lbrakk>\<forall>i \<in> set ids. i < w \<and> refsTo i (vbMap v) = 0; chunks_present obj vol v\<rbrakk> \<Longrightarrow>
     chunks_present obj vol (snd (deleteChunkObjects B others n ids v))"
proof (induction ids arbitrary: n v)
  case (Cons i ids)
  obtain err s where d: "be_Delete B FileTypeChunk i (vb_Backend v) = (err, s)" by fastforce
  have keeps: "obj s (GetFilePath FileTypeChunk j vol) = obj (vb_Backend v) (GetFilePath FileTypeChunk j vol)" if "j \<noteq> i" for j
    using d Delete_ok [of FileTypeChunk i "vb_Backend v" s] Delete_fail [of FileTypeChunk i "vb_Backend v"] that by (cases err) auto
  have step: "chunks_present obj vol (v\<lparr>vb_Backend := s\<rparr>)" "chunks_present obj vol (v\<lparr>vb_Backend := s, vb_gcRefcount := rc\<rparr>)" for rc
  proof -
    have "obj s (GetFilePath FileTypeChunk j vol) \<noteq> None" if "refsTo j (vbMap v) \<noteq> 0" for j
    proof -
      have "j \<noteq> i" using Cons.prems(1) that by auto
      then show ?thesis using keeps Cons.prems(2) that by (simp add: chunks_present_def)
    qed
    then show "chunks_present obj vol (v\<lparr>vb_Backend := s\<rparr>)" "chunks_present obj vol (v\<lparr>vb_Backend := s, vb_gcRefcount := rc\<rparr>)"
      by (simp_all add: chunks_present_def)
  qed
  have "chunks_present obj vol (others k u) \<and> (\<forall>j \<in> set ids. j < w \<and> refsTo j (vbMap (others k u)) = 0)"
    if "chunks_present obj vol u" "vbMap u = vbMap v" for k u
    using assms that Cons.prems(1) unfolding gc_rely_def by (metis list.set_intros(2))
  then show ?case using d step Cons.IH by (simp add: Let_def)
qed simp

lemma sweep_present:
  assumes "refs_exact (vbMap vb) (gcMap vb)" "chunks_present obj vol vb" "\<forall>k v. gc_rely obj vol (ObjectNum vb) v (others k v)"
  shows "chunks_present obj vol (sweepChunks B env probe others vb)"
proof (cases rule: sweep_cases [of B env probe others vb])
  case kept
  then show ?thesis using chunks_present_view assms(2) by blast
next
  case (moved v low)
  then show ?thesis using chunks_present_view assms(2,3) unfolding gc_rely_def by metis
next
  case (swept v low)
  let ?ids = "gcCandidates low v"
  have "\<forall>i \<in> set ?ids. i < ObjectNum vb \<and> refsTo i (vbMap (others (length ?ids) v)) = 0"
    using candidates_unreferenced [OF assms(1) swept(4,1,2)] assms(3) unfolding gc_rely_def by blast
  moreover have "chunks_present obj vol (others (length ?ids) v)"
    using chunks_present_view [OF swept(1)] assms(2,3) unfolding gc_rely_def by blast
  ultimately show ?thesis using deletes_present [OF assms(3)] swept(5) by simp
qed

end

end
