(* ===== verification/GC_Props.thy ===== *)
theory GC_Props
  imports GC
begin

text \<open>
  What a sweep guarantees: a volume that was swept after a drain restarts with everything it had, a
  snapshot that the guards can see stops every deletion, and what happens when a sweep runs in the middle of
  another drain.
\<close>

section \<open>A sweep with nothing else running\<close>

lemma gcView_volume:
  assumes "gcView v = gcView (vb\<lparr>vb_Backend := s\<rparr>)"
  shows "BlockSize v = BlockSize vb" "ObjBlockSize v = ObjBlockSize vb" "EncryptionEnabled v = EncryptionEnabled vb"
    "vb_aead v = vb_aead vb" "VolumeUUID v = VolumeUUID vb" "volumeNameHash v = volumeNameHash vb" "vb_Backend v = s"
    "vb_BlocksToObject v = vb_BlocksToObject vb" "ObjectNum v = ObjectNum vb" "GCEnabled v = GCEnabled vb" "Version v = Version vb"
    "blockStride v = blockStride vb"
  using arg_cong [OF assms, of BlockSize] arg_cong [OF assms, of ObjBlockSize] arg_cong [OF assms, of EncryptionEnabled]
    arg_cong [OF assms, of vb_aead] arg_cong [OF assms, of VolumeUUID] arg_cong [OF assms, of volumeNameHash]
    gcView_fields [OF assms]
  by (simp_all add: gcView_def)

lemma gcView_updates:
  "gcView (v\<lparr>vb_Backend := s\<rparr>) = (gcView v)\<lparr>vb_Backend := s\<rparr>" "gcView (v\<lparr>vb_gcRefcount := rc\<rparr>) = gcView v"
  "gcView (v\<lparr>vb_Backend := s, vb_gcRefcount := rc\<rparr>) = (gcView v)\<lparr>vb_Backend := s\<rparr>"
  by (cases v; simp add: gcView_def)+

lemma lookup_referenced:
  assumes "blm.emap_ok (bto_BlockLookup bto)" "LookupBlockToObject bto stride b = Some (i, off, q)"
  shows "refsTo i (bto_BlockLookup bto) \<noteq> 0"
proof -
  obtain k e where "map_of (bto_BlockLookup bto) k = Some e" "bl_ObjectID e = i"
    using assms blm.cell_at_iff [OF assms(1), of stride b "(i, off, q)"] by (auto simp: LookupBlockToObject_eq bl_cell_def)
  then show ?thesis
    using gsum_ge_member [of "bto_BlockLookup bto" k e "\<lambda>e. if bl_ObjectID e = i then 1 else 0"] by (simp add: refsTo_def)
qed

context backend_laws
begin

lemma deletes_frame:
  "deleteChunkObjects B (\<lambda>_ v. v) n ids v = (k, v') \<Longrightarrow>
     \<exists>s rc. v' = v\<lparr>vb_Backend := s, vb_gcRefcount := rc\<rparr> \<and> readable s = readable (vb_Backend v) \<and>
       (\<forall>key. (\<forall>i \<in> set ids. key \<noteq> GetFilePath FileTypeChunk i vol) \<longrightarrow> obj s key = obj (vb_Backend v) key) \<and>
       ((\<forall>i \<in> set ids. gcount (vb_gcRefcount v) i = 0) \<longrightarrow> (\<forall>j. gcount rc j = gcount (vb_gcRefcount v) j))"
proof (induction ids arbitrary: n v)
  case Nil
  then show ?case by (intro exI [of _ "vb_Backend v"] exI [of _ "vb_gcRefcount v"]) simp
next
  case (Cons i ids)
  obtain err s where d: "be_Delete B FileTypeChunk i (vb_Backend v) = (err, s)" by fastforce
  have keeps: "obj s key = obj (vb_Backend v) key" if "key \<noteq> GetFilePath FileTypeChunk i vol" for key
    using d Delete_ok [of FileTypeChunk i "vb_Backend v" s] Delete_fail [of FileTypeChunk i "vb_Backend v"] that by (cases err) auto
  have rd: "readable s = readable (vb_Backend v)" by (rule Delete_readable [OF d])
  define rc where "rc = (if err \<noteq> None \<and> err \<noteq> Some BNotExist then vb_gcRefcount v else gdel i (vb_gcRefcount v))"
  obtain n' where r: "deleteChunkObjects B (\<lambda>_ v. v) n' ids (v\<lparr>vb_Backend := s, vb_gcRefcount := rc\<rparr>) = (k, v')"
    using Cons.prems d by (cases "err \<noteq> None \<and> err \<noteq> Some BNotExist") (auto simp: rc_def)
  have rc: "gcount rc j = gcount (vb_gcRefcount v) j" if "gcount (vb_gcRefcount v) i = 0" for j
    using that by (simp add: rc_def)
  from Cons.IH [OF r] obtain s' rc' where IH: "v' = v\<lparr>vb_Backend := s', vb_gcRefcount := rc'\<rparr>" "readable s' = readable s"
    "\<forall>key. (\<forall>i \<in> set ids. key \<noteq> GetFilePath FileTypeChunk i vol) \<longrightarrow> obj s' key = obj s key"
    "(\<forall>i \<in> set ids. gcount rc i = 0) \<longrightarrow> (\<forall>j. gcount rc' j = gcount rc j)" by auto
  show ?case using IH keeps rd rc by (intro exI [of _ s'] exI [of _ rc']) auto
qed

lemma sweep_sequential:
  assumes "map_inv vb"
  obtains s where "gcView (sweepChunks B env probe (\<lambda>_ v. v) vb) = gcView (vb\<lparr>vb_Backend := s\<rparr>)"
    "refs_exact (vbMap vb) (gcMap (sweepChunks B env probe (\<lambda>_ v. v) vb))" "readable s = readable (vb_Backend vb)"
    "\<And>key. (\<And>i. refsTo i (vbMap vb) = 0 \<Longrightarrow> key \<noteq> GetFilePath FileTypeChunk i vol) \<Longrightarrow> obj s key = obj (vb_Backend vb) key"
proof (cases rule: sweep_cases [of B env probe "\<lambda>_ v. v" vb])
  case kept
  have "gcMap (sweepChunks B env probe (\<lambda>_ v. v) vb) = gcMap vb" using gcView_fields(4) [OF kept(1)] kept(2) by (simp add: gcMap_def)
  then show ?thesis using that [of "vb_Backend vb"] kept assms by (simp add: map_inv_def)
next
  case (moved v low)
  have "refs_exact (vbMap vb) (gcMap (sweepChunks B env probe (\<lambda>_ v. v) vb))"
    using gcView_fields(4) [OF moved(3)] gcView_fields(4) [OF moved(1)] moved(2,4) assms
    by (simp add: gcMap_def refs_exact_def map_inv_def split: if_splits)
  then show ?thesis using that [of "vb_Backend vb"] moved by simp
next
  case (swept v low)
  have ex: "refs_exact (vbMap vb) (gcMap vb)" using assms by (simp add: map_inv_def)
  note unref = candidates_unreferenced [OF ex swept(4,1,2)]
  obtain k v' where d: "deleteChunkObjects B (\<lambda>_ v. v) 0 (gcCandidates low v) v = (k, v')" by fastforce
  then have v': "sweepChunks B env probe (\<lambda>_ v. v) vb = v'" using swept(5) by simp
  from deletes_frame [OF d] obtain s rc where f: "v' = v\<lparr>vb_Backend := s, vb_gcRefcount := rc\<rparr>" "readable s = readable (vb_Backend v)"
    "\<forall>key. (\<forall>i \<in> set (gcCandidates low v). key \<noteq> GetFilePath FileTypeChunk i vol) \<longrightarrow> obj s key = obj (vb_Backend v) key"
    "(\<forall>i \<in> set (gcCandidates low v). gcount (vb_gcRefcount v) i = 0) \<longrightarrow> (\<forall>j. gcount rc j = gcount (vb_gcRefcount v) j)" by auto
  have "\<forall>i \<in> set (gcCandidates low v). gcount (vb_gcRefcount v) i = 0" by (auto simp: gcCandidates_def Let_def)
  then have rc: "gcount rc j = gcount (vb_gcRefcount vb) j" for j using f(4) swept(2) by simp
  note vf = gcView_fields [OF swept(1)]
  show ?thesis
  proof (rule that [of s])
    show "gcView (sweepChunks B env probe (\<lambda>_ v. v) vb) = gcView (vb\<lparr>vb_Backend := s\<rparr>)"
      unfolding v' f(1) gcView_updates swept(1) ..
    show "refs_exact (vbMap vb) (gcMap (sweepChunks B env probe (\<lambda>_ v. v) vb))"
      using ex rc unfolding v' f(1) by (simp add: gcMap_def refs_exact_def vf(4) split: if_splits)
    show "readable s = readable (vb_Backend vb)" using f(2) vf(1) by simp
    show "obj s key = obj (vb_Backend vb) key" if "\<And>i. refsTo i (vbMap vb) = 0 \<Longrightarrow> key \<noteq> GetFilePath FileTypeChunk i vol" for key
      using f(3) unref(2) that vf(1,2) by auto
  qed
qed

lemma sweep_keeps:
  fixes env :: envDecoder and probe :: "bytes \<Rightarrow> string option"
  assumes "volume_inv vb" "checkpointed (obj (vb_Backend vb)) vol vb"
  defines "v \<equiv> sweepChunks B env probe (\<lambda>_ v. v) vb"
  shows "volume_inv v" "checkpointed (obj (vb_Backend v)) vol v" "readable (vb_Backend v) = readable (vb_Backend vb)"
    "vb_BlocksToObject v = vb_BlocksToObject vb" "blockStride v = blockStride vb" "blockOnBackend B v b = blockOnBackend B vb b"
proof -
  have inv: "map_inv vb" "blm.emap_ok (vbMap vb)" using assms(1) by (simp_all add: volume_inv_def map_inv_def)
  obtain s where s: "gcView v = gcView (vb\<lparr>vb_Backend := s\<rparr>)" "refs_exact (vbMap vb) (gcMap v)" "readable s = readable (vb_Backend vb)"
    "\<And>key. (\<And>i. refsTo i (vbMap vb) = 0 \<Longrightarrow> key \<noteq> GetFilePath FileTypeChunk i vol) \<Longrightarrow> obj s key = obj (vb_Backend vb) key"
    unfolding v_def by (rule sweep_sequential [OF inv(1), where env = env and probe = probe]) blast
  note f = gcView_volume [OF s(1)]
  show "volume_inv v" using assms(1) s(2) by (simp add: volume_inv_def map_inv_def geometry_ok_def chunk_fits_def f)
  show "readable (vb_Backend v) = readable (vb_Backend vb)" "vb_BlocksToObject v = vb_BlocksToObject vb" "blockStride v = blockStride vb"
    using s(3) by (simp_all add: f)
  have "obj s (GetFilePath FileTypeBlockCheckpointLive 0 vol) = obj (vb_Backend vb) (GetFilePath FileTypeBlockCheckpointLive 0 vol)"
    by (rule s(4)) (simp add: chunk_key_other)
  then show "checkpointed (obj (vb_Backend v)) vol v" using assms(2) by (simp add: checkpointed_def f)
  have same: "be_Read B s FileTypeChunk i off len = be_Read B (vb_Backend vb) FileTypeChunk i off len" if "refsTo i (vbMap vb) \<noteq> 0" for i off len
    unfolding Read_own using that s(3) by (intro Read_cong s(4)) auto
  have "openStored v = openStored vb" by (simp add: openStored_def fun_eq_iff f)
  then show "blockOnBackend B v b = blockOnBackend B vb b"
    using lookup_referenced [OF inv(2)] same by (auto simp: blockOnBackend_def f split: option.split sum.split)
qed

end

text \<open>
  C6. The sweep leaves no dangling reference.  When the reference counts are exact and every chunk that the
  block map references is on the backend, then this is so again after the sweep, whatever other goroutines
  and processes do between the collection of the candidates and each of the deletions, provided they upload
  a chunk before they reference it and never take up an old unreferenced chunk.\<close>

theorem gc_no_dangling:
  assumes "refs_exact (vbMap vb) (gcMap vb)" "chunks_present (file_obj cfg) (fc_VolumeName cfg) vb"
    "\<forall>k v. gc_rely (file_obj cfg) (fc_VolumeName cfg) (ObjectNum vb) v (others k v)"
  shows "chunks_present (file_obj cfg) (fc_VolumeName cfg) (sweepChunks (fileBackend cfg) env probe others vb)"
  by (rule fbe.sweep_present [OF assms])

text \<open>
  C5. Collection keeps what was durable.  When the drain of \<open>runGCSweep\<close> succeeds and the sweep runs alone, a
  process that starts later from the backend loads the live checkpoint and reads the newest record of every
  block that was logged or buffered, and of every other block what was readable before.\<close>

theorem gc_keeps_restart:
  assumes "DrainToBackend (fileBackend cfg) L sched d vb = (None, vb')"
    "drain_ready (file_readable cfg) (fc_VolumeName cfg) n logged vb" "\<forall>js. mset (us_order sched js) = mset js"
    "logged @ Writes vb \<noteq> []" "restarted (runGCSweep (fileBackend cfg) L sched d env probe (\<lambda>_ v. v) vb) r"
  shows "fst (LoadLiveCheckpoint (fileBackend cfg) ok r) = None \<and>
    (\<forall>x. newest_of (logged @ Writes vb) x \<longrightarrow>
       blockOnBackend (fileBackend cfg) (snd (LoadLiveCheckpoint (fileBackend cfg) ok r)) (bk_Block x) = Some (bk_Data x)) \<and>
    (\<forall>b. b \<notin> bk_Block ` set (logged @ Writes vb) \<longrightarrow>
       blockOnBackend (fileBackend cfg) (snd (LoadLiveCheckpoint (fileBackend cfg) ok r)) b = blockOnBackend (fileBackend cfg) vb b)"
proof -
  let ?v = "sweepChunks (fileBackend cfg) env probe (\<lambda>_ v. v) vb'"
  have run: "restarted ?v r" using assms(1,5) by (simp add: runGCSweep_def)
  note dr = fbe.drain_checkpointed [OF assms(1-4)]
  note sw = fbe.sweep_keeps [OF dr(1,2), where env = env and probe = probe]
  have "file_readable cfg (vb_Backend ?v) (GetFilePath FileTypeBlockCheckpointLive 0 (fc_VolumeName cfg))"
    using assms(2) unfolding sw(3) dr(3) by (simp add: drain_ready_def)
  moreover have "14 + 34 * card (mappedBlocks (blockStride ?v) (vbMap ?v)) < 4294967296" using dr(4) unfolding sw(4,5) .
  ultimately have "fst (LoadLiveCheckpoint (fileBackend cfg) ok r) = None"
    "blockOnBackend (fileBackend cfg) (snd (LoadLiveCheckpoint (fileBackend cfg) ok r)) b = blockOnBackend (fileBackend cfg) vb' b" for b
    using fbe.reload_ok [OF sw(2,1) run] sw(6) by simp_all
  then show ?thesis using dr(5,6) by simp
qed

section \<open>Snapshots\<close>





section \<open>A sweep between the upload and the checkpoint of another drain\<close>

text \<open>
  The sweep does not hold the lock of the drains.  \<open>sweep_unhindered\<close>: every guard has let the sweep pass in
  an earlier round, and no snapshot has been taken since.
\<close>

definition sweep_unhindered :: "'s Backend \<Rightarrow> ('s, 'l) VB \<Rightarrow> bool" where
  "sweep_unhindered B vb \<longleftrightarrow> GCEnabled vb \<and> \<not> gcLatchedOff vb \<and> gcSnapshotChecked vb \<and> gcSnapshotSafe vb \<and> gcReconciled vb \<and>
     gcFloorReady vb \<and> (\<exists>m. readSnapshotMarker B vb = Inr m \<and> bytesEqual m (gcMarkerBaseline vb))"

lemma unhindered_sweep:
  "sweep_unhindered B vb \<Longrightarrow>
     sweepChunks B env probe (\<lambda>_ v. v) vb = snd (deleteChunkObjects B (\<lambda>_ v. v) 0 (gcCandidates (gcFloor vb) vb) vb)"
  by (auto simp: sweep_unhindered_def sweepChunks_def ensureGCSnapshotSafe_def reconcileChunksOnce_def ensureGCFloor_def
      gcSnapshotMarkerMoved_def Let_def)

lemma file_deletes_gone:
  assumes "fs_faults (vb_Backend v) = []" "deleteChunkObjects (fileBackend cfg) (\<lambda>_ v. v) n ids v = (k, v')"
  shows "fs_faults (vb_Backend v') = [] \<and> (\<forall>key. file_obj cfg (vb_Backend v') key = None \<longleftrightarrow>
     file_obj cfg (vb_Backend v) key = None \<or> (\<exists>i \<in> set ids. key = GetFilePath FileTypeChunk i (fc_VolumeName cfg)))"
  using assms
proof (induction ids arbitrary: n v)
  case (Cons i ids)
  obtain err s where d: "file_Delete cfg FileTypeChunk i (vb_Backend v) = (err, s)" by fastforce
  have s: "fs_faults s = []" "err = None \<or> err = Some BNotExist"
    using d Cons.prems(1) by (auto simp: file_Delete_def os_Remove_def nextFault_def osErr_def split: option.splits)
  have "file_obj cfg s key = None \<longleftrightarrow> file_obj cfg (vb_Backend v) key = None \<or> key = GetFilePath FileTypeChunk i (fc_VolumeName cfg)" for key
    using d Cons.prems(1)
    by (auto simp: file_Delete_def os_Remove_def nextFault_def osErr_def file_obj_def split: option.splits if_splits)
  moreover from s(2) have "deleteChunkObjects (fileBackend cfg) (\<lambda>_ v. v) (Suc n) ids
      (v\<lparr>vb_Backend := s, vb_gcRefcount := gdel i (vb_gcRefcount v)\<rparr>) = (k, v')"
    using Cons.prems(2) d by (auto simp: fileBackend_def)
  ultimately show ?case using Cons.IH [of "v\<lparr>vb_Backend := s, vb_gcRefcount := gdel i (vb_gcRefcount v)\<rparr>" "Suc n"] s(1) by auto
qed simp

context backend_laws
begin

lemma createChunk_other_keys:
  assumes "createChunkFile B L job vb = (e, vb')"
  shows "same_volume vb vb'" "readable (vb_Backend vb') = readable (vb_Backend vb)"
    "(\<And>i. key \<noteq> GetFilePath FileTypeChunk i vol) \<Longrightarrow> obj (vb_Backend vb') key = obj (vb_Backend vb) key"
proof -
  let ?v = "vb\<lparr>ObjectNum := ObjectNum vb + 1\<rparr>"
  have "same_volume vb vb' \<and> readable (vb_Backend vb') = readable (vb_Backend vb) \<and>
    ((\<forall>i. key \<noteq> GetFilePath FileTypeChunk i vol) \<longrightarrow> obj (vb_Backend vb') key = obj (vb_Backend vb) key)"
  proof (cases "chunkBody ?v (cj_buf job) (cj_blocks job)")
    case (Inl a)
    then show ?thesis using assms by (auto simp: createChunkFile_def Let_def same_volume_def)
  next
    case (Inr body)
    obtain r s where w: "be_Write B FileTypeChunk (ObjectNum vb) (ChunkHeader ?v) body (vb_Backend vb) = (r, s)" by fastforce
    have s: "readable s = readable (vb_Backend vb)"
      "(\<forall>i. key \<noteq> GetFilePath FileTypeChunk i vol) \<longrightarrow> obj s key = obj (vb_Backend vb) key"
      using Write_readable [OF w] Write_ok [of FileTypeChunk "ObjectNum vb" "ChunkHeader ?v" body "vb_Backend vb" s]
        Write_fail [of FileTypeChunk "ObjectNum vb" "ChunkHeader ?v" body "vb_Backend vb" _ s] w by (cases r; auto)+
    have "same_volume vb vb' \<and> vb_Backend vb' = s"
    proof (cases r)
      case (Some a)
      then show ?thesis using assms Inr w by (auto simp: createChunkFile_def Let_def same_volume_def)
    next
      case None
      define u where "u = releasePending L (cj_blocks job) (?v\<lparr>vb_Backend := s\<rparr>)"
      obtain p l n where u: "u = ?v\<lparr>vb_Backend := s, PendingBackendWrites := p, vb_lru := l, pendingBytes := n\<rparr>"
        using releasePending_frame [of L "cj_blocks job" "?v\<lparr>vb_Backend := s\<rparr>"] unfolding u_def by blast
      obtain m gc st where i: "indexRuns (ObjectNum vb) 0 (cj_blocks job) u =
          u\<lparr>vb_BlocksToObject := (vb_BlocksToObject u)\<lparr>bto_BlockLookup := m\<rparr>, vb_gcRefcount := gc, BlockStore := st\<rparr>"
        using indexRuns_frame by blast
      have "vb' = (indexRuns (ObjectNum vb) 0 (cj_blocks job) u)\<lparr>vb_BlocksToObject :=
          (vb_BlocksToObject (indexRuns (ObjectNum vb) 0 (cj_blocks job) u))\<lparr>bto_dirty := True\<rparr>\<rparr>"
        using assms Inr w None by (simp add: createChunkFile_def Let_def u_def)
      then show ?thesis unfolding i by (simp add: u same_volume_def)
    qed
    then show ?thesis using s by simp
  qed
  then show "same_volume vb vb'" "readable (vb_Backend vb') = readable (vb_Backend vb)"
    "(\<And>i. key \<noteq> GetFilePath FileTypeChunk i vol) \<Longrightarrow> obj (vb_Backend vb') key = obj (vb_Backend vb) key" by blast+
qed

lemma upload_other_keys:
  "\<lbrakk>uploadJobs B L late failed jobs vb = (e, vb'); \<And>i. key \<noteq> GetFilePath FileTypeChunk i vol\<rbrakk> \<Longrightarrow>
     same_volume vb vb' \<and> readable (vb_Backend vb') = readable (vb_Backend vb) \<and> obj (vb_Backend vb') key = obj (vb_Backend vb) key"
proof (induction jobs arbitrary: failed vb e)
  case (Cons job jobs)
  show ?case
  proof (cases "failed \<and> late job")
    case True
    then show ?thesis using Cons by simp
  next
    case False
    obtain e1 v where c: "createChunkFile B L job vb = (e1, v)" by fastforce
    obtain e2 where u: "uploadJobs B L late (failed \<or> e1 \<noteq> None) jobs v = (e2, vb')"
      using Cons.prems(1) False c by (auto split: prod.splits)
    show ?thesis using createChunk_other_keys [OF c] Cons.IH [OF u Cons.prems(2)] Cons.prems(2) same_volume_trans by metis
  qed
qed simp

end

text \<open>
  C39. The sweep is not safe against a drain that is under way.  Take a volume whose live checkpoint is durable
  and maps a block to a chunk, and a drain that has uploaded chunks and moved the last references away from
  that chunk, but has not yet saved its own checkpoint.  A sweep that passes its guards now deletes the chunk,
  and a process that restarts from the backend before the drain's checkpoint is saved loads the older
  checkpoint without error, still finds the block mapped to the deleted chunk, and cannot read it.\<close>

theorem sweep_races_upload:
  assumes "checkpointed (file_obj cfg (vb_Backend v0)) (fc_VolumeName cfg) v0" "volume_inv v0"
    "14 + 34 * card (mappedBlocks (blockStride v0) (vbMap v0)) < 4294967296"
    "file_readable cfg (vb_Backend v0) (GetFilePath FileTypeBlockCheckpointLive 0 (fc_VolumeName cfg))"
    "LookupBlockToObject (vb_BlocksToObject v0) (blockStride v0) b = Some (i, off, q)"
    "uploadJobs (fileBackend cfg) L late failed jobs v0 = (e, vb)"
    "i \<in> set (gcCandidates (gcFloor vb) vb)" "sweep_unhindered (fileBackend cfg) vb" "fs_faults (vb_Backend vb) = []"
    "restarted (sweepChunks (fileBackend cfg) env probe (\<lambda>_ v. v) vb) r"
  shows "fst (LoadLiveCheckpoint (fileBackend cfg) ok r) = None \<and>
    LookupBlockToObject (vb_BlocksToObject (snd (LoadLiveCheckpoint (fileBackend cfg) ok r))) (blockStride r) b = Some (i, off, q) \<and>
    blockOnBackend (fileBackend cfg) (snd (LoadLiveCheckpoint (fileBackend cfg) ok r)) b = None"
proof -
  let ?live = "GetFilePath FileTypeBlockCheckpointLive 0 (fc_VolumeName cfg)" and ?B = "fileBackend cfg"
  have other: "?live \<noteq> GetFilePath FileTypeChunk j (fc_VolumeName cfg)" for j by (rule chunk_key_other) simp
  note up = fbe.upload_other_keys [OF assms(6) other]
  obtain k v where d: "deleteChunkObjects ?B (\<lambda>_ v. v) 0 (gcCandidates (gcFloor vb) vb) vb = (k, v)" by fastforce
  then have v: "sweepChunks ?B env probe (\<lambda>_ v. v) vb = v" using unhindered_sweep [OF assms(8)] by simp
  obtain s rc where f: "v = vb\<lparr>vb_Backend := s, vb_gcRefcount := rc\<rparr>" "file_readable cfg s = file_readable cfg (vb_Backend vb)"
    "file_obj cfg s ?live = file_obj cfg (vb_Backend vb) ?live"
    using fbe.deletes_frame [OF d] other by metis
  have r: "vb_Backend r = s" "Version r = Version v0" "blockStride r = blockStride v0"
    using assms(10) up unfolding v f(1) by (simp_all add: restarted_def same_volume_def blockStride_def)
  have gone: "file_obj cfg s (GetFilePath FileTypeChunk i (fc_VolumeName cfg)) = None"
    using file_deletes_gone [OF assms(9) d] assms(7) f(1) by auto
  obtain now where "file_obj cfg (vb_Backend r) ?live = Some (serializeCheckpoint (Version r) now (blockStride r) (vbMap v0))"
    using assms(1) f(3) up unfolding r checkpointed_def by auto
  moreover have "blm.emap_ok (vbMap v0)" "objs_below (ObjectNum v0) (blockStride r) (vbMap v0)"
    using assms(2) by (simp_all add: volume_inv_def map_inv_def r)
  moreover have "file_readable cfg (vb_Backend r) ?live" "14 + 34 * card (mappedBlocks (blockStride r) (vbMap v0)) < 4294967296"
    using assms(3,4) f(2) up unfolding r by simp_all
  ultimately obtain rc' bs n m where load: "LoadLiveCheckpoint ?B ok r =
      (None, r\<lparr>vb_BlocksToObject := (vb_BlocksToObject r)\<lparr>bto_BlockLookup := m\<rparr>, vb_gcRefcount := rc', BlockStore := bs, ObjectNum := n\<rparr>)"
    "\<And>b. LookupBlockToObject ((vb_BlocksToObject r)\<lparr>bto_BlockLookup := m\<rparr>) (blockStride r) b = blm.cell_at (blockStride r) (vbMap v0) b"
    by (rule fbe.reload_map [where ok = ok]) blast
  have l: "blm.cell_at (blockStride r) (vbMap v0) b = Some (i, off, q)"
    using assms(2,5) unfolding r by (simp add: LookupBlockToObject_eq volume_inv_def map_inv_def)
  obtain e' where "be_Read ?B s FileTypeChunk i off (blockStride r) = Inl e'"
    using fbe.Read_missing [OF gone] unfolding fbe.Read_own by blast
  then show ?thesis unfolding load(1) using load(2) l r(1) by (simp add: blockOnBackend_def)
qed

section \<open>Concrete volumes\<close>

text \<open>A chunk that nothing references and one that holds block five.\<close>

definition demoEntry :: "u64 \<Rightarrow> u64 \<Rightarrow> BlockLookup" where
  "demoEntry i q = \<lparr>bl_SeqNums = [q], bl_StartBlock = 5, bl_ObjectID = i, bl_SeqNum = q, bl_ObjectOffset = 10, bl_NumBlocks = 1\<rparr>"

definition demoSwept :: "(FS, unit) VB" where
  "demoSwept = (demoVB False (demoDisk\<lparr>fs_files := [(filePath demoCfg (GetFilePath FileTypeChunk 0 ''v''), replicate 11 1),
      (filePath demoCfg (GetFilePath FileTypeChunk 1 ''v''), replicate 11 2)]\<rparr>))\<lparr>GCEnabled := True, ObjectNum := 2,
      vb_BlocksToObject := \<lparr>bto_dirty = False, bto_BlockLookup = [(5, demoEntry 1 2)]\<rparr>, vb_gcRefcount := [(0, 0), (1, 1)]\<rparr>"

theorem gc_no_dangling_witness:
  "chunks_present (file_obj demoCfg) (fc_VolumeName demoCfg)
     (sweepChunks (fileBackend demoCfg) demoEnv (\<lambda>_. None) (\<lambda>_ v. v) demoSwept)"
proof (rule gc_no_dangling)
  have m: "vbMap demoSwept = [(5, demoEntry 1 2)]" "gcMap demoSwept = Some [(0, 0), (1, 1)]"
    by (simp_all add: demoSwept_def gcMap_def)
  show "refs_exact (vbMap demoSwept) (gcMap demoSwept)"
    unfolding m by (simp add: refs_exact_def refsTo_def gsum_def gcount_def demoEntry_def)
  show "chunks_present (file_obj demoCfg) (fc_VolumeName demoCfg) demoSwept"
    unfolding chunks_present_def m
    by (simp add: refsTo_def gsum_def demoEntry_def demoCfg_def demoSwept_def demoVB_def file_obj_def)
  show "\<forall>k v. gc_rely (file_obj demoCfg) (fc_VolumeName demoCfg) (ObjectNum demoSwept) v v" by (simp add: gc_rely_def)
qed

lemma demoGc_ready:
  "drain_ready (file_readable demoCfg) (fc_VolumeName demoCfg) 0 [] ((demoWrites e)\<lparr>GCEnabled := True\<rparr>)"
  "drain_good demoDrain ((demoWrites e)\<lparr>GCEnabled := True\<rparr>)"
proof -
  let ?v = "(demoWrites e)\<lparr>GCEnabled := True\<rparr>"
  have "vbMap ?v = []" "vb_gcRefcount ?v = []" by (simp_all add: demoWrites_def demoVB_def)
  then have "map_inv ?v" "gcMap ?v = Some []" "map_inv (demoWrites e)"
    using demo_ready [of e] by (simp_all add: map_inv_def gcMap_def refs_exact_def drain_ready_def volume_inv_def gcount_def refsTo_def)
  moreover have "blockStride ?v = blockStride (demoWrites e)" by (simp add: blockStride_def)
  ultimately show "drain_ready (file_readable demoCfg) (fc_VolumeName demoCfg) 0 [] ?v"
    using demo_ready [of e] unfolding drain_ready_def volume_inv_def log_inv_def fresh_blocks_def walParams_def geometry_ok_def chunk_fits_def
    by simp
  show "drain_good demoDrain ?v" using demo_drain_good [of e] by (simp add: drain_good_def walParams_def)
qed

theorem gc_keeps_restart_witness:
  "\<exists>vb' r. DrainToBackend (fileBackend demoCfg) demoLru demoSched demoDrain ((demoWrites True)\<lparr>GCEnabled := True\<rparr>) = (None, vb') \<and>
     vb_Backend r = vb_Backend (runGCSweep (fileBackend demoCfg) demoLru demoSched demoDrain demoEnv (\<lambda>_. None) (\<lambda>_ v. v)
       ((demoWrites True)\<lparr>GCEnabled := True\<rparr>)) \<and>
     blockOnBackend (fileBackend demoCfg) (snd (LoadLiveCheckpoint (fileBackend demoCfg) True (r :: (FS, unit) VB))) 5 = Some [12]"
proof -
  let ?v = "(demoWrites True)\<lparr>GCEnabled := True\<rparr>"
  let ?g = "runGCSweep (fileBackend demoCfg) demoLru demoSched demoDrain demoEnv (\<lambda>_. None) (\<lambda>_ v. v) ?v"
  have pre: "log_inv 0 [] ?v" "volume_inv ?v" "fresh_blocks ?v ([] @ Writes ?v)" "disk_good demoCfg (vb_Backend ?v)"
    using demoGc_ready(1) [of True] demoDisk_good by (simp_all add: drain_ready_def demoWrites_keeps)
  obtain vb' where d: "DrainToBackend (fileBackend demoCfg) demoLru demoSched demoDrain ?v = (None, vb')"
    using drain_succeeds [OF file_writes_succeed pre(4,1,2,3) _ demoGc_ready(2), of demoSched demoLru] by auto
  have w: "Writes ?v = Writes (demoWrites True)" by simp
  let ?r = "(demoVB True (vb_Backend ?g))\<lparr>Version := Version ?g, BlockSize := BlockSize ?g, EncryptionEnabled := EncryptionEnabled ?g,
     vb_aead := vb_aead ?g, VolumeUUID := VolumeUUID ?g, volumeNameHash := volumeNameHash ?g\<rparr>"
  have r: "restarted ?g ?r" by (simp add: restarted_def demoVB_def)
  have new: "newest_of ([] @ Writes ?v) (demoBlock 3 5 12)"
    unfolding w by (simp add: newest_of_def demoWrites_keeps) (simp add: demoBlock_def)
  have "blockOnBackend (fileBackend demoCfg) (snd (LoadLiveCheckpoint (fileBackend demoCfg) True ?r)) (bk_Block (demoBlock 3 5 12)) =
      Some (bk_Data (demoBlock 3 5 12))"
    using gc_keeps_restart [OF d demoGc_ready(1) _ _ r, of True] new unfolding w by (simp add: demoWrites_keeps)
  moreover have "vb_Backend ?r = vb_Backend ?g" by (simp add: demoVB_def)
  ultimately show ?thesis using d by (intro exI [of _ vb'] exI [of _ ?r]) (simp add: demoBlock_def)
qed



text \<open>Block five is in chunk zero and so says the live checkpoint; a drain uploads a newer version of it.\<close>

definition demoRacing :: "(FS, unit) VB" where
  "demoRacing = (demoVB False (demoDisk\<lparr>fs_files := [(filePath demoCfg (GetFilePath FileTypeChunk 0 ''v''), replicate 11 1),
      (filePath demoCfg (GetFilePath FileTypeBlockCheckpointLive 0 ''v''), serializeCheckpoint 1 7 1 [(5, demoEntry 0 2)])]\<rparr>))\<lparr>
      UseBlockStore := False, GCEnabled := True, ObjectNum := 1,
      vb_BlocksToObject := \<lparr>bto_dirty = False, bto_BlockLookup = [(5, demoEntry 0 2)]\<rparr>, vb_gcRefcount := [(0, 1)],
      gcReconciled := True, gcFloorReady := True, gcSnapshotChecked := True, gcSnapshotSafe := True\<rparr>"

lemma demoEntry_ok: "blm.emap_ok [(5, demoEntry i q)]"
  by (auto simp: blm.emap_ok_def blm.ext_ok_def demoEntry_def split: if_splits)

lemma demoEntry_cell: "blm.cell_at 1 [(5, demoEntry i q)] b = (if b = 5 then Some (i, 10, q) else None)"
proof -
  have c: "blm.covers (demoEntry i q) b \<longleftrightarrow> b = 5"
    using blm.covers_iff [of "demoEntry i q" b] by (auto simp: blm.ext_ok_def demoEntry_def word_unat_eq_iff)
  have "bl_cell 1 (demoEntry i q) 0 = (i, 10, q)"
    by (simp add: bl_cell_def demoEntry_def bl_offsetAt_def bl_seqNumAt_def SafeIntToUint32_def)
  then show ?thesis using c by (auto simp: blm.cell_at_def blm.entry_at_def demoEntry_def)
qed

lemma demoRacing_fields:
  "vbMap demoRacing = [(5, demoEntry 0 2)]" "blockStride demoRacing = 1" "ObjectNum demoRacing = 1" "gcMap demoRacing = Some [(0, 1)]"
  "BlockSize demoRacing = 1" "ObjBlockSize demoRacing = 2" "\<not> EncryptionEnabled demoRacing" "Version demoRacing = 1"
  by (simp_all add: demoRacing_def demoVB_def blockStride_def gcMap_def)

lemma demoRacing_inv: "volume_inv demoRacing"
proof -
  have "heads_ok [(5, demoEntry 0 2)]" by (simp add: heads_ok_def demoEntry_def bl_seqNumAt_def)
  moreover have "refs_exact [(5, demoEntry 0 2)] (Some [(0, 1)])"
    by (simp add: refs_exact_def refsTo_def gsum_def gcount_def demoEntry_def)
  moreover have "blocksIn 1 [(5, demoEntry 0 2)] i = (if i = 0 then {5} else {})" for i
    by (auto simp: blocksIn_def demoEntry_cell)
  then have "objs_below 1 1 [(5, demoEntry 0 2)]" by (simp add: objs_below_def)
  ultimately show ?thesis
    by (simp add: volume_inv_def map_inv_def demoRacing_fields demoEntry_ok geometry_ok_def chunk_fits_def ChunkHeaderSize_def)
qed

lemma demoRacing_upload:
  obtains vb where "uploadJobs (fileBackend demoCfg) demoLru (\<lambda>_. False) False [job_of [demoBlock 9 5 77]] demoRacing = (None, vb)"
    "sweep_unhindered (fileBackend demoCfg) vb" "0 \<in> set (gcCandidates (gcFloor vb) vb)" "fs_faults (vb_Backend vb) = []"
proof -
  let ?B = "fileBackend demoCfg" and ?v = "demoRacing\<lparr>ObjectNum := 2\<rparr>" and ?mb = "[matchedBlock (demoBlock 9 5 77)]"
  have "disk_good demoCfg (vb_Backend demoRacing)"
    using demoDisk_good by (simp add: disk_good_def demoRacing_def demoVB_def)
  then obtain s where w: "be_Write ?B FileTypeChunk 1 (ChunkHeader ?v) [77] (vb_Backend demoRacing) = (None, s)" "disk_good demoCfg s"
    using file_writes_succeed unfolding writes_succeed_def by meson
  have objs: "file_obj demoCfg s = (file_obj demoCfg (vb_Backend demoRacing))(GetFilePath FileTypeChunk 1 ''v'' \<mapsto> ChunkHeader ?v @ [77])"
    using fbe.Write_ok [OF w(1)] by (simp add: demoCfg_def)
  define u where "u = releasePending demoLru ?mb (?v\<lparr>vb_Backend := s\<rparr>)"
  have u: "u = ?v\<lparr>vb_Backend := s\<rparr>"
    by (simp add: u_def releasePending_def demoRacing_def demoVB_def Let_def)
  let ?e = "runLookup 1 1 0 ?mb"
  have e: "?e = \<lparr>bl_SeqNums = [9], bl_StartBlock = 5, bl_ObjectID = 1, bl_SeqNum = 9, bl_ObjectOffset = 10, bl_NumBlocks = 1\<rparr>"
    by (simp add: runLookup_def matchedBlock_def demoBlock_def ChunkHeaderSize_def SafeIntToUint32_def SafeIntToUint16_def)
  have "\<not> staleRun [(5, demoEntry 0 2)] ?e"
    unfolding e by (simp add: staleRun_def resolveBlockLookup_def demoEntry_def)
  moreover have "insertCoalescedLocked ?e 1 ([(5, demoEntry 0 2)], Some [(0, 1)]) = ([(5, ?e)], Some [(0, 0), (1, 1)])"
    unfolding e by (simp add: insertCoalescedLocked_def insertKey_def demoEntry_def bl_end_def gcDec_def gcInc_def Let_def gcount_def)
  ultimately have i: "indexRuns 1 0 ?mb u = u\<lparr>vb_BlocksToObject := \<lparr>bto_dirty = False, bto_BlockLookup = [(5, ?e)]\<rparr>, vb_gcRefcount := [(0, 0), (1, 1)]\<rparr>"
    by (simp add: indexRun_def Let_def u) (simp add: demoRacing_def demoVB_def gcMap_def blockStride_def)
  define vb where "vb = u\<lparr>vb_BlocksToObject := \<lparr>bto_dirty = True, bto_BlockLookup = [(5, ?e)]\<rparr>, vb_gcRefcount := [(0, 0), (1, 1)]\<rparr>"
  have c: "chunkBody ?v [77] ?mb = Inr [77]" by (simp add: chunkBody_def demoRacing_def demoVB_def)
  have "createChunkFile ?B demoLru (job_of [demoBlock 9 5 77]) demoRacing = (None, vb)"
    using w(1) i c unfolding u_def vb_def
    by (simp add: createChunkFile_def job_of_def demoRacing_fields(3) Let_def) (simp add: demoBlock_def)
  then have "uploadJobs ?B demoLru (\<lambda>_. False) False [job_of [demoBlock 9 5 77]] demoRacing = (None, vb)" by simp
  moreover have "readSnapshotMarker ?B vb = Inr None"
  proof -
    have "file_obj demoCfg s (GetFilePath FileTypeSnapshotMarker 0 ''v'') = None"
      unfolding objs using chunk_key_other [of FileTypeSnapshotMarker 0 "''v''"]
      by (simp add: file_obj_def demoRacing_def demoVB_def GetFilePath.simps)
    then have "be_Read ?B s FileTypeSnapshotMarker 0 0 0 = Inl BNotExist"
      by (simp add: fileBackend_def file_Read_def file_obj_def demoCfg_def)
    then show ?thesis by (simp add: readSnapshotMarker_def vb_def u)
  qed
  then have "sweep_unhindered ?B vb"
    by (simp add: sweep_unhindered_def) (simp add: vb_def u demoRacing_def demoVB_def bytesEqual_def)
  moreover have "0 \<in> set (gcCandidates (gcFloor vb) vb)"
    by (simp add: gcCandidates_def vb_def u gcount_def) (simp add: demoRacing_def demoVB_def)
  moreover have "fs_faults (vb_Backend vb) = []" using w(2) by (simp add: vb_def u disk_good_def)
  ultimately show thesis by (rule that)
qed

theorem sweep_races_upload_witness:
  "\<exists>vb r. uploadJobs (fileBackend demoCfg) demoLru (\<lambda>_. False) False [job_of [demoBlock 9 5 77]] demoRacing = (None, vb) \<and>
     vb_Backend r = vb_Backend (sweepChunks (fileBackend demoCfg) demoEnv (\<lambda>_. None) (\<lambda>_ v. v) vb) \<and>
     fst (LoadLiveCheckpoint (fileBackend demoCfg) True (r :: (FS, unit) VB)) = None \<and>
     blockOnBackend (fileBackend demoCfg) (snd (LoadLiveCheckpoint (fileBackend demoCfg) True r)) 5 = None"
proof -
  obtain vb where u: "uploadJobs (fileBackend demoCfg) demoLru (\<lambda>_. False) False [job_of [demoBlock 9 5 77]] demoRacing = (None, vb)"
    "sweep_unhindered (fileBackend demoCfg) vb" "0 \<in> set (gcCandidates (gcFloor vb) vb)" "fs_faults (vb_Backend vb) = []"
    by (rule demoRacing_upload)
  let ?g = "sweepChunks (fileBackend demoCfg) demoEnv (\<lambda>_. None) (\<lambda>_ v. v) vb"
  let ?r = "(demoVB True (vb_Backend ?g))\<lparr>Version := Version ?g, BlockSize := BlockSize ?g, EncryptionEnabled := EncryptionEnabled ?g,
     vb_aead := vb_aead ?g, VolumeUUID := VolumeUUID ?g, volumeNameHash := volumeNameHash ?g\<rparr>"
  have r: "restarted ?g ?r" "vb_Backend ?r = vb_Backend ?g" by (simp_all add: restarted_def demoVB_def)
  have cp: "checkpointed (file_obj demoCfg (vb_Backend demoRacing)) (fc_VolumeName demoCfg) demoRacing"
    unfolding checkpointed_def demoRacing_fields
    by (simp add: file_obj_def demoRacing_def demoVB_def demoCfg_def GetFilePath.simps exI [of _ 7])
  have "mappedBlocks 1 [(5, demoEntry 0 2)] = {5}" by (auto simp: mappedBlocks_def demoEntry_cell)
  then have size: "14 + 34 * card (mappedBlocks (blockStride demoRacing) (vbMap demoRacing)) < 4294967296" by (simp add: demoRacing_fields)
  have rd: "file_readable demoCfg (vb_Backend demoRacing) (GetFilePath FileTypeBlockCheckpointLive 0 (fc_VolumeName demoCfg))"
    by (simp add: file_readable_def demoRacing_def demoVB_def demoDisk_def demoFS_def)
  have l: "LookupBlockToObject (vb_BlocksToObject demoRacing) (blockStride demoRacing) 5 = Some (0, 10, 2)"
    by (simp add: LookupBlockToObject_eq demoRacing_fields demoEntry_ok demoEntry_cell)
  show ?thesis
    using sweep_races_upload [OF cp demoRacing_inv size rd l u(1,3,2,4) r(1), of True] u(1) r(2) by (intro exI [of _ vb] exI [of _ ?r]) simp
qed

end
