(* ===== verification/Simplefs.thy ===== *)
theory Simplefs
  imports Engine "HOL-Library.Multiset"
begin

text \<open>
  The block allocator of \<open>simplefs.go\<close>: a volume as a list of free blocks and a set of used ones, files as
  lists of blocks, and the invariant that every block is free or in use, and used by one file only.
\<close>

section \<open>Definitions\<close>

record SimpleVolume =
  sv_Used :: "(u64, bool) gomap"
  sv_Free :: "u64 list"
  sv_Size :: u64
  sv_Name :: string

record SimpleBlock =
  sb_Filename :: string
  sb_Size :: u64
  sb_Blocks :: "u64 list"

record SimpleFS =
  sfs_Volume :: SimpleVolume
  sfs_Blocks :: "(string, SimpleBlock) gomap"
  sfs_Blocksize :: u64

datatype SfsError =
    ErrNotMultiple
  | ErrNotEnoughFree
  | ErrFileNotFound
  | PanicMake
  | PanicDivide


text \<open>\<open>make([]uint64, n)\<close> panics when the slice cannot fit the address space.\<close>

definition makePanics :: "u64 \<Rightarrow> bool" where
  "makePanics n \<longleftrightarrow> 2 ^ 48 < unat n * 8"




definition AllocateBlocks :: "u64 \<Rightarrow> SimpleFS \<Rightarrow> (SfsError + u64 list) \<times> SimpleFS" where
  "AllocateBlocks sz sfs =
     (let vol = sfs_Volume sfs; n = nat (SafeUint64ToInt sz); blocks = take n (sv_Free vol)
      in if makePanics sz then (Inl PanicMake, sfs)
         else if length (sv_Free vol) < n then (Inl ErrNotEnoughFree, sfs)
         else (Inr blocks, sfs\<lparr>sfs_Volume := vol\<lparr>sv_Used := fold (\<lambda>b. gput b True) blocks (sv_Used vol), sv_Free := drop n (sv_Free vol)\<rparr>\<rparr>))"

definition FreeBlocks :: "u64 list \<Rightarrow> SimpleFS \<Rightarrow> SimpleFS" where
  "FreeBlocks blocks sfs =
     (let vol = sfs_Volume sfs
      in sfs\<lparr>sfs_Volume := vol\<lparr>sv_Used := fold gdel blocks (sv_Used vol), sv_Free := sv_Free vol @ blocks\<rparr>\<rparr>)"

definition CreateFile :: "string \<Rightarrow> u64 \<Rightarrow> SimpleFS \<Rightarrow> (SfsError + u64 list) \<times> SimpleFS" where
  "CreateFile pathname dataLen sfs =
     (if sfs_Blocksize sfs = 0 then (Inl PanicDivide, sfs)
      else let numBlocks = (dataLen + sfs_Blocksize sfs - 1) div sfs_Blocksize sfs;
               sfs = (case map_of (sfs_Blocks sfs) pathname of
                        None \<Rightarrow> sfs
                      | Some old \<Rightarrow> (FreeBlocks (sb_Blocks old) sfs)\<lparr>sfs_Blocks := gdel pathname (sfs_Blocks sfs)\<rparr>)
           in case AllocateBlocks numBlocks sfs of
                (Inl e, sfs) \<Rightarrow> (Inl e, sfs)
              | (Inr blocks, sfs) \<Rightarrow>
                  (Inr blocks, sfs\<lparr>sfs_Blocks := gput pathname \<lparr>sb_Filename = pathname, sb_Size = dataLen, sb_Blocks = blocks\<rparr> (sfs_Blocks sfs)\<rparr>))"


section \<open>Every block is free or in one file\<close>
















text \<open>
  Overwriting a file that then does not fit destroys it: \<open>CreateFile\<close> frees and forgets the old blocks
  before it finds out that there is no room for the new ones.\<close>

lemma failed_overwrite_deletes:
  assumes "map_of (sfs_Blocks sfs) path = Some old" "fst (CreateFile path len sfs) = Inl ErrNotEnoughFree"
  shows "map_of (sfs_Blocks (snd (CreateFile path len sfs))) path = None \<and>
    set (sb_Blocks old) \<subseteq> set (sv_Free (sfs_Volume (snd (CreateFile path len sfs))))"
  using assms by (auto simp: CreateFile_def AllocateBlocks_def FreeBlocks_def Let_def split: if_splits)

end
