(* ===== verification/Spec2Isabelle.thy ===== *)
theory Spec2Isabelle
  imports Blockstore_Props Backpressure State_Props Read_Props GC_Props Simplefs
begin

text \<open>
  Viperblock: a block volume kept in memory, in a local write-ahead log and in chunks on an object
  backend.

  \<^bold>\<open>The program and the theories.\<close>  A write is buffered in memory under a sequence number (\<open>Writes\<close> and the
  unified block store), appended to a write-ahead log by a flush, packed into chunks that a drain uploads
  to the backend, and found again through the block-to-object map, which a checkpoint object makes
  durable.  The parts, their sources under \<open>src/viperblock/\<close> and their theories:

  \<^item> \<open>blockstore.go\<close>: \<open>Extents\<close> (coalesced runs of persisted blocks), \<open>Blockstore\<close> (the sharded store, one
    function per method) and \<open>Blockstore_Props\<close> (refinement to a plain map of blocks).
  \<^item> \<open>types.go\<close>, \<open>utils.go\<close>: \<open>Utils_Types\<close> (object names, saturating conversions); \<open>Endian\<close> and \<open>VB_Prelude\<close>
    hold big-endian encodings, checksums and Go maps as association lists.
  \<^item> the block map of \<open>viperblock.go\<close>: \<open>Blockmap\<close> (insertion with fracturing and reference counts,
    coalescing, lookup); \<open>Checkpoint\<close> (its records and files).
  \<^item> \<open>crypto.go\<close>: \<open>Crypto\<close> (nonces, associated data, seals over an abstract cipher whose laws are
    \<open>aead_ok\<close>) and \<open>Envelope\<close> (base64, hexadecimal and the metadata envelope).
  \<^item> the write-ahead log: \<open>Wal\<close> (record formats, append with roll-back, the tolerant reader).
  \<^item> the backend interface and the file backend: \<open>Backend\<close> (a record of operations and the locale
    \<open>backend_laws\<close>) and \<open>File_Backend\<close> (the operations over a file system with faults, and the
    interpretation of the locale on them).
  \<^item> the engine \<open>VB\<close>: \<open>Engine\<close> (the state), \<open>Packing\<close> and \<open>Chunks\<close> (newest record per block, packing, sealing,
    upload, map update), \<open>Flush\<close> (the buffers and the log), \<open>Drain\<close> (rotation, segment readers, upload,
    live checkpoint, backpressure), \<open>Load\<close> (checkpoint loading), with their properties in \<open>Drain_Props\<close>,
    \<open>Drain_Errors\<close>, \<open>Durability\<close> and \<open>Backpressure\<close>.
  \<^item> \<open>snapshot.go\<close>: \<open>Snapshot_Map\<close> (the frozen map, its flat section, opening a clone).
  \<^item> the read path: \<open>Read\<close> (locating the blocks of a request, coalescing, fetching and opening runs)
    and \<open>Read_Props\<close> (a read is the concatenation of its blocks).
  \<^item> the volume state: \<open>State\<close> (both copies of \<open>VBState\<close>, loading and reconciling them, the reservation of
    sequence numbers) and \<open>State_Props\<close> (runs with crashes).
  \<^item> the chunk collector: \<open>GC\<close> (\<open>ensureGCFloor\<close>, the guards against snapshots, \<open>reconcileChunksOnce\<close>, \<open>sweepChunks\<close>,
    \<open>runGCSweep\<close>) and \<open>GC_Props\<close>.  What others do while the sweep is between two deletions is an argument.
  \<^item> \<open>simplefs.go\<close>: \<open>Simplefs\<close> (the block allocator and the file table of the demonstration file system).

  \<^bold>\<open>Conventions.\<close>  Machine integers are words; a Go map is an association list whose order stands for the
  unspecified iteration order; an error is a value; a critical section is one step.  What the operating
  system decides (short writes, failed calls, the order in which uploads finish, random bytes) is an
  argument, so that a theorem about all arguments covers every outcome.  The backend is a record of
  functions, the cache of recently used blocks and the JSON codec of metadata are parameters.

  \<^bold>\<open>What is shown.\<close>  After a successful drain a restarted process reads the newest record of every block;
  a drain that fails in any way leaves every block readable as before or as its newest record; recovery
  of a log returns exactly the acknowledged records; a read returns what each of its blocks holds; the block store behaves as a map; insertion,
  coalescing and checkpoints keep what every block resolves to; nonces never repeat across crashes;
  writers held back by backpressure go on after one drain; a collection round deletes no chunk that is
  referenced and nothing that a visible snapshot needs.  The theorems of kind error state where the
  program departs from this.

  \<^bold>\<open>Fuel and partiality.\<close>  Only two loops need not end.  The backpressure loop takes the rounds as a list
  that acts as fuel: it is shown to return after one round without faults and within ten when every
  drain fails.  The loop that raises the high-water mark is a partial function and is shown to return for
  every target below the nonce limit.

  \<^bold>\<open>Not modelled.\<close>  State-changing code outside the theories: the guest write path (\<open>WriteAtCtx\<close>,
  \<open>writeOneBlockLocked\<close>, \<open>Write\<close>, \<open>WriteBlockStore\<close>, \<open>SyncBlockStoreFromLegacy\<close>); the replay of orphaned logs
  at boot (\<open>RecoverLocalWALs\<close>, of which only the reader of one log file is modelled); the ticker of the chunk
  collector (\<open>StartChunkGC\<close>); the log syncer and
  the uploader goroutine; creation of snapshots (\<open>CreateSnapshot\<close>, \<open>drainForSnapshot\<close>); \<open>New\<close>, \<open>Close\<close> and
  \<open>Reset\<close>; the S3 backend; the NBD plugin and its nbdkit bindings; \<open>arena.go\<close>; \<open>v_utils\<close>;
  the JSON file of \<open>simplefs\<close>.  Code without state of the volume: logging, telemetry and the command-line tools.
  Goroutines that call modelled functions are not modelled as such; where it matters the interleaving is an
  argument of the definitions.
\<close>

end
